(* ===== verification/Prelude.thy ===== *)
theory Prelude
  imports Main "HOL-Library.Sublist" "HOL-Library.Word"
begin

text \<open>
  What every component of the development shares: how C strings, characters and status codes
  are represented, the parts of the C library the sources use (\<open>ctype.h\<close> in the C locale and
  \<open>string.h\<close>), and generic lemmas on lists.

  A C string is the \<open>string\<close> of its bytes before the terminating NUL. A \<open>const char *\<close> that walks
  through a string is the suffix that starts at it, so that \<open>*ptr\<close> is \<open>peek s\<close> (NUL at the end)
  and \<open>++ptr\<close> is \<open>tl s\<close>. A \<open>char\<close> is one byte; \<open>ord\<close> reads it as an unsigned number.
\<close>

named_theorems cclass \<open>definitions of the character classes, over the byte value\<close>

section \<open>Bytes and character classes\<close>

abbreviation ord :: "char \<Rightarrow> nat" where
  "ord c \<equiv> of_char c"

abbreviation NUL :: char where
  "NUL \<equiv> CHR 0x00"

definition c_isdigit :: "char \<Rightarrow> bool" where
  [cclass]: "c_isdigit c \<longleftrightarrow> 48 \<le> ord c \<and> ord c \<le> 57"

definition c_isupper :: "char \<Rightarrow> bool" where
  [cclass]: "c_isupper c \<longleftrightarrow> 65 \<le> ord c \<and> ord c \<le> 90"

definition c_islower :: "char \<Rightarrow> bool" where
  [cclass]: "c_islower c \<longleftrightarrow> 97 \<le> ord c \<and> ord c \<le> 122"

definition c_isalpha :: "char \<Rightarrow> bool" where
  [cclass]: "c_isalpha c \<longleftrightarrow> c_isupper c \<or> c_islower c"

definition c_isalnum :: "char \<Rightarrow> bool" where
  [cclass]: "c_isalnum c \<longleftrightarrow> c_isalpha c \<or> c_isdigit c"

definition c_isxdigit :: "char \<Rightarrow> bool" where
  [cclass]: "c_isxdigit c \<longleftrightarrow> c_isdigit c \<or> (65 \<le> ord c \<and> ord c \<le> 70) \<or> (97 \<le> ord c \<and> ord c \<le> 102)"

definition c_isspace :: "char \<Rightarrow> bool" where
  [cclass]: "c_isspace c \<longleftrightarrow> ord c = 32 \<or> (9 \<le> ord c \<and> ord c \<le> 13)"

definition c_iscntrl :: "char \<Rightarrow> bool" where
  [cclass]: "c_iscntrl c \<longleftrightarrow> ord c < 32 \<or> ord c = 127"

definition c_isprint :: "char \<Rightarrow> bool" where
  [cclass]: "c_isprint c \<longleftrightarrow> 32 \<le> ord c \<and> ord c \<le> 126"

definition c_isascii :: "char \<Rightarrow> bool" where
  [cclass]: "c_isascii c \<longleftrightarrow> ord c < 128"

definition c_tolower :: "char \<Rightarrow> char" where
  "c_tolower c = (if c_isupper c then char_of (ord c + 32) else c)"

definition c_toupper :: "char \<Rightarrow> char" where
  "c_toupper c = (if c_islower c then char_of (ord c - 32) else c)"

lemma ord_bound: "ord c < 256"
  by simp

lemma char_eq_ord: "(c = d) \<longleftrightarrow> ord c = ord d"
  by (metis char_of_char)

lemma ord_char_of: "n < 256 \<Longrightarrow> ord (char_of n) = n"
  by simp

lemma ord_tolower: "ord (c_tolower c) = (if c_isupper c then ord c + 32 else ord c)"
  by (auto simp: c_tolower_def cclass)

lemma not_upper_tolower: "\<not> c_isupper (c_tolower c)"
  using ord_tolower [of c] by (auto simp: cclass split: if_splits)

lemma c_tolower_idem: "c_tolower (c_tolower c) = c_tolower c"
  using not_upper_tolower [of c] by (simp add: c_tolower_def [of "c_tolower c"])

section \<open>C strings as suffixes\<close>

definition peek :: "string \<Rightarrow> char" where
  "peek s = (case s of [] \<Rightarrow> NUL | c # _ \<Rightarrow> c)"

text \<open>\<open>s[i]\<close> for an index up to and including the terminating NUL.\<close>

definition at :: "string \<Rightarrow> nat \<Rightarrow> char" where
  "at s i = (if i < length s then s ! i else NUL)"

text \<open>A list of bytes that a C string can hold: no byte is NUL.\<close>

definition cstring :: "string \<Rightarrow> bool" where
  "cstring s \<longleftrightarrow> NUL \<notin> set s"

lemma peek_simps [simp]: "peek [] = NUL" "peek (c # s) = c"
  by (simp_all add: peek_def)

lemma at_simps [simp]: "at s 0 = peek s" "at (c # s) (Suc n) = at s n"
  by (simp_all add: at_def peek_def split: list.split)

lemma cstring_simps [simp]:
  "cstring []" "cstring (c # s) \<longleftrightarrow> c \<noteq> NUL \<and> cstring s"
  "cstring (s @ t) \<longleftrightarrow> cstring s \<and> cstring t"
  by (auto simp: cstring_def)

lemma cstring_mem: "cstring s \<Longrightarrow> c \<in> set s \<Longrightarrow> c \<noteq> NUL"
  by (auto simp: cstring_def)

lemma cstring_peek: "cstring s \<Longrightarrow> peek s = NUL \<longleftrightarrow> s = []"
  by (cases s) auto

text \<open>\<open>strchr(s, c)\<close>: a search for NUL finds the terminator.\<close>

definition c_strchr :: "string \<Rightarrow> char \<Rightarrow> nat option" where
  "c_strchr s c =
     (if c \<in> set s then Some (length (takeWhile (\<lambda>x. x \<noteq> c) s))
      else if c = NUL then Some (length s) else None)"

definition c_strrchr :: "string \<Rightarrow> char \<Rightarrow> nat option" where
  "c_strrchr s c =
     (if c \<in> set s then Some (length s - 1 - length (takeWhile (\<lambda>x. x \<noteq> c) (rev s)))
      else if c = NUL then Some (length s) else None)"

definition has_chr :: "string \<Rightarrow> char \<Rightarrow> bool" where
  "has_chr s c \<longleftrightarrow> c_strchr s c \<noteq> None"

lemma has_chr_iff: "has_chr s c \<longleftrightarrow> c \<in> set s \<or> c = NUL"
  by (simp add: has_chr_def c_strchr_def)

definition str_lower :: "string \<Rightarrow> string" where
  "str_lower s = map c_tolower s"

text \<open>\<open>strcasecmp(s, t) == 0\<close> and \<open>strncasecmp(s, t, n) == 0\<close> in the C locale.\<close>

definition strcaseeq :: "string \<Rightarrow> string \<Rightarrow> bool" where
  "strcaseeq s t \<longleftrightarrow> str_lower s = str_lower t"

definition strncaseeq :: "string \<Rightarrow> string \<Rightarrow> nat \<Rightarrow> bool" where
  "strncaseeq s t n \<longleftrightarrow> str_lower (take n s) = str_lower (take n t)"

section \<open>Status codes\<close>

text \<open>The values of \<open>apr_status_t\<close> and of the HTTP handlers that the modelled code returns.\<close>

datatype apr_status =
    APR_SUCCESS | APR_EOF | APR_EINTR | APR_ENOMEM | APR_EINVAL | APR_ENOTIMPL
  | APR_ENOSPC | APR_NOTFOUND | APR_EGENERAL | APR_ENOSHMAVAIL | APR_TIMEUP
  | APR_EPATHWILD | APR_ENOENT | APR_ENOTDIR

text \<open>The return codes of \<^verbatim>\<open>include/httpd.h\<close>.\<close>

abbreviation (input) OK :: int where "OK \<equiv> 0"
abbreviation (input) DECLINED :: int where "DECLINED \<equiv> -1"
abbreviation (input) HTTP_OK :: int where "HTTP_OK \<equiv> 200"
abbreviation (input) HTTP_PARTIAL_CONTENT :: int where "HTTP_PARTIAL_CONTENT \<equiv> 206"
abbreviation (input) HTTP_NOT_MODIFIED :: int where "HTTP_NOT_MODIFIED \<equiv> 304"
abbreviation (input) HTTP_BAD_REQUEST :: int where "HTTP_BAD_REQUEST \<equiv> 400"
abbreviation (input) HTTP_UNAUTHORIZED :: int where "HTTP_UNAUTHORIZED \<equiv> 401"
abbreviation (input) HTTP_FORBIDDEN :: int where "HTTP_FORBIDDEN \<equiv> 403"
abbreviation (input) HTTP_NOT_FOUND :: int where "HTTP_NOT_FOUND \<equiv> 404"
abbreviation (input) HTTP_PRECONDITION_FAILED :: int where "HTTP_PRECONDITION_FAILED \<equiv> 412"
abbreviation (input) HTTP_REQUEST_ENTITY_TOO_LARGE :: int where "HTTP_REQUEST_ENTITY_TOO_LARGE \<equiv> 413"
abbreviation (input) HTTP_RANGE_NOT_SATISFIABLE :: int where "HTTP_RANGE_NOT_SATISFIABLE \<equiv> 416"
abbreviation (input) HTTP_INTERNAL_SERVER_ERROR :: int where "HTTP_INTERNAL_SERVER_ERROR \<equiv> 500"

section \<open>Lists\<close>

lemma takeWhile_dropWhile_unique:
  "xs = ys @ zs \<Longrightarrow> \<forall>y\<in>set ys. P y \<Longrightarrow> zs = [] \<or> \<not> P (hd zs) \<Longrightarrow>
   takeWhile P xs = ys \<and> dropWhile P xs = zs"
  by (induction ys arbitrary: xs) (auto simp: takeWhile_eq_Nil_iff dropWhile_eq_self_iff)

lemma dropWhile_hd: "dropWhile P xs = y # ys \<Longrightarrow> \<not> P y"
  by (metis hd_dropWhile list.discI list.sel(1))

lemma length_dropWhile_less: "P x \<Longrightarrow> length (dropWhile P (x # xs)) < Suc (length xs)"
  by (simp add: length_dropWhile_le le_imp_less_Suc)

lemma suffix_dropWhile: "suffix (dropWhile P xs) xs"
  by (metis suffix_def takeWhile_dropWhile_id)

lemma suffix_tl_Cons: "suffix t (x # xs) \<Longrightarrow> t \<noteq> [] \<Longrightarrow> suffix (tl t) xs"
  by (metis list.sel(3) suffix_Cons suffix_tl suffix_order.trans)

lemma set_tlD: "x \<in> set (tl xs) \<Longrightarrow> x \<in> set xs"
  by (cases xs) auto

lemma last_dropWhile: "dropWhile P xs \<noteq> [] \<Longrightarrow> last (dropWhile P xs) = last xs"
  by (metis last_appendR takeWhile_dropWhile_id)

lemma length_takeWhile_less: "x \<in> set xs \<Longrightarrow> \<not> P x \<Longrightarrow> length (takeWhile P xs) < length xs"
  by (induction xs) auto

lemma last_take_nth: "0 < n \<Longrightarrow> n \<le> length xs \<Longrightarrow> last (take n xs) = xs ! (n - 1)"
  by (subst last_conv_nth) auto

end
