(* ===== verification/Ring.thy ===== *)
theory Ring
  imports Prelude
begin

text \<open>
  Arrays that are used as cyclic buffers: \<open>ring xs p n\<close> reads \<open>n\<close> cells of \<open>xs\<close> from the position
  \<open>p\<close> on, around the end, and \<open>ring_write xs q s\<close> writes the cells of \<open>s\<close> from \<open>q\<close> on. The lemmas
  give the ring as a list: a step of the beginning is \<open>tl\<close>, a write behind the end appends.
  Unsigned 32-bit arithmetic is on natural numbers, with the wrap-around written out.
\<close>

section \<open>Unsigned integers\<close>

definition uadd :: "nat \<Rightarrow> nat \<Rightarrow> nat" where
  "uadd a b = (a + b) mod 2 ^ 32"

definition usub :: "nat \<Rightarrow> nat \<Rightarrow> nat" where
  "usub a b = (a + 2 ^ 32 - b) mod 2 ^ 32"

lemma uadd_exact: "a + b < 2 ^ 32 \<Longrightarrow> uadd a b = a + b"
  by (simp add: uadd_def)

lemma usub_exact:
  assumes "b \<le> a" "a < 2 ^ 32"
  shows "usub a b = a - b"
proof -
  have "a + 2 ^ 32 - b = (a - b) + 2 ^ 32" using assms(1) by (rule Nat.add_diff_assoc2 [symmetric])
  then show ?thesis unfolding usub_def by (simp only: mod_add_self2 mod_less [OF le_less_trans [OF diff_le_self assms(2)]])
qed

section \<open>Reading a ring\<close>

definition ring :: "'a list \<Rightarrow> nat \<Rightarrow> nat \<Rightarrow> 'a list" where
  "ring xs p n = map (\<lambda>k. xs ! ((p + k) mod length xs)) [0..<n]"

lemma length_ring [simp]: "length (ring xs p n) = n"
  by (simp add: ring_def)

lemma ring_0 [simp]: "ring xs p 0 = []"
  by (simp add: ring_def)

lemma ring_Suc: "ring xs p (Suc n) = xs ! (p mod length xs) # ring xs (Suc p) n"
  by (simp add: ring_def upt_conv_Cons map_Suc_upt [symmetric] del: upt_Suc)

lemma ring_add: "ring xs p (m + n) = ring xs p m @ ring xs (p + m) n"
  by (induction m arbitrary: p) (simp_all add: ring_Suc)

lemma ring_mod [simp]: "ring xs (p mod length xs) n = ring xs p n"
  by (simp add: ring_def mod_add_left_eq)

lemma ring_nth: "k < n \<Longrightarrow> ring xs p n ! k = xs ! ((p + k) mod length xs)"
  by (simp add: ring_def)

lemma ring_take: "k \<le> n \<Longrightarrow> take k (ring xs p n) = ring xs p k"
  using ring_add [of xs p k "n - k"] by simp

lemma ring_drop: "k \<le> n \<Longrightarrow> drop k (ring xs p n) = ring xs (p + k) (n - k)"
  using ring_add [of xs p k "n - k"] by simp

lemma ring_straight: "p + n \<le> length xs \<Longrightarrow> ring xs p n = take n (drop p xs)"
  by (rule nth_equalityI) (auto simp: ring_nth)

lemma ring_wrapped:
  assumes "p < length xs" "length xs \<le> p + n" "n \<le> length xs"
  shows "ring xs p n = drop p xs @ take (p + n - length xs) xs"
proof -
  have "ring xs p n = ring xs p (length xs - p) @ ring xs (length xs) (p + n - length xs)"
    using ring_add [of xs p "length xs - p" "p + n - length xs"] assms by simp
  moreover have "ring xs (length xs) (p + n - length xs) = take (p + n - length xs) xs"
    using ring_mod [of xs "length xs" "p + n - length xs"] ring_straight [of 0 "p + n - length xs" xs] assms by simp
  ultimately show ?thesis using assms by (simp add: ring_straight)
qed

section \<open>Writing a ring\<close>

fun ring_write :: "'a list \<Rightarrow> nat \<Rightarrow> 'a list \<Rightarrow> 'a list" where
  "ring_write xs q [] = xs"
| "ring_write xs q (c # s) = ring_write (xs[q mod length xs := c]) (Suc q) s"

lemma length_ring_write [simp]: "length (ring_write xs q s) = length xs"
  by (induction s arbitrary: xs q) simp_all

lemma ring_slot:
  assumes "k < (n::nat)" "n < l"
  shows "(p + k) mod l \<noteq> (p + n) mod l"
proof
  assume "(p + k) mod l = (p + n) mod l"
  then have "l dvd (p + n) - (p + k)" using assms(1) mod_eq_dvd_iff_nat [of "p + k" "p + n" l] by simp
  then show False using assms dvd_imp_le [of l "n - k"] by simp
qed

lemma ring_update: "n < length xs \<Longrightarrow> ring (xs[(p + n) mod length xs := v]) p n = ring xs p n"
  by (rule nth_equalityI) (auto simp: ring_nth nth_list_update ring_slot dest: ring_slot [of _ n "length xs" p])

lemma ring_snoc:
  assumes "n < length xs"
  shows "ring (xs[(p + n) mod length xs := v]) p (Suc n) = ring xs p n @ [v]"
proof -
  have "0 < length xs" using assms by (rule le_less_trans [OF le0])
  then have "(p + n) mod length xs < length xs" by (rule mod_less_divisor)
  then show ?thesis
    using ring_add [of "xs[(p + n) mod length xs := v]" p n "Suc 0"] by (simp add: ring_update assms ring_Suc)
qed

lemma ring_list_update:
  assumes "m < n" "n \<le> length xs"
  shows "ring (xs[(p + m) mod length xs := v]) p n = (ring xs p n)[m := v]"
proof (rule nth_equalityI)
  fix k assume "k < length (ring (xs[(p + m) mod length xs := v]) p n)"
  then have k: "k < n" by simp
  then have "(p + m) mod length xs = (p + k) mod length xs \<longleftrightarrow> m = k"
    using ring_slot [of m k "length xs" p] ring_slot [of k m "length xs" p] assms by (cases m k rule: linorder_cases) auto
  moreover have "(p + m) mod length xs < length xs" using assms by (intro mod_less_divisor) auto
  ultimately show "ring (xs[(p + m) mod length xs := v]) p n ! k = (ring xs p n)[m := v] ! k"
    using k assms by (simp add: ring_nth nth_list_update)
qed simp

lemma ring_write_append:
  assumes "n + length s \<le> length xs"
  shows "ring (ring_write xs (p + n) s) p (n + length s) = ring xs p n @ s"
  using assms
proof (induction s arbitrary: xs n)
  case (Cons c s)
  then show ?case using Cons.IH [of "Suc n" "xs[(p + n) mod length xs := c]"] by (simp add: ring_snoc)
qed simp

lemma ring_write_before:
  "n + length s \<le> length xs \<Longrightarrow> m \<le> n \<Longrightarrow> ring (ring_write xs (p + n) s) p m = ring xs p m"
  using ring_write_append [of n s xs p] ring_take [of m "n + length s" "ring_write xs (p + n) s" p]
    ring_take [of m n xs p] by simp

lemma ring_write_same: "length s \<le> length xs \<Longrightarrow> ring (ring_write xs q s) q (length s) = s"
  using ring_write_append [of 0 s xs q] by simp

lemma ring_write_cat: "ring_write (ring_write xs q s) (q + length s) t = ring_write xs q (s @ t)"
proof (induction s arbitrary: xs q)
  case (Cons c s)
  then show ?case using Cons [of "xs[q mod length xs := c]" "Suc q"] by simp
qed simp

lemma ring_write_mod [simp]: "ring_write xs (q mod length xs) s = ring_write xs q s"
proof (induction s arbitrary: xs q)
  case (Cons c s)
  have "ring_write ys (Suc (q mod length xs)) s = ring_write ys (Suc q) s" if "length ys = length xs" for ys
    using Cons [of ys "Suc (q mod length xs)"] Cons [of ys "Suc q"] that by (simp add: mod_Suc_eq)
  then show ?case by simp
qed simp

lemma ring_write_straight: "q + length s \<le> length xs \<Longrightarrow> ring_write xs q s = take q xs @ s @ drop (q + length s) xs"
proof (induction s arbitrary: xs q)
  case (Cons c s)
  then have "q < length xs" by simp
  then show ?case using Cons by (simp add: upd_conv_take_nth_drop add.commute)
qed simp

end
