(* ===== verification/Str_Match.thy ===== *)
theory Str_Match
  imports Prelude
begin

text \<open>
  Wildcard matching of \<^verbatim>\<open>server/util.c\<close>: \<open>ap_strcmp_match\<close>, \<open>ap_strcasecmp_match\<close> and
  \<open>ap_is_matchexp\<close>. The matchers return 0 for a match, 1 for a mismatch and -1 to abort the
  search early; the abort is what keeps a pattern with several stars from trying every split.
  They are proved to decide the declarative relation \<open>wild\<close>.
\<close>

section \<open>The code\<close>

text \<open>The loop over \<open>expected\<close>, and the loop \<open>while (str[x])\<close> that a star enters.\<close>

function ap_strcmp_match :: "string \<Rightarrow> string \<Rightarrow> int"
  and strcmp_star :: "string \<Rightarrow> string \<Rightarrow> int" where
  "ap_strcmp_match str expected =
     (case expected of
        [] \<Rightarrow> (if str \<noteq> [] then 1 else 0)
      | e # es \<Rightarrow>
          if str = [] \<and> e \<noteq> CHR ''*'' then -1
          else if e = CHR ''*'' then
            (let es' = dropWhile (\<lambda>c. c = CHR ''*'') es
             in if es' = [] then 0 else strcmp_star str es')
          else if e \<noteq> CHR ''?'' \<and> hd str \<noteq> e then 1
          else ap_strcmp_match (tl str) es)"
| "strcmp_star str es =
     (case str of
        [] \<Rightarrow> -1
      | c # cs \<Rightarrow>
          (let ret = ap_strcmp_match str es in if ret \<noteq> 1 then ret else strcmp_star cs es))"
  by pat_completeness auto
termination
  by (relation "measures [\<lambda>x. case x of Inl (s, e) \<Rightarrow> length e | Inr (s, e) \<Rightarrow> length e,
                          \<lambda>x. case x of Inl (s, e) \<Rightarrow> 0 | Inr (s, e) \<Rightarrow> Suc (length s)]")
     (auto simp: length_dropWhile_le le_imp_less_Suc)

function ap_strcasecmp_match :: "string \<Rightarrow> string \<Rightarrow> int"
  and strcasecmp_star :: "string \<Rightarrow> string \<Rightarrow> int" where
  "ap_strcasecmp_match str expected =
     (case expected of
        [] \<Rightarrow> (if str \<noteq> [] then 1 else 0)
      | e # es \<Rightarrow>
          if str = [] \<and> e \<noteq> CHR ''*'' then -1
          else if e = CHR ''*'' then
            (let es' = dropWhile (\<lambda>c. c = CHR ''*'') es
             in if es' = [] then 0 else strcasecmp_star str es')
          else if e \<noteq> CHR ''?'' \<and> c_tolower (hd str) \<noteq> c_tolower e then 1
          else ap_strcasecmp_match (tl str) es)"
| "strcasecmp_star str es =
     (case str of
        [] \<Rightarrow> -1
      | c # cs \<Rightarrow>
          (let ret = ap_strcasecmp_match str es in if ret \<noteq> 1 then ret else strcasecmp_star cs es))"
  by pat_completeness auto
termination
  by (relation "measures [\<lambda>x. case x of Inl (s, e) \<Rightarrow> length e | Inr (s, e) \<Rightarrow> length e,
                          \<lambda>x. case x of Inl (s, e) \<Rightarrow> 0 | Inr (s, e) \<Rightarrow> Suc (length s)]")
     (auto simp: length_dropWhile_le le_imp_less_Suc)

declare ap_strcmp_match.simps [simp del] strcmp_star.simps [simp del]
declare ap_strcasecmp_match.simps [simp del] strcasecmp_star.simps [simp del]

fun ap_is_matchexp :: "string \<Rightarrow> bool" where
  "ap_is_matchexp [] = False"
| "ap_is_matchexp (c # s) = (if c = CHR ''*'' \<or> c = CHR ''?'' then True else ap_is_matchexp s)"

section \<open>What a wildcard pattern means\<close>

inductive wild :: "(char \<Rightarrow> char \<Rightarrow> bool) \<Rightarrow> string \<Rightarrow> string \<Rightarrow> bool" for eq where
  wild_Nil: "wild eq [] []"
| wild_star_skip: "wild eq s p \<Longrightarrow> wild eq s (CHR ''*'' # p)"
| wild_star_eat: "wild eq s (CHR ''*'' # p) \<Longrightarrow> wild eq (c # s) (CHR ''*'' # p)"
| wild_any: "wild eq s p \<Longrightarrow> wild eq (c # s) (CHR ''?'' # p)"
| wild_lit: "e \<noteq> CHR ''*'' \<Longrightarrow> e \<noteq> CHR ''?'' \<Longrightarrow> eq c e \<Longrightarrow> wild eq s p \<Longrightarrow> wild eq (c # s) (e # p)"

inductive_simps wild_Nil_pat [simp]: "wild eq s []"
inductive_simps wild_Nil_str: "wild eq [] (e # p)"
inductive_simps wild_Cons: "wild eq (c # s) (e # p)"
inductive_simps wild_any_iff: "wild eq s (CHR ''?'' # p)"

lemma wild_star_Nil [simp]: "wild eq [] (CHR ''*'' # p) \<longleftrightarrow> wild eq [] p"
  by (simp add: wild_Nil_str)

lemma wild_star_Cons:
  "wild eq (c # s) (CHR ''*'' # p) \<longleftrightarrow> wild eq (c # s) p \<or> wild eq s (CHR ''*'' # p)"
  by (auto simp: wild_Cons)

lemma wild_star_suffix: "wild eq s (CHR ''*'' # p) \<longleftrightarrow> (\<exists>t. suffix t s \<and> wild eq t p)"
proof (induction s)
  case Nil
  then show ?case by simp
next
  case (Cons c s)
  then show ?case by (auto simp: wild_star_Cons suffix_Cons)
qed

lemma wild_stars: "wild eq s (CHR ''*'' # p) \<longleftrightarrow> wild eq s (CHR ''*'' # dropWhile (\<lambda>c. c = CHR ''*'') p)"
proof (induction p)
  case Nil
  then show ?case by simp
next
  case (Cons e p)
  have "wild eq s (CHR ''*'' # CHR ''*'' # p) \<longleftrightarrow> wild eq s (CHR ''*'' # p)"
    by (auto simp: wild_star_suffix intro: suffix_order.trans)
  with Cons show ?case by simp
qed

lemma wild_needs_char: "e \<noteq> CHR ''*'' \<Longrightarrow> \<not> wild eq [] (e # p)"
  by (simp add: wild_Nil_str)

section \<open>The two matchers decide it\<close>

text \<open>
  The contract both matchers satisfy: their recursion equations over a character comparison
  \<open>eq\<close>. Everything about the three return values is proved from it once.
\<close>

locale wildcard_matcher =
  fixes eq :: "char \<Rightarrow> char \<Rightarrow> bool"
    and m :: "string \<Rightarrow> string \<Rightarrow> int"
    and star :: "string \<Rightarrow> string \<Rightarrow> int"
  assumes m_eq: "m str expected =
     (case expected of
        [] \<Rightarrow> (if str \<noteq> [] then 1 else 0)
      | e # es \<Rightarrow>
          if str = [] \<and> e \<noteq> CHR ''*'' then -1
          else if e = CHR ''*'' then
            (let es' = dropWhile (\<lambda>c. c = CHR ''*'') es
             in if es' = [] then 0 else star str es')
          else if e \<noteq> CHR ''?'' \<and> \<not> eq (hd str) e then 1
          else m (tl str) es)"
    and star_eq: "star str es =
     (case str of
        [] \<Rightarrow> -1
      | c # cs \<Rightarrow> (let ret = m str es in if ret \<noteq> 1 then ret else star cs es))"
begin

text \<open>
  What a return value promises. The abort value says more than a mismatch: no suffix of the
  string matches either, which is why the star loop may stop at it.
\<close>

definition sound :: "int \<Rightarrow> string \<Rightarrow> string \<Rightarrow> bool" where
  "sound r s p \<longleftrightarrow>
     (r = 0 \<and> wild eq s p) \<or> (r = 1 \<and> \<not> wild eq s p) \<or>
     (r = -1 \<and> (\<forall>t. suffix t s \<longrightarrow> \<not> wild eq t p))"

lemma sound_star:
  assumes p: "p = e # es" "e \<noteq> CHR ''*''" and IH: "\<And>s. sound (m s p) s p"
  shows "sound (star s p) s (CHR ''*'' # p)"
proof (induction s)
  case Nil
  show ?case using p by (simp add: star_eq [of "[]"] sound_def wild_needs_char)
next
  case (Cons c s)
  show ?case
  proof (cases "m (c # s) p = 1")
    case True
    then have no: "\<not> wild eq (c # s) p" using IH [of "c # s"] by (auto simp: sound_def)
    with Cons True show ?thesis
      by (auto simp: star_eq [of "c # s"] sound_def wild_star_Cons suffix_Cons)
  next
    case False
    then have "star (c # s) p = m (c # s) p" by (simp add: star_eq [of "c # s"] Let_def)
    moreover have "(m (c # s) p = 0 \<and> wild eq (c # s) p) \<or>
        (m (c # s) p = -1 \<and> (\<forall>t. suffix t (c # s) \<longrightarrow> \<not> wild eq t p))"
      using IH [of "c # s"] False by (auto simp: sound_def)
    ultimately show ?thesis
      by (auto simp: sound_def wild_star_suffix intro: suffix_order.trans)
  qed
qed

lemma sound_step:
  assumes "e \<noteq> CHR ''*''" and "s = c # cs" and "sound (m cs es) cs es"
  shows "sound (m s (e # es)) s (e # es)"
proof (cases "e \<noteq> CHR ''?'' \<and> \<not> eq c e")
  case True
  with assms show ?thesis
    by (simp add: m_eq [of _ "e # es"] sound_def wild_Cons)
next
  case False
  then have "m s (e # es) = m cs es" using assms by (auto simp: m_eq [of _ "e # es"])
  moreover have "wild eq s (e # es) \<longleftrightarrow> wild eq cs es"
    using assms False by (auto simp: wild_Cons)
  moreover have "\<not> wild eq t (e # es)" if "\<forall>t. suffix t cs \<longrightarrow> \<not> wild eq t es" "suffix t s" for t
    using that assms by (cases t) (auto simp: wild_needs_char wild_Cons dest: suffix_tl_Cons)
  ultimately show ?thesis using assms(3) by (auto simp: sound_def)
qed

lemma sound_m: "sound (m s p) s p"
proof (induction p arbitrary: s rule: length_induct)
  case (1 p)
  show ?case
  proof (cases p)
    case Nil
    then show ?thesis by (simp add: m_eq [of s] sound_def)
  next
    case (Cons e es)
    let ?es = "dropWhile (\<lambda>c. c = CHR ''*'') es"
    consider (star) "e = CHR ''*''" | (empty) "e \<noteq> CHR ''*''" "s = []"
      | (step) c cs where "e \<noteq> CHR ''*''" "s = c # cs"
      by (cases s) auto
    then show ?thesis
    proof cases
      case star
      show ?thesis
      proof (cases ?es)
        case Nil
        have "wild eq s [CHR ''*'']" by (simp add: wild_star_suffix)
        then have "wild eq s p" by (simp only: star Cons wild_stars [of eq s es] Nil)
        moreover have "m s p = 0" using star Cons Nil by (simp add: m_eq [of s])
        ultimately show ?thesis by (simp add: sound_def)
      next
        case (Cons f fs)
        have "sound (star s ?es) s (CHR ''*'' # ?es)"
        proof (rule sound_star [OF Cons])
          show "f \<noteq> CHR ''*''" using Cons by (rule dropWhile_hd)
          have "length ?es < length p"
            using \<open>p = e # es\<close> by (simp add: length_dropWhile_le le_imp_less_Suc)
          then show "sound (m t ?es) t ?es" for t using "1" by blast
        qed
        moreover have "m s p = star s ?es"
          using star \<open>p = e # es\<close> Cons by (simp add: m_eq [of s] Let_def del: dropWhile_eq_Nil_conv)
        ultimately show ?thesis
          by (simp only: star \<open>p = e # es\<close> sound_def wild_stars [of eq _ es])
      qed
    next
      case empty
      then show ?thesis using Cons by (simp add: m_eq [of "[]"] sound_def wild_needs_char)
    next
      case step
      have "sound (m cs es) cs es" using "1" Cons by simp
      then show ?thesis using sound_step step Cons by simp
    qed
  qed
qed

lemma decides: "m s p = 0 \<longleftrightarrow> wild eq s p"
  using sound_m [of s p] by (auto simp: sound_def)

lemma range: "m s p \<in> {-1, 0, 1}"
  using sound_m [of s p] by (auto simp: sound_def)

lemma abort: "m s p = -1 \<Longrightarrow> suffix t s \<Longrightarrow> m t p \<noteq> 0"
  using sound_m [of s p] decides by (auto simp: sound_def)

end

interpretation strcmp: wildcard_matcher "(=)" ap_strcmp_match strcmp_star
  by unfold_locales (simp_all add: ap_strcmp_match.simps strcmp_star.simps)

interpretation strcasecmp: wildcard_matcher "\<lambda>c e. c_tolower c = c_tolower e"
    ap_strcasecmp_match strcasecmp_star
  by unfold_locales (simp_all add: ap_strcasecmp_match.simps strcasecmp_star.simps)

text \<open>Without a wildcard the pattern matches itself only.\<close>

lemma wild_literal: "\<not> ap_is_matchexp p \<Longrightarrow> wild eq s p \<longleftrightarrow> list_all2 eq s p"
proof (induction p arbitrary: s)
  case Nil
  then show ?case by simp
next
  case (Cons e p)
  then show ?case
    by (cases s) (auto simp: wild_Cons wild_needs_char split: if_splits)
qed

section \<open>Properties\<close>

text \<open>
  C22: \<open>ap_strcmp_match\<close> always returns one of 0, 1 and -1; it returns 0 exactly when the string
  matches the pattern (a star stands for any run of characters, a question mark for any one);
  and when it aborts with -1, no suffix of the string matches either, so that the enclosing star
  loop loses no match by stopping.
\<close>

theorem ap_strcmp_match_correct:
  "ap_strcmp_match str expected \<in> {-1, 0, 1} \<and>
   (ap_strcmp_match str expected = 0 \<longleftrightarrow> wild (=) str expected) \<and>
   (ap_strcmp_match str expected = -1 \<longrightarrow> (\<forall>t. suffix t str \<longrightarrow> ap_strcmp_match t expected \<noteq> 0))"
  using strcmp.range strcmp.decides strcmp.abort by blast

theorem ap_strcmp_match_correct_witness:
  "ap_strcmp_match ''www.example.com'' ''*.example.*'' = 0 \<and> wild (=) ''www.example.com'' ''*.example.*'' \<and>
   ap_strcmp_match ''a'' ''*b?'' = -1 \<and> ap_strcmp_match [] ''*b?'' \<noteq> 0"
proof -
  have a: "ap_strcmp_match ''www.example.com'' ''*.example.*'' = 0" by code_simp
  have b: "ap_strcmp_match ''a'' ''*b?'' = -1" by code_simp
  show ?thesis
    using a b ap_strcmp_match_correct [of "''www.example.com''" "''*.example.*''"]
      ap_strcmp_match_correct [of "''a''" "''*b?''"] by simp
qed

text \<open>
  \<open>ap_strcasecmp_match\<close> is \<open>ap_strcmp_match\<close> up to case: it returns 0 exactly when the string
  matches with letters compared without case, which holds whenever \<open>ap_strcmp_match\<close> matches, and
  a pattern that \<open>ap_is_matchexp\<close> finds free of wildcards is matched by the strings that
  \<open>strcasecmp\<close> finds equal to it only.
\<close>

theorem ap_strcasecmp_match_correct:
  "(ap_strcasecmp_match str expected = 0 \<longleftrightarrow> wild (\<lambda>c e. c_tolower c = c_tolower e) str expected) \<and>
   (ap_strcmp_match str expected = 0 \<longrightarrow> ap_strcasecmp_match str expected = 0) \<and>
   (\<not> ap_is_matchexp expected \<longrightarrow> (ap_strcasecmp_match str expected = 0 \<longleftrightarrow> strcaseeq str expected))"
proof -
  let ?ceq = "\<lambda>c e. c_tolower c = c_tolower e"
  have "wild (=) str expected \<Longrightarrow> wild ?ceq str expected"
    by (induction rule: wild.induct) (auto intro: wild.intros)
  moreover have "list_all2 ?ceq str expected \<longleftrightarrow> strcaseeq str expected"
    by (auto simp: strcaseeq_def str_lower_def list_all2_conv_all_nth list_eq_iff_nth_eq)
  ultimately show ?thesis
    by (simp add: strcmp.decides strcasecmp.decides wild_literal)
qed

theorem ap_strcasecmp_match_correct_witness:
  "ap_strcasecmp_match ''Foo'' ''f?o'' = 0 \<and> ap_strcmp_match ''foo'' ''f?o'' = 0 \<and>
   ap_strcasecmp_match ''foo'' ''f?o'' = 0 \<and> \<not> ap_is_matchexp ''FOO'' \<and> strcaseeq ''foo'' ''FOO''"
proof -
  have a: "ap_strcmp_match ''foo'' ''f?o'' = 0" by code_simp
  have b: "\<not> ap_is_matchexp ''FOO''" by code_simp
  have c: "ap_strcasecmp_match ''foo'' ''FOO'' = 0" by code_simp
  have d: "ap_strcasecmp_match ''Foo'' ''f?o'' = 0" by code_simp
  show ?thesis
    using a b c d ap_strcasecmp_match_correct [of "''foo''" "''f?o''"]
      ap_strcasecmp_match_correct [of "''foo''" "''FOO''"] by blast
qed

end
