(* ===== verification/Test_Char.thy ===== *)
theory Test_Char
  imports Prelude
begin

unbundle bit_operations_syntax

text \<open>
  \<^verbatim>\<open>server/gen_test_char.c\<close>, the build-time program that prints the table
  \<open>test_char_table[256]\<close> of \<open>unsigned short\<close> flags, and the macro \<open>TEST_CHAR\<close> of
  \<^verbatim>\<open>server/util.c\<close> that reads it. The branch without \<open>NEED_ENHANCED_ESCAPES\<close> (every platform but
  Windows and OS/2) is modelled. The C library's \<open>strchr\<close> finds the terminating NUL when it is
  asked for NUL, which decides the flags of byte 0.
\<close>

type_synonym ushort = "16 word"

definition T_ESCAPE_SHELL_CMD :: ushort where "T_ESCAPE_SHELL_CMD = 0x01"
definition T_ESCAPE_PATH_SEGMENT :: ushort where "T_ESCAPE_PATH_SEGMENT = 0x02"
definition T_OS_ESCAPE_PATH :: ushort where "T_OS_ESCAPE_PATH = 0x04"
definition T_HTTP_TOKEN_STOP :: ushort where "T_HTTP_TOKEN_STOP = 0x08"
definition T_ESCAPE_LOGITEM :: ushort where "T_ESCAPE_LOGITEM = 0x10"
definition T_ESCAPE_FORENSIC :: ushort where "T_ESCAPE_FORENSIC = 0x20"
definition T_ESCAPE_URLENCODED :: ushort where "T_ESCAPE_URLENCODED = 0x40"
definition T_HTTP_CTRLS :: ushort where "T_HTTP_CTRLS = 0x80"
definition T_VCHAR_OBSTEXT :: ushort where "T_VCHAR_OBSTEXT = 0x100"

lemmas T_flags = T_ESCAPE_SHELL_CMD_def T_ESCAPE_PATH_SEGMENT_def T_OS_ESCAPE_PATH_def
  T_HTTP_TOKEN_STOP_def T_ESCAPE_LOGITEM_def T_ESCAPE_FORENSIC_def T_ESCAPE_URLENCODED_def
  T_HTTP_CTRLS_def T_VCHAR_OBSTEXT_def

text \<open>The string literals of the program; \<open>CHR 0x22\<close> is the double quote.\<close>

definition shell_chars :: string where
  "shell_chars = ''&;`'' @ [CHR 0x27, CHR 0x22] @ ''|*?~<>^()[]{}$'' @ [CHR 0x5C, CHR 0x0A]"

definition path_segment_chars :: string where
  "path_segment_chars = ''$-_.+!*'' @ [CHR 0x27] @ ''(),:@&=~''"

definition os_path_chars :: string where
  "os_path_chars = ''$-_.+!*'' @ [CHR 0x27] @ ''(),:;@&=/~''"

definition urlencoded_chars :: string where
  "urlencoded_chars = ''.-*_ ''"

definition token_chars :: string where
  "token_chars = ''!#$%&'' @ [CHR 0x27] @ ''*+-.^_`|~''"

lemmas char_tables = shell_chars_def path_segment_chars_def os_path_chars_def
  urlencoded_chars_def token_chars_def

text \<open>The body of the loop over \<open>c\<close>: the flags of one byte, in the order the program sets them.\<close>

definition flag_if :: "bool \<Rightarrow> ushort \<Rightarrow> ushort \<Rightarrow> ushort" where
  "flag_if b f flags = (if b then flags OR f else flags)"

definition test_char_flags :: "char \<Rightarrow> ushort" where
  "test_char_flags c =
     (let flags = 0;
          flags = flag_if (c \<noteq> NUL \<and> has_chr shell_chars c) T_ESCAPE_SHELL_CMD flags;
          flags = flag_if (\<not> c_isalnum c \<and> \<not> has_chr path_segment_chars c) T_ESCAPE_PATH_SEGMENT flags;
          flags = flag_if (\<not> c_isalnum c \<and> \<not> has_chr os_path_chars c) T_OS_ESCAPE_PATH flags;
          flags = flag_if (\<not> c_isalnum c \<and> \<not> has_chr urlencoded_chars c) T_ESCAPE_URLENCODED flags;
          flags = flag_if (c = NUL \<or> \<not> (c_isalnum c \<or> has_chr token_chars c)) T_HTTP_TOKEN_STOP flags;
          flags = flag_if (c = NUL \<or> (c_iscntrl c \<and> c \<noteq> CHR 0x09)) T_HTTP_CTRLS flags;
          flags = flag_if (c \<noteq> NUL \<and> \<not> c_iscntrl c \<and> c \<noteq> CHR '' '') T_VCHAR_OBSTEXT flags;
          flags = flag_if (c \<noteq> NUL \<and> (\<not> c_isprint c \<or> c = CHR 0x22 \<or> c = CHR 0x5C \<or> c_iscntrl c))
                    T_ESCAPE_LOGITEM flags;
          flags = flag_if (\<not> c_isprint c \<or> c = CHR '':'' \<or> c = CHR ''|'' \<or> c = CHR ''%''
                    \<or> c_iscntrl c \<or> c = NUL) T_ESCAPE_FORENSIC flags
      in flags)"

text \<open>
  The printed table and its use: \<open>TEST_CHAR(c, f)\<close> is the bitwise and of the entry of the unsigned
  byte with the flag.
\<close>

definition test_char_table :: "ushort list" where
  "test_char_table = map (\<lambda>c. test_char_flags (char_of (c :: nat))) [0..<256]"

definition TEST_CHAR :: "char \<Rightarrow> ushort \<Rightarrow> bool" where
  "TEST_CHAR c f \<longleftrightarrow> (test_char_table ! ord c) AND f \<noteq> 0"

lemma test_char_table_nth: "test_char_table ! ord c = test_char_flags c"
  using ord_bound [of c] by (simp add: test_char_table_def)

lemma TEST_CHAR_flags: "TEST_CHAR c f \<longleftrightarrow> test_char_flags c AND f \<noteq> 0"
  by (simp add: TEST_CHAR_def test_char_table_nth)

lemma bit_flag_if: "bit (flag_if b f flags) k \<longleftrightarrow> bit flags k \<or> b \<and> bit f k"
  by (auto simp: flag_if_def bit_or_iff)

lemma TEST_CHAR_bit: "f = 2 ^ k \<Longrightarrow> TEST_CHAR c f \<longleftrightarrow> bit (test_char_flags c) k"
  by (simp add: TEST_CHAR_flags and_exp_eq_0_iff_not_bit)

lemma bit_flag: "j < 16 \<Longrightarrow> f = (2 ^ j :: ushort) \<Longrightarrow> bit f k \<longleftrightarrow> k = j"
  by (auto simp: bit_exp_iff)

lemma bit_T_flags:
  "bit T_ESCAPE_SHELL_CMD k \<longleftrightarrow> k = 0" "bit T_ESCAPE_PATH_SEGMENT k \<longleftrightarrow> k = 1"
  "bit T_OS_ESCAPE_PATH k \<longleftrightarrow> k = 2" "bit T_HTTP_TOKEN_STOP k \<longleftrightarrow> k = 3"
  "bit T_ESCAPE_LOGITEM k \<longleftrightarrow> k = 4" "bit T_ESCAPE_FORENSIC k \<longleftrightarrow> k = 5"
  "bit T_ESCAPE_URLENCODED k \<longleftrightarrow> k = 6" "bit T_HTTP_CTRLS k \<longleftrightarrow> k = 7"
  "bit T_VCHAR_OBSTEXT k \<longleftrightarrow> k = 8"
  by (rule bit_flag; simp add: T_flags)+

text \<open>Each flag is a bit of its own, so a test of one flag sees its own condition only.\<close>

lemma TEST_CHAR_simps:
  "TEST_CHAR c T_ESCAPE_SHELL_CMD \<longleftrightarrow> c \<noteq> NUL \<and> has_chr shell_chars c"
  "TEST_CHAR c T_ESCAPE_PATH_SEGMENT \<longleftrightarrow> \<not> c_isalnum c \<and> \<not> has_chr path_segment_chars c"
  "TEST_CHAR c T_OS_ESCAPE_PATH \<longleftrightarrow> \<not> c_isalnum c \<and> \<not> has_chr os_path_chars c"
  "TEST_CHAR c T_ESCAPE_URLENCODED \<longleftrightarrow> \<not> c_isalnum c \<and> \<not> has_chr urlencoded_chars c"
  "TEST_CHAR c T_HTTP_TOKEN_STOP \<longleftrightarrow> c = NUL \<or> \<not> (c_isalnum c \<or> has_chr token_chars c)"
  "TEST_CHAR c T_HTTP_CTRLS \<longleftrightarrow> c = NUL \<or> (c_iscntrl c \<and> c \<noteq> CHR 0x09)"
  "TEST_CHAR c T_VCHAR_OBSTEXT \<longleftrightarrow> c \<noteq> NUL \<and> \<not> c_iscntrl c \<and> c \<noteq> CHR '' ''"
  "TEST_CHAR c T_ESCAPE_LOGITEM \<longleftrightarrow>
     c \<noteq> NUL \<and> (\<not> c_isprint c \<or> c = CHR 0x22 \<or> c = CHR 0x5C \<or> c_iscntrl c)"
  "TEST_CHAR c T_ESCAPE_FORENSIC \<longleftrightarrow>
     \<not> c_isprint c \<or> c = CHR '':'' \<or> c = CHR ''|'' \<or> c = CHR ''%'' \<or> c_iscntrl c \<or> c = NUL"
  by (subst TEST_CHAR_bit [where k = 0] TEST_CHAR_bit [where k = 1] TEST_CHAR_bit [where k = 2]
        TEST_CHAR_bit [where k = 6] TEST_CHAR_bit [where k = 3] TEST_CHAR_bit [where k = 7]
        TEST_CHAR_bit [where k = 8] TEST_CHAR_bit [where k = 4] TEST_CHAR_bit [where k = 5],
      simp add: T_flags, simp add: test_char_flags_def bit_flag_if bit_T_flags)+

text \<open>Executable form: one condition at a time instead of the whole byte of flags.\<close>

lemma TEST_CHAR_code [code]:
  "TEST_CHAR c f =
    (if f = T_HTTP_TOKEN_STOP then c = NUL \<or> \<not> (c_isalnum c \<or> has_chr token_chars c)
     else if f = T_HTTP_CTRLS then c = NUL \<or> (c_iscntrl c \<and> c \<noteq> CHR 0x09)
     else if f = T_VCHAR_OBSTEXT then c \<noteq> NUL \<and> \<not> c_iscntrl c \<and> c \<noteq> CHR '' ''
     else test_char_flags c AND f \<noteq> 0)"
  using TEST_CHAR_simps(5,6,7) [of c] by (simp add: TEST_CHAR_flags)

end
