(* ===== verification/Escape.thy ===== *)
theory Escape
  imports Test_Char
begin

text \<open>
  The escaping and unescaping routines of \<^verbatim>\<open>server/util.c\<close>: URL escapes (path segment, whole
  path, form encoding) and their decoder \<open>unescape_url\<close>, HTML, shell, quote and log escapes.
  The theorems are round trips, injectivity, what the output cannot contain, and that every
  routine stays inside the buffer it allocates, with \<open>ap_escape_quotes\<close>, whose two passes
  disagree, as the exception.
\<close>

section \<open>URL decoding\<close>

text \<open>\<open>x2c\<close> on one digit; \<open>what[0] & 0xdf\<close> clears the lower-case bit.\<close>

definition x2c_digit :: "char \<Rightarrow> int" where
  "x2c_digit w =
     (if 65 \<le> ord w then and (int (ord w)) 0xdf - 65 + 10 else int (ord w) - 48)"

definition x2c :: "char \<Rightarrow> char \<Rightarrow> char" where
  "x2c what0 what1 =
     (let digit = x2c_digit what0; digit = digit * 16; digit = digit + x2c_digit what1
      in char_of digit)"

text \<open>
  The loop of \<open>unescape_url\<close> from the first percent sign on: the flags \<open>badesc\<close> and \<open>badpath\<close> and the
  bytes written through \<open>x\<close>. The set of forbidden and of reserved characters may be NULL.
\<close>

definition in_set :: "string option \<Rightarrow> char \<Rightarrow> bool" where
  "in_set chars c = (case chars of None \<Rightarrow> False | Some s \<Rightarrow> has_chr s c)"

fun unescape_loop :: "string option \<Rightarrow> string option \<Rightarrow> string \<Rightarrow> bool \<times> bool \<times> string" where
  "unescape_loop forbid reserved [] = (False, False, [])"
| "unescape_loop forbid reserved (c # y) =
     (if c \<noteq> CHR ''%'' then
        (case unescape_loop forbid reserved y of (be, bp, x) \<Rightarrow> (be, bp, c # x))
      else if \<not> c_isxdigit (at y 0) \<or> \<not> c_isxdigit (at y 1) then
        (case unescape_loop forbid reserved y of (be, bp, x) \<Rightarrow> (True, bp, CHR ''%'' # x))
      else
        (let decoded = x2c (at y 0) (at y 1);
             rest = unescape_loop forbid reserved (drop 2 y)
         in if decoded = NUL \<or> in_set forbid decoded then
              (case rest of (be, bp, x) \<Rightarrow> (be, True, decoded # x))
            else if in_set reserved decoded then
              (case rest of (be, bp, x) \<Rightarrow> (be, bp, [CHR ''%'', at y 0, at y 1] @ x))
            else (case rest of (be, bp, x) \<Rightarrow> (be, bp, decoded # x))))"

definition unescape_url :: "string \<Rightarrow> string option \<Rightarrow> string option \<Rightarrow> int \<times> string" where
  "unescape_url url forbid reserved =
     (case c_strchr url (CHR ''%'') of
        None \<Rightarrow> (OK, url)
      | Some i \<Rightarrow>
          (case unescape_loop forbid reserved (drop i url) of (badesc, badpath, x) \<Rightarrow>
             (if badesc then HTTP_BAD_REQUEST else if badpath then HTTP_NOT_FOUND else OK,
              take i url @ x)))"

definition SLASHES :: string where "SLASHES = ''/''"

definition ap_unescape_url :: "string \<Rightarrow> int \<times> string" where
  "ap_unescape_url url = unescape_url url (Some SLASHES) None"

definition ap_unescape_url_keep2f :: "string \<Rightarrow> bool \<Rightarrow> int \<times> string" where
  "ap_unescape_url_keep2f url decode_slashes =
     (if decode_slashes then unescape_url url None None else unescape_url url None (Some SLASHES))"

definition ap_unescape_urlencoded :: "string \<Rightarrow> int \<times> string" where
  "ap_unescape_urlencoded query =
     unescape_url (map (\<lambda>c. if c = CHR ''+'' then CHR '' '' else c) query) None None"

definition ap_unescape_all :: "string \<Rightarrow> int \<times> string" where
  "ap_unescape_all url = unescape_url url None None"

section \<open>URL encoding\<close>

definition c2x_table :: string where
  "c2x_table = ''0123456789abcdef''"

definition c2x :: "nat \<Rightarrow> char \<Rightarrow> string" where
  "c2x what pre = [pre, c2x_table ! (drop_bit 4 what), c2x_table ! (and what 0xf)]"

text \<open>The body of the two path loops: one byte, escaped when the table has the flag for it.\<close>

definition url_enc :: "ushort \<Rightarrow> char \<Rightarrow> string" where
  "url_enc f c = (if TEST_CHAR c f then c2x (ord c) (CHR ''%'') else [c])"

fun ap_escape_path_segment_buffer :: "string \<Rightarrow> string" where
  "ap_escape_path_segment_buffer [] = []"
| "ap_escape_path_segment_buffer (c # s) =
     url_enc T_ESCAPE_PATH_SEGMENT c @ ap_escape_path_segment_buffer s"

fun os_escape_loop :: "string \<Rightarrow> string" where
  "os_escape_loop [] = []"
| "os_escape_loop (c # s) = url_enc T_OS_ESCAPE_PATH c @ os_escape_loop s"

definition ap_os_escape_path :: "string \<Rightarrow> bool \<Rightarrow> string" where
  "ap_os_escape_path path partial =
     (let pre = (if \<not> partial then
                   (case c_strchr path (CHR '':'') of
                      None \<Rightarrow> []
                    | Some colon \<Rightarrow>
                        (case c_strchr path (CHR ''/'') of
                           None \<Rightarrow> ''./''
                         | Some slash \<Rightarrow> if colon < slash then ''./'' else []))
                 else [])
      in pre @ os_escape_loop path)"

fun ap_escape_urlencoded_buffer :: "string \<Rightarrow> string" where
  "ap_escape_urlencoded_buffer [] = []"
| "ap_escape_urlencoded_buffer (c # s) =
     (if TEST_CHAR c T_ESCAPE_URLENCODED then c2x (ord c) (CHR ''%'')
      else if c = CHR '' '' then ''+'' else [c])
     @ ap_escape_urlencoded_buffer s"

section \<open>HTML, shell, log and quote escapes\<close>

text \<open>The first pass of \<open>ap_escape_html2\<close> counts the extra bytes, the second writes.\<close>

fun html_extra :: "string \<Rightarrow> bool \<Rightarrow> nat" where
  "html_extra [] toasc = 0"
| "html_extra (c # s) toasc =
     (if c = CHR ''<'' \<or> c = CHR ''>'' then 3
      else if c = CHR ''&'' then 4
      else if c = CHR 0x22 then 5
      else if toasc \<and> \<not> c_isascii c then 5 else 0) + html_extra s toasc"

definition dec3 :: "nat \<Rightarrow> string" where
  "dec3 n = [char_of (48 + n div 100), char_of (48 + n div 10 mod 10), char_of (48 + n mod 10)]"

definition html_entity :: "bool \<Rightarrow> char \<Rightarrow> string" where
  "html_entity toasc c =
     (if c = CHR ''<'' then ''&lt;''
      else if c = CHR ''>'' then ''&gt;''
      else if c = CHR ''&'' then ''&amp;''
      else if c = CHR 0x22 then ''&quot;''
      else if toasc \<and> \<not> c_isascii c then ''&#'' @ dec3 (ord c) @ '';''
      else [c])"

fun html_write :: "string \<Rightarrow> bool \<Rightarrow> string" where
  "html_write [] toasc = []"
| "html_write (c # s) toasc = html_entity toasc c @ html_write s toasc"

definition ap_escape_html2 :: "string \<Rightarrow> bool \<Rightarrow> string" where
  "ap_escape_html2 s toasc = (if html_extra s toasc = 0 then s else html_write s toasc)"

fun ap_escape_shell_cmd :: "string \<Rightarrow> string" where
  "ap_escape_shell_cmd [] = []"
| "ap_escape_shell_cmd (c # s) =
     (if TEST_CHAR c T_ESCAPE_SHELL_CMD then [CHR 0x5C, c] else [c]) @ ap_escape_shell_cmd s"

text \<open>The switch of \<open>ap_escape_logitem\<close>: what follows the backslash.\<close>

definition logitem_tail :: "char \<Rightarrow> string" where
  "logitem_tail c =
     (if c = CHR 0x08 then ''b''
      else if c = CHR 0x0A then ''n''
      else if c = CHR 0x0D then ''r''
      else if c = CHR 0x09 then ''t''
      else if c = CHR 0x0B then ''v''
      else if c = CHR 0x5C \<or> c = CHR 0x22 then [c]
      else c2x (ord c) (CHR ''x''))"

definition logitem_escapes :: "string \<Rightarrow> nat" where
  "logitem_escapes s = length (filter (\<lambda>c. TEST_CHAR c T_ESCAPE_LOGITEM) s)"

fun logitem_write :: "string \<Rightarrow> string" where
  "logitem_write [] = []"
| "logitem_write (c # s) =
     (if TEST_CHAR c T_ESCAPE_LOGITEM then CHR 0x5C # logitem_tail c else [c]) @ logitem_write s"

definition ap_escape_logitem :: "string option \<Rightarrow> string option" where
  "ap_escape_logitem str =
     (case str of
        None \<Rightarrow> None
      | Some s \<Rightarrow> if logitem_escapes s = 0 then Some s else Some (logitem_write s))"

text \<open>
  \<open>ap_escape_errorlog_item\<close> writes at most \<open>buflen - 1\<close> bytes: \<open>d\<close> is what has been written,
  \<open>ep\<close> how much may be, and an escape that no longer fits stops the loop before it.
\<close>

fun errorlog_loop :: "nat \<Rightarrow> string \<Rightarrow> string \<Rightarrow> string" where
  "errorlog_loop ep d [] = d"
| "errorlog_loop ep d (c # s) =
     (if \<not> length d < ep then d
      else if TEST_CHAR c T_ESCAPE_LOGITEM then
        (if Suc (length d) \<ge> ep then d
         else if c = CHR 0x08 then errorlog_loop ep (d @ [CHR 0x5C, CHR ''b'']) s
         else if c = CHR 0x0A then errorlog_loop ep (d @ [CHR 0x5C, CHR ''n'']) s
         else if c = CHR 0x0D then errorlog_loop ep (d @ [CHR 0x5C, CHR ''r'']) s
         else if c = CHR 0x09 then errorlog_loop ep (d @ [CHR 0x5C, CHR ''t'']) s
         else if c = CHR 0x0B then errorlog_loop ep (d @ [CHR 0x5C, CHR ''v'']) s
         else if c = CHR 0x5C then errorlog_loop ep (d @ [CHR 0x5C, CHR 0x5C]) s
         else if c = CHR 0x22 then errorlog_loop ep (d @ [CHR 0x22]) s
         else if int (Suc (length d)) \<ge> int ep - 2 then d
         else errorlog_loop ep (d @ CHR 0x5C # c2x (ord c) (CHR ''x'')) s)
      else errorlog_loop ep (d @ [c]) s)"

definition ap_escape_errorlog_item :: "string option \<Rightarrow> nat \<Rightarrow> nat \<times> string" where
  "ap_escape_errorlog_item source buflen =
     (case source of
        None \<Rightarrow> (0, [])
      | Some s \<Rightarrow>
          if buflen = 0 then (0, [])
          else let d = errorlog_loop (buflen - 1) [] s in (length d, d))"

fun ap_bin2hex :: "string \<Rightarrow> string" where
  "ap_bin2hex [] = []"
| "ap_bin2hex (c # s) =
     [c2x_table ! (drop_bit 4 (ord c)), c2x_table ! (and (ord c) 0xf)] @ ap_bin2hex s"

text \<open>\<open>ap_escape_quotes\<close>: the size the first pass computes and the bytes the second pass writes.\<close>

fun escape_quotes_newlen :: "string \<Rightarrow> nat" where
  "escape_quotes_newlen [] = 0"
| "escape_quotes_newlen (c # s) =
     1 + (if c = CHR 0x22 then 1 else 0) +
     (if c = CHR 0x5C \<and> s \<noteq> [] then 1 + escape_quotes_newlen (tl s)
      else escape_quotes_newlen s)"

fun escape_quotes_tail :: "string \<Rightarrow> string \<times> string" where
  "escape_quotes_tail inchr =
     (case inchr of
        [] \<Rightarrow> ([], [])
      | c # s \<Rightarrow> (if c = CHR 0x22 then [CHR 0x5C, c] else [c], s))"

function escape_quotes_write :: "string \<Rightarrow> string" where
  "escape_quotes_write [] = []"
| "escape_quotes_write (c # s) =
     (if c = CHR 0x5C \<and> s \<noteq> [] then
        (case escape_quotes_tail (tl s) of (out, rest) \<Rightarrow> [c, hd s] @ out @ escape_quotes_write rest)
      else
        (case escape_quotes_tail (c # s) of (out, rest) \<Rightarrow> out @ escape_quotes_write rest))"
  by pat_completeness auto
termination
  by (relation "measure length") (auto split: list.splits simp: neq_Nil_conv)

text \<open>The output, or the write past the end of the \<open>newlen + 1\<close> bytes that were allocated.\<close>

datatype buffer_overflow = WritePastEnd nat nat

definition ap_escape_quotes :: "string \<Rightarrow> buffer_overflow + string" where
  "ap_escape_quotes instring =
     (let newlen = escape_quotes_newlen instring; out = escape_quotes_write instring
      in if length out + 1 > newlen + 1 then Inl (WritePastEnd (newlen + 1) (length out + 1))
         else Inr out)"

section \<open>Hexadecimal digits\<close>

lemma nibbles: "drop_bit 4 (ord c) < 16" "and (ord c) 15 < 16"
  "16 * drop_bit 4 (ord c) + and (ord c) 15 = ord c"
proof -
  have low: "and (ord c) 15 = ord c mod 16"
    using take_bit_eq_mask [of 4 "ord c"] by (simp add: mask_eq_exp_minus_1 take_bit_eq_mod)
  have "ord c div 16 < 16" by (rule less_mult_imp_div_less) simp
  then show "drop_bit 4 (ord c) < 16" by (simp add: drop_bit_eq_div)
  show "and (ord c) 15 < 16" by (simp add: low)
  show "16 * drop_bit 4 (ord c) + and (ord c) 15 = ord c" by (simp add: low drop_bit_eq_div)
qed

lemma hex_digit:
  assumes "n < 16"
  shows "c_isxdigit (c2x_table ! n)" "x2c_digit (c2x_table ! n) = int n"
    "c_isprint (c2x_table ! n)" "c_isalnum (c2x_table ! n)"
proof -
  have "n \<in> set [0..<16]" using assms by simp
  then consider "n = 0" | "n = 1" | "n = 2" | "n = 3" | "n = 4" | "n = 5" | "n = 6" | "n = 7"
    | "n = 8" | "n = 9" | "n = 10" | "n = 11" | "n = 12" | "n = 13" | "n = 14" | "n = 15"
    by (auto simp: upt_rec)
  then have "c_isxdigit (c2x_table ! n) \<and> x2c_digit (c2x_table ! n) = int n \<and>
    c_isprint (c2x_table ! n) \<and> c_isalnum (c2x_table ! n)"
    by cases (simp_all add: c2x_table_def cclass x2c_digit_def)
  then show "c_isxdigit (c2x_table ! n)" "x2c_digit (c2x_table ! n) = int n"
    "c_isprint (c2x_table ! n)" "c_isalnum (c2x_table ! n)" by simp_all
qed

lemma x2c_c2x_table:
  "x2c (c2x_table ! drop_bit 4 (ord c)) (c2x_table ! and (ord c) 15) = c"
proof -
  have "int (drop_bit 4 (ord c)) * 16 + int (and (ord c) 15) = int (ord c)"
    using arg_cong [OF nibbles(3) [of c], of int] by simp
  then show ?thesis by (simp add: x2c_def hex_digit nibbles Let_def)
qed

lemma c2x_inject:
  assumes "c2x (ord c) p @ s = c2x (ord d) p @ t"
  shows "c = d"
proof -
  have "x2c (c2x_table ! drop_bit 4 (ord c)) (c2x_table ! and (ord c) 15) =
    x2c (c2x_table ! drop_bit 4 (ord d)) (c2x_table ! and (ord d) 15)"
    using assms by (simp add: c2x_def)
  then show ?thesis by (simp only: x2c_c2x_table)
qed

lemma length_c2x [simp]: "length (c2x n p) = 3"
  by (simp add: c2x_def)

lemma c2x_print: "c_isprint p \<Longrightarrow> x \<in> set (c2x (ord c) p) \<Longrightarrow> c_isprint x"
  by (auto simp: c2x_def hex_digit nibbles)
section \<open>Codes\<close>

text \<open>
  What makes an escape reversible: no two bytes have encodings of which one can start like the
  other. Then the encoding of a whole string determines the string.
\<close>

locale escape_code =
  fixes enc :: "char \<Rightarrow> string"
  assumes enc_nonempty: "enc c \<noteq> []"
    and enc_unique: "enc c @ s = enc d @ t \<Longrightarrow> c = d"
begin

lemma encode_inject: "concat (map enc s) = concat (map enc t) \<Longrightarrow> s = t"
proof (induction s arbitrary: t)
  case Nil
  then show ?case using enc_nonempty by (cases t) auto
next
  case (Cons c s)
  then obtain d t' where t: "t = d # t'" using enc_nonempty by (cases t) auto
  with Cons.prems have "c = d" using enc_unique by simp
  with Cons t show ?case by simp
qed

end

lemma url_enc_unique:
  assumes "TEST_CHAR (CHR ''%'') f" "url_enc f c @ s = url_enc f d @ t"
  shows "c = d"
  using assms c2x_inject [of c "CHR ''%''" s d t]
  by (auto simp: url_enc_def c2x_def split: if_splits)

lemma percent_escaped [simp]:
  "TEST_CHAR (CHR ''%'') T_ESCAPE_PATH_SEGMENT" "TEST_CHAR (CHR ''%'') T_OS_ESCAPE_PATH"
  "TEST_CHAR (CHR ''%'') T_ESCAPE_URLENCODED" "TEST_CHAR (CHR ''+'') T_ESCAPE_URLENCODED"
  "\<not> TEST_CHAR (CHR ''/'') T_OS_ESCAPE_PATH" "\<not> TEST_CHAR NUL T_OS_ESCAPE_PATH"
  by (simp_all add: TEST_CHAR_simps has_chr_iff char_tables cclass)

lemma url_enc_nonempty [simp]: "url_enc f c \<noteq> []"
  by (simp add: url_enc_def c2x_def)

interpretation path_segment_code: escape_code "url_enc T_ESCAPE_PATH_SEGMENT"
  by unfold_locales (auto dest: url_enc_unique [rotated])

interpretation os_path_code: escape_code "url_enc T_OS_ESCAPE_PATH"
  by unfold_locales (auto dest: url_enc_unique [rotated])

lemma ap_escape_path_segment_buffer_concat:
  "ap_escape_path_segment_buffer s = concat (map (url_enc T_ESCAPE_PATH_SEGMENT) s)"
  by (induction s) auto

lemma os_escape_loop_concat: "os_escape_loop s = concat (map (url_enc T_OS_ESCAPE_PATH) s)"
  by (induction s) auto

section \<open>Decoding\<close>

lemma unescape_loop_plain:
  "CHR ''%'' \<notin> set p \<Longrightarrow>
   unescape_loop f r (p @ s) = (case unescape_loop f r s of (be, bp, x) \<Rightarrow> (be, bp, p @ x))"
  by (induction p) (auto split: prod.splits)

text \<open>The scan for the first percent sign changes nothing: the loop could run from the start.\<close>

lemma unescape_url_loop:
  "unescape_url url f r =
     (case unescape_loop f r url of (badesc, badpath, x) \<Rightarrow>
        (if badesc then HTTP_BAD_REQUEST else if badpath then HTTP_NOT_FOUND else OK, x))"
proof (cases "CHR ''%'' \<in> set url")
  case True
  let ?p = "takeWhile (\<lambda>x. x \<noteq> CHR ''%'') url"
  have "url = ?p @ drop (length ?p) url"
    by (metis dropWhile_eq_drop takeWhile_dropWhile_id)
  moreover have "CHR ''%'' \<notin> set ?p" by (auto dest: set_takeWhileD)
  ultimately have "unescape_loop f r url =
     (case unescape_loop f r (drop (length ?p) url) of (be, bp, x) \<Rightarrow> (be, bp, ?p @ x))"
    using unescape_loop_plain by metis
  moreover have "take (length ?p) url = ?p" by (metis takeWhile_eq_take)
  ultimately show ?thesis
    using True by (auto simp: unescape_url_def c_strchr_def split: prod.splits)
next
  case False
  then show ?thesis
    using unescape_loop_plain [of url f r "[]"] by (simp add: unescape_url_def c_strchr_def)
qed

lemma unescape_loop_c2x:
  "unescape_loop f r (c2x (ord c) (CHR ''%'') @ s) =
     (case unescape_loop f r s of (be, bp, x) \<Rightarrow>
        if c = NUL \<or> in_set f c then (be, True, c # x)
        else if in_set r c then (be, bp, c2x (ord c) (CHR ''%'') @ x)
        else (be, bp, c # x))"
  by (auto simp: c2x_def hex_digit nibbles x2c_c2x_table Let_def split: prod.splits)

lemma unescape_loop_url_enc:
  assumes "TEST_CHAR (CHR ''%'') g" and "cstring s"
    and "\<forall>c. TEST_CHAR c g \<longrightarrow> \<not> in_set f c \<and> \<not> in_set r c"
  shows "unescape_loop f r (concat (map (url_enc g) s)) = (False, False, s)"
  using assms(2)
proof (induction s)
  case (Cons c s)
  then show ?case
    using assms(1,3) by (cases "TEST_CHAR c g") (auto simp: url_enc_def unescape_loop_c2x)
qed simp

text \<open>An escape never hides a slash: hexadecimal digits are not slashes.\<close>

lemma xdigit_not_slash: "c_isxdigit c \<Longrightarrow> c \<noteq> CHR ''/'' \<and> c \<noteq> NUL"
  by (auto simp: cclass)

lemma two_xdigits:
  assumes "c_isxdigit (at y 0)" "c_isxdigit (at y 1)"
  obtains a b z where "y = a # b # z" "c_isxdigit a" "c_isxdigit b"
proof -
  have "\<not> c_isxdigit NUL" by (simp add: cclass)
  with assms that show thesis
    by (cases y; cases "tl y") (auto simp: at_def split: if_splits)
qed

lemma unescape_loop_decoded:
  assumes "unescape_loop f r s = (False, False, x)" and "cstring s"
  shows "cstring x \<and>
    (in_set f (CHR ''/'') \<or> in_set r (CHR ''/'') \<longrightarrow> count_list x (CHR ''/'') = count_list s (CHR ''/''))"
  using assms
proof (induction f r s arbitrary: x rule: unescape_loop.induct)
  case (2 f r c y)
  show ?case
  proof (cases "c = CHR ''%''")
    case False
    with 2 show ?thesis by (auto split: prod.splits)
  next
    case True
    have x: "c_isxdigit (at y 0)" "c_isxdigit (at y 1)"
      using "2.prems"(1) True by (simp_all split: if_splits prod.splits)
    then obtain a b z where y: "y = a # b # z" and d: "c_isxdigit a" "c_isxdigit b"
      by (rule two_xdigits)
    obtain be bp x' where r: "unescape_loop f r z = (be, bp, x')" by (cases "unescape_loop f r z")
    have flags: "be = False" "bp = False"
      using 2(4) True x y r by (auto simp: Let_def split: if_splits)
    have "cstring x' \<and> (in_set f (CHR ''/'') \<or> in_set r (CHR ''/'') \<longrightarrow>
        count_list x' (CHR ''/'') = count_list z (CHR ''/''))"
      using 2(3) [OF _ _ refl] True x y r flags 2(5) by auto
    then show ?thesis
      using 2(4,5) True x y r d [THEN xdigit_not_slash]
      by (auto simp: Let_def split: if_splits)
  qed
qed simp

lemma unescape_loop_slashes:
  assumes "unescape_loop f r s = (False, False, x)" and "cstring s"
    and "in_set f (CHR ''/'') \<or> in_set r (CHR ''/'')"
  shows "cstring x \<and> count_list x (CHR ''/'') = count_list s (CHR ''/'')"
  using unescape_loop_decoded [OF assms(1,2)] assms(3) by blast

lemma unescape_url_cstring:
  assumes "unescape_url url f r = (OK, x)" and "cstring url"
  shows "cstring x"
  using assms unescape_loop_decoded [of f r url x]
  by (auto simp: unescape_url_loop split: prod.splits if_splits)

section \<open>The other codes\<close>

definition urlencoded_enc :: "char \<Rightarrow> string" where
  "urlencoded_enc c =
     (if TEST_CHAR c T_ESCAPE_URLENCODED then c2x (ord c) (CHR ''%'')
      else if c = CHR '' '' then ''+'' else [c])"

lemma urlencoded_concat: "ap_escape_urlencoded_buffer s = concat (map urlencoded_enc s)"
  by (induction s) (auto simp: urlencoded_enc_def)

lemma not_plus_hex: "n < 16 \<Longrightarrow> c2x_table ! n \<noteq> CHR ''+''"
  using hex_digit(4) [of n] by (auto simp: cclass)

lemma unescape_loop_urlencoded:
  "cstring s \<Longrightarrow>
   unescape_loop None None
     (map (\<lambda>c. if c = CHR ''+'' then CHR '' '' else c) (concat (map urlencoded_enc s)))
   = (False, False, s)"
proof (induction s)
  case (Cons c s)
  have "map (\<lambda>c. if c = CHR ''+'' then CHR '' '' else c) (c2x (ord c) (CHR ''%'')) = c2x (ord c) (CHR ''%'')"
    by (simp add: c2x_def not_plus_hex nibbles)
  with Cons show ?case
    by (auto simp: urlencoded_enc_def unescape_loop_c2x in_set_def)
qed simp

lemma length_url_enc: "length (concat (map (url_enc g) s)) \<le> 3 * length s"
  by (induction s) (auto simp: url_enc_def)

lemma length_urlencoded: "length (concat (map urlencoded_enc s)) \<le> 3 * length s"
  by (induction s) (auto simp: urlencoded_enc_def)

subsection \<open>HTML\<close>

lemma html_write_concat: "html_write s toasc = concat (map (html_entity toasc) s)"
  by (induction s) auto

lemma html_extra_0: "html_extra s toasc = 0 \<Longrightarrow> html_write s toasc = s"
  by (induction s) (auto simp: html_entity_def split: if_splits)

lemma ap_escape_html2_write: "ap_escape_html2 s toasc = html_write s toasc"
  by (simp add: ap_escape_html2_def html_extra_0)

lemma length_html_write: "length (html_write s toasc) = length s + html_extra s toasc"
  by (induction s) (auto simp: html_entity_def dec3_def)

lemma dec3_inject:
  assumes eq: "dec3 m @ s = dec3 n @ t" and "m < 256" "n < 256"
  shows "m = n"
proof -
  let ?v = "\<lambda>k. 100 * (ord (dec3 k ! 0) - 48) + 10 * (ord (dec3 k ! 1) - 48) + (ord (dec3 k ! 2) - 48)"
  have val: "?v k = k"
    if "k < 256" for k
  proof -
    have "k div 100 \<le> 2" using that by simp
    then have "?v k
      = 100 * (k div 100) + 10 * (k div 10 mod 10) + k mod 10" by (simp add: dec3_def)
    also have "k div 100 = k div 10 div 10" by (simp add: div_mult2_eq [symmetric])
    also have "100 * (k div 10 div 10) + 10 * (k div 10 mod 10) + k mod 10 = k"
      using mult_div_mod_eq [of 10 "k div 10"] mult_div_mod_eq [of 10 k] by linarith
    finally show ?thesis .
  qed
  have "dec3 m = dec3 n" using eq by (simp add: dec3_def)
  then have "?v m = ?v n" by (simp only:)
  then show ?thesis by (simp only: val [OF assms(2)] val [OF assms(3)])
qed

lemma html_entity_unique: "html_entity toasc c @ s = html_entity toasc d @ t \<Longrightarrow> c = d"
  using dec3_inject [of "ord c" "CHR '';'' # s" "ord d" "CHR '';'' # t"]
  by (auto simp: html_entity_def split: if_splits)

lemma html_entity_nonempty: "html_entity toasc c \<noteq> []"
  by (simp add: html_entity_def)

interpretation html_code: escape_code "html_entity toasc" for toasc
  by (rule escape_code.intro [OF html_entity_nonempty html_entity_unique])

lemma dec3_ascii: "x \<in> set (dec3 n) \<Longrightarrow> n < 256 \<Longrightarrow> c_isdigit x"
proof -
  assume x: "x \<in> set (dec3 n)" and n: "n < 256"
  have "n div 100 \<le> 2" using n by simp
  then show "c_isdigit x" using x by (auto simp: dec3_def cclass)
qed

lemma html_entity_chars:
  "x \<in> set (html_entity toasc c) \<Longrightarrow>
   x \<noteq> CHR ''<'' \<and> x \<noteq> CHR ''>'' \<and> x \<noteq> CHR 0x22 \<and> (toasc \<longrightarrow> c_isascii x)"
  using dec3_ascii [of x "ord c"]
  by (auto simp: html_entity_def cclass split: if_splits)

subsection \<open>Logs\<close>

definition logitem_enc :: "char \<Rightarrow> string" where
  "logitem_enc c = (if TEST_CHAR c T_ESCAPE_LOGITEM then CHR 0x5C # logitem_tail c else [c])"

lemma logitem_write_concat: "logitem_write s = concat (map logitem_enc s)"
  by (induction s) (auto simp: logitem_enc_def)

lemma logitem_no_escapes: "logitem_escapes s = 0 \<Longrightarrow> logitem_write s = s"
  by (induction s) (auto simp: logitem_escapes_def split: if_splits)

lemma ap_escape_logitem_write: "ap_escape_logitem (Some s) = Some (logitem_write s)"
  by (simp add: ap_escape_logitem_def logitem_no_escapes)

lemma length_logitem_write: "length (logitem_write s) \<le> length s + 3 * logitem_escapes s"
  by (induction s) (auto simp: logitem_escapes_def logitem_tail_def)

lemma logitem_tail_unique:
  "logitem_tail c @ s = logitem_tail d @ t \<Longrightarrow> c = d"
  using c2x_inject [of c "CHR ''x''" s d t]
  by (auto simp: logitem_tail_def c2x_def split: if_splits)

lemma logitem_enc_unique: "logitem_enc c @ s = logitem_enc d @ t \<Longrightarrow> c = d"
  using logitem_tail_unique [of c s d t]
  by (auto simp: logitem_enc_def TEST_CHAR_simps split: if_splits)

lemma logitem_enc_nonempty: "logitem_enc c \<noteq> []"
  by (simp add: logitem_enc_def)

interpretation logitem_code: escape_code logitem_enc
  by (rule escape_code.intro [OF logitem_enc_nonempty logitem_enc_unique])

lemma print_literals [simp]:
  "c_isprint (CHR ''x'')" "c_isprint (CHR ''b'')" "c_isprint (CHR ''n'')" "c_isprint (CHR ''r'')"
  "c_isprint (CHR ''t'')" "c_isprint (CHR ''v'')" "c_isprint (CHR 0x5C)" "c_isprint (CHR 0x22)"
  by (simp_all add: cclass)

lemma logitem_tail_print: "x \<in> set (logitem_tail c) \<Longrightarrow> c_isprint x"
proof -
  have "\<forall>x\<in>set (c2x (ord c) (CHR ''x'')). c_isprint x"
    using c2x_print [of "CHR ''x''"] by simp
  then have "\<forall>x\<in>set (logitem_tail c). c_isprint x" unfolding logitem_tail_def by simp
  then show "x \<in> set (logitem_tail c) \<Longrightarrow> c_isprint x" by blast
qed

lemma logitem_enc_print: "c \<noteq> NUL \<Longrightarrow> x \<in> set (logitem_enc c) \<Longrightarrow> c_isprint x"
  using logitem_tail_print [of x c]
  by (cases "TEST_CHAR c T_ESCAPE_LOGITEM") (auto simp: logitem_enc_def TEST_CHAR_simps)

definition errorlog_enc :: "char \<Rightarrow> string" where
  "errorlog_enc c = (if c = CHR 0x22 then [c] else logitem_enc c)"

lemma errorlog_step:
  assumes "length d \<le> ep"
  shows "errorlog_loop ep d (c # s) = d \<and> ep < length d + 4 \<or>
     errorlog_loop ep d (c # s) = errorlog_loop ep (d @ errorlog_enc c) s \<and>
     length (d @ errorlog_enc c) \<le> ep \<and> length (errorlog_enc c) \<le> 4"
proof (cases "TEST_CHAR c T_ESCAPE_LOGITEM")
  case False
  then have "c \<noteq> CHR 0x22" by (auto simp: TEST_CHAR_simps)
  with False assms show ?thesis by (auto simp: errorlog_enc_def logitem_enc_def)
next
  case True
  then show ?thesis
    using assms by (auto simp: errorlog_enc_def logitem_enc_def logitem_tail_def)
qed

lemma errorlog_loop_prefix:
  "length d \<le> ep \<Longrightarrow>
   \<exists>k \<le> length s. errorlog_loop ep d s = d @ concat (map errorlog_enc (take k s)) \<and>
     length (errorlog_loop ep d s) \<le> ep \<and> (length d + 4 * length s \<le> ep \<longrightarrow> k = length s)"
proof (induction s arbitrary: d)
  case Nil
  then show ?case by simp
next
  case (Cons c s)
  from errorlog_step [OF Cons.prems, of c s] show ?case
  proof
    assume stop: "errorlog_loop ep d (c # s) = d \<and> ep < length d + 4"
    show ?case by (rule exI [of _ 0]) (use stop Cons.prems in simp)
  next
    assume go: "errorlog_loop ep d (c # s) = errorlog_loop ep (d @ errorlog_enc c) s \<and>
      length (d @ errorlog_enc c) \<le> ep \<and> length (errorlog_enc c) \<le> 4"
    with Cons.IH [of "d @ errorlog_enc c"] obtain k where k: "k \<le> length s"
      "errorlog_loop ep (d @ errorlog_enc c) s = (d @ errorlog_enc c) @ concat (map errorlog_enc (take k s))"
      "length (errorlog_loop ep (d @ errorlog_enc c) s) \<le> ep"
      "length (d @ errorlog_enc c) + 4 * length s \<le> ep \<longrightarrow> k = length s" by blast
    show ?case by (rule exI [of _ "Suc k"]) (use go k in auto)
  qed
qed

lemma errorlog_enc_print: "c \<noteq> NUL \<Longrightarrow> x \<in> set (errorlog_enc c) \<Longrightarrow> c_isprint x"
  using logitem_enc_print [of c x] by (auto simp: errorlog_enc_def split: if_splits)

subsection \<open>Shell commands and quotes\<close>

definition shell_enc :: "char \<Rightarrow> string" where
  "shell_enc c = (if TEST_CHAR c T_ESCAPE_SHELL_CMD then [CHR 0x5C, c] else [c])"

lemma shell_concat: "ap_escape_shell_cmd s = concat (map shell_enc s)"
  by (induction s) (auto simp: shell_enc_def)

lemma backslash_shell [simp]: "TEST_CHAR (CHR 0x5C) T_ESCAPE_SHELL_CMD"
  by (simp add: TEST_CHAR_simps has_chr_iff shell_chars_def)

lemma shell_enc_unique: "shell_enc c @ s = shell_enc d @ t \<Longrightarrow> c = d"
  by (auto simp: shell_enc_def split: if_splits)

lemma shell_enc_nonempty: "shell_enc c \<noteq> []"
  by (simp add: shell_enc_def)

interpretation shell_code: escape_code shell_enc
  by (rule escape_code.intro [OF shell_enc_nonempty shell_enc_unique])

text \<open>A shell reads a backslash as "the next byte is literal": nothing special is left bare.\<close>

fun shell_bare :: "string \<Rightarrow> string" where
  "shell_bare [] = []"
| "shell_bare (c # s) = (if c = CHR 0x5C then shell_bare (tl s) else c # shell_bare s)"

lemma shell_bare_escaped: "x \<in> set (shell_bare (concat (map shell_enc s))) \<Longrightarrow> \<not> TEST_CHAR x T_ESCAPE_SHELL_CMD"
  by (induction s) (auto simp: shell_enc_def split: if_splits)

lemma quotes_no_backslash:
  "CHR 0x5C \<notin> set s \<Longrightarrow>
   escape_quotes_write s = concat (map (\<lambda>c. if c = CHR 0x22 then [CHR 0x5C, c] else [c]) s) \<and>
   length (escape_quotes_write s) = escape_quotes_newlen s"
  by (induction s) auto

definition quotes_attack :: "nat \<Rightarrow> string" where
  "quotes_attack n = concat (replicate n [CHR 0x5C, CHR ''a'', CHR 0x5C, CHR 0x22])"

lemma quotes_attack_sizes:
  "escape_quotes_newlen (quotes_attack n) = 4 * n"
  "length (escape_quotes_write (quotes_attack n)) = 5 * n"
  by (induction n) (simp_all add: quotes_attack_def)

section \<open>Properties\<close>





text \<open>
  \<open>ap_escape_html2\<close> writes exactly the bytes its first pass counted, its output contains no
  angle bracket and no double quote (and only ASCII when asked for), and it loses nothing: two
  strings with the same escaped form are equal.
\<close>

theorem ap_escape_html2_safe:
  "length (ap_escape_html2 s toasc) = length s + html_extra s toasc \<and>
   set (ap_escape_html2 s toasc) \<inter> {CHR ''<'', CHR ''>'', CHR 0x22} = {} \<and>
   (toasc \<longrightarrow> (\<forall>x\<in>set (ap_escape_html2 s toasc). c_isascii x)) \<and>
   (ap_escape_html2 s toasc = ap_escape_html2 t toasc \<longrightarrow> s = t)"
proof (intro conjI impI)
  show "length (ap_escape_html2 s toasc) = length s + html_extra s toasc"
    by (simp add: ap_escape_html2_write length_html_write)
  show "set (ap_escape_html2 s toasc) \<inter> {CHR ''<'', CHR ''>'', CHR 0x22} = {}"
    by (auto simp: ap_escape_html2_write html_write_concat dest: html_entity_chars)
  show "\<forall>x\<in>set (ap_escape_html2 s toasc). c_isascii x" if toasc
    using that by (auto simp: ap_escape_html2_write html_write_concat dest: html_entity_chars)
  show "s = t" if "ap_escape_html2 s toasc = ap_escape_html2 t toasc"
    using that html_code.encode_inject by (simp add: ap_escape_html2_write html_write_concat)
qed

theorem ap_escape_html2_safe_witness:
  "ap_escape_html2 [CHR ''<'', CHR 0xE9] True = ''&lt;&#233;'' \<and>
   list_all c_isascii ''&lt;&#233;''"
proof -
  have "ap_escape_html2 [CHR ''<'', CHR 0xE9] True = ''&lt;&#233;''" by code_simp
  then show ?thesis using ap_escape_html2_safe [of "[CHR ''<'', CHR 0xE9]" True]
    by (simp add: list_all_iff)
qed

text \<open>
  What \<open>ap_escape_logitem\<close> puts into a log line is printable ASCII only (no byte of a request
  can start a new line or a terminal escape), it fits the buffer of three extra bytes per escaped
  byte, and the original can be read back from it.
\<close>

theorem ap_escape_logitem_safe:
  assumes "ap_escape_logitem (Some s) = Some out" and "cstring s"
  shows "(\<forall>x\<in>set out. c_isprint x) \<and> length out \<le> length s + 3 * logitem_escapes s \<and>
    (ap_escape_logitem (Some t) = Some out \<longrightarrow> t = s)"
proof -
  have out: "out = concat (map logitem_enc s)"
    using assms(1) by (simp add: ap_escape_logitem_write logitem_write_concat)
  have "\<forall>x\<in>set out. c_isprint x"
    using logitem_enc_print [OF cstring_mem [OF assms(2)]] unfolding out set_concat by force
  moreover have "t = s" if "ap_escape_logitem (Some t) = Some out"
    using that logitem_code.encode_inject [of t s]
    by (simp add: ap_escape_logitem_write logitem_write_concat out)
  ultimately show ?thesis
    using length_logitem_write [of s] by (auto simp: out logitem_write_concat)
qed

theorem ap_escape_logitem_safe_witness:
  "ap_escape_logitem (Some [CHR ''a'', CHR 0x0A]) = Some [CHR ''a'', CHR 0x5C, CHR ''n''] \<and>
   list_all c_isprint [CHR ''a'', CHR 0x5C, CHR ''n'']"
proof -
  have a: "ap_escape_logitem (Some [CHR ''a'', CHR 0x0A]) = Some [CHR ''a'', CHR 0x5C, CHR ''n'']"
    by (simp add: ap_escape_logitem_write TEST_CHAR_simps cclass logitem_tail_def)
  have b: "cstring [CHR ''a'', CHR 0x0A]" by (simp add: cstring_def)
  show ?thesis using a ap_escape_logitem_safe [OF a b, THEN conjunct1]
    unfolding list_all_iff by (rule conjI)
qed

text \<open>
  \<open>ap_escape_errorlog_item\<close> never writes more than \<open>buflen - 1\<close> bytes before the NUL and
  returns their number; what it writes is the escaped form of a prefix of the source, so a
  truncation never cuts an escape sequence in two, and with four bytes of room per source byte
  nothing is truncated; every byte written is printable.
\<close>

theorem ap_escape_errorlog_item_bounds:
  assumes "0 < buflen" and "cstring s"
    and "ap_escape_errorlog_item (Some s) buflen = (n, out)"
  shows "n = length out \<and> n < buflen \<and> (\<forall>x\<in>set out. c_isprint x) \<and>
    (\<exists>k \<le> length s. out = concat (map errorlog_enc (take k s)) \<and>
      (4 * length s < buflen \<longrightarrow> k = length s))"
proof -
  have out: "out = errorlog_loop (buflen - 1) [] s" "n = length out"
    using assms(1,3) by (auto simp: ap_escape_errorlog_item_def Let_def)
  have "\<exists>k \<le> length s. out = concat (map errorlog_enc (take k s)) \<and>
     length out \<le> buflen - 1 \<and> (4 * length s \<le> buflen - 1 \<longrightarrow> k = length s)"
    using errorlog_loop_prefix [of "[]" "buflen - 1" s] by (simp only: out) simp
  then obtain k where k: "k \<le> length s" "out = concat (map errorlog_enc (take k s))"
    "length out \<le> buflen - 1" "4 * length s \<le> buflen - 1 \<longrightarrow> k = length s" by blast
  moreover have "\<forall>x\<in>set out. c_isprint x"
    using errorlog_enc_print [OF cstring_mem [OF assms(2) in_set_takeD]]
    unfolding k(2) set_concat by force
  ultimately show ?thesis using out assms(1) by fastforce
qed

theorem ap_escape_errorlog_item_bounds_witness:
  "ap_escape_errorlog_item (Some [CHR ''a'', CHR 0x07]) 5 = (1, ''a'') \<and> (1::nat) < 5 \<and>
   list_all c_isprint ''a''"
proof -
  have a: "ap_escape_errorlog_item (Some [CHR ''a'', CHR 0x07]) 5 = (1, ''a'')"
    by (simp add: ap_escape_errorlog_item_def TEST_CHAR_simps cclass)
  have b: "cstring [CHR ''a'', CHR 0x07]" by (simp add: cstring_def)
  show ?thesis using a ap_escape_errorlog_item_bounds [OF _ b a] by simp
qed

text \<open>
  C24: \<open>ap_escape_quotes\<close> is safe on strings without a backslash (it puts one before every double
  quote and fills its buffer exactly), but its two passes disagree on a backslash that directly
  follows an escaped pair: the first pass counts it as the start of another pair, the second
  copies it alone. On n repetitions of the four bytes backslash, a, backslash, quote it writes
  5n + 1 bytes into the 4n + 1 it allocated, so the overflow is as long as the sender wants.
\<close>

theorem ap_escape_quotes_overflow:
  "(CHR 0x5C \<notin> set s \<longrightarrow>
      ap_escape_quotes s = Inr (concat (map (\<lambda>c. if c = CHR 0x22 then [CHR 0x5C, c] else [c]) s))) \<and>
   (0 < n \<longrightarrow> ap_escape_quotes (quotes_attack n) = Inl (WritePastEnd (4 * n + 1) (5 * n + 1)))"
proof (intro conjI impI)
  assume "CHR 0x5C \<notin> set s"
  note q = quotes_no_backslash [OF this]
  then have "length (escape_quotes_write s) = escape_quotes_newlen s" by blast
  then show "ap_escape_quotes s = Inr (concat (map (\<lambda>c. if c = CHR 0x22 then [CHR 0x5C, c] else [c]) s))"
    using q by (simp add: ap_escape_quotes_def)
next
  assume "0 < n"
  then show "ap_escape_quotes (quotes_attack n) = Inl (WritePastEnd (4 * n + 1) (5 * n + 1))"
    by (simp add: ap_escape_quotes_def quotes_attack_sizes)
qed

theorem ap_escape_quotes_overflow_witness:
  "ap_escape_quotes [CHR 0x5C, CHR ''a'', CHR 0x5C, CHR 0x22] = Inl (WritePastEnd 5 6) \<and>
   ap_escape_quotes [CHR 0x22] = Inr [CHR 0x5C, CHR 0x22]"
  using ap_escape_quotes_overflow [of "[CHR 0x22]" 1] by (simp add: quotes_attack_def)

text \<open>
  After \<open>ap_escape_shell_cmd\<close> no shell metacharacter is left unescaped (a backslash makes the
  next byte literal), the output fits the two bytes per input byte that are allocated, and two
  commands with the same escaped form are equal.
\<close>

theorem ap_escape_shell_cmd_safe:
  "(\<forall>x\<in>set (shell_bare (ap_escape_shell_cmd s)). \<not> TEST_CHAR x T_ESCAPE_SHELL_CMD) \<and>
   length (ap_escape_shell_cmd s) \<le> 2 * length s \<and>
   (ap_escape_shell_cmd s = ap_escape_shell_cmd t \<longrightarrow> s = t)"
proof -
  have "length (concat (map shell_enc s)) \<le> 2 * length s"
    by (induction s) (auto simp: shell_enc_def)
  then show ?thesis
    using shell_bare_escaped shell_code.encode_inject by (auto simp: shell_concat)
qed

theorem ap_escape_shell_cmd_safe_witness:
  "shell_bare (ap_escape_shell_cmd ''ls;rm'') = ''lsrm'' \<and>
   list_all (\<lambda>x. \<not> TEST_CHAR x T_ESCAPE_SHELL_CMD) ''lsrm''"
proof -
  have e: "shell_bare (ap_escape_shell_cmd ''ls;rm'') = ''lsrm''"
    by (simp add: TEST_CHAR_simps has_chr_iff shell_chars_def)
  have "\<forall>x\<in>set ''lsrm''. \<not> TEST_CHAR x T_ESCAPE_SHELL_CMD"
    using ap_escape_shell_cmd_safe [of "''ls;rm''", THEN conjunct1] unfolding e .
  with e show ?thesis unfolding list_all_iff by (rule conjI)
qed

end
