(* ===== verification/Paths.thy ===== *)
theory Paths
  imports Prelude
begin

text \<open>
  The path functions of \<^verbatim>\<open>server/util.c\<close>: \<open>ap_getparents\<close>, \<open>ap_no2slash\<close>, the directory prefixes
  and the URL test, and \<open>alias_matches\<close> of \<^verbatim>\<open>modules/mappers/mod_alias.c\<close>. \<open>ap_getparents\<close> works in
  place on an array with two indices; here the part of the array before the index is a reversed
  list and the part from the index on is a suffix, so that moving back over a path segment drops
  from the front of the reversed list. The specification works on the list of path segments.
  Slashes are \<open>/\<close> only (the build without \<open>CASE_BLIND_FILESYSTEM\<close> and drive letters).
\<close>

section \<open>Removing dot segments: \<open>ap_getparents\<close>\<close>

definition IS_SLASH :: "char \<Rightarrow> bool" where
  "IS_SLASH c \<longleftrightarrow> c = CHR ''/''"

text \<open>
  Pass a) removes \<open>./\<close> at the beginning of a segment. \<open>prev\<close> is \<open>name[l - 1]\<close>, or \<open>None\<close> for \<open>l = 0\<close>:
  the loop writes at \<open>w \<le> l\<close>, so what it reads has not been written over yet.
\<close>

function getparents_a :: "char option \<Rightarrow> string \<Rightarrow> string" where
  "getparents_a prev [] = []"
| "getparents_a prev (c # cs) =
     (if c = CHR ''.'' \<and> IS_SLASH (peek cs) \<and> (case prev of None \<Rightarrow> True | Some p \<Rightarrow> IS_SLASH p)
      then getparents_a (Some (peek cs)) (tl cs)
      else c # getparents_a (Some c) cs)"
  by pat_completeness auto
termination by (relation "measure (\<lambda>(_, s). length s)") auto

text \<open>Pass b) removes a trailing \<open>.\<close> segment.\<close>

definition getparents_b :: "string \<Rightarrow> string" where
  "getparents_b name =
     (let w = length name
      in if w = 1 \<and> name ! 0 = CHR ''.'' then take (w - 1) name
         else if w > 1 \<and> name ! (w - 1) = CHR ''.'' \<and> IS_SLASH (name ! (w - 2)) then take (w - 1) name
         else name)"

text \<open>
  Moving back from \<open>l - 2\<close> over the previous segment: the loop stops at a slash, which stays, or at
  the beginning of the array.
\<close>

definition back_segment :: "string \<Rightarrow> string" where
  "back_segment before =
     (if length before \<ge> 2 then dropWhile (\<lambda>c. \<not> IS_SLASH c) (tl before) else [])"

text \<open>Pass c) removes \<open>xx/../\<close>, and \<open>../\<close> with nothing before it.\<close>

function getparents_c :: "string \<Rightarrow> string \<Rightarrow> string" where
  "getparents_c before [] = before"
| "getparents_c before (c # cs) =
     (if c = CHR ''.'' \<and> peek cs = CHR ''.'' \<and> IS_SLASH (peek (tl cs)) \<and>
         (before = [] \<or> IS_SLASH (hd before))
      then getparents_c (back_segment before) (tl (tl cs))
      else getparents_c (c # before) cs)"
  by pat_completeness auto
termination by (relation "measure (\<lambda>(_, s). length s)") auto

text \<open>Pass d) removes a trailing \<open>xx/..\<close>; the argument is the reversed array up to \<open>l\<close>.\<close>

definition getparents_d :: "string \<Rightarrow> string" where
  "getparents_d before =
     (if before = ''..'' then []
      else if length before > 2 \<and> before ! 0 = CHR ''.'' \<and> before ! 1 = CHR ''.'' \<and> IS_SLASH (before ! 2)
      then rev (if length before \<ge> 4 then dropWhile (\<lambda>c. \<not> IS_SLASH c) (drop 3 before) else [])
      else rev before)"

definition ap_getparents :: "string \<Rightarrow> string" where
  "ap_getparents name =
     (let first_dot = length (takeWhile (\<lambda>c. c \<noteq> CHR ''.'') name);
          prev = (if first_dot = 0 then None else Some (name ! (first_dot - 1)));
          name1 = getparents_b (take first_dot name @ getparents_a prev (drop first_dot name))
      in getparents_d (getparents_c (rev (take first_dot name1)) (drop first_dot name1)))"

section \<open>Other path functions\<close>

text \<open>\<open>ap_no2slash\<close> without UNC paths.\<close>

function ap_no2slash :: "string \<Rightarrow> string" where
  "ap_no2slash [] = []"
| "ap_no2slash (c # s) =
     c # ap_no2slash (if c = CHR ''/'' then dropWhile (\<lambda>x. x = CHR ''/'') s else s)"
  by pat_completeness auto
termination by (relation "measure length") (auto simp: length_dropWhile_le le_imp_less_Suc)

fun dirstr_prefix_loop :: "nat \<Rightarrow> string \<Rightarrow> string" where
  "dirstr_prefix_loop n [] = ''/''"
| "dirstr_prefix_loop n (c # s) =
     (if c = CHR ''/'' \<and> n - 1 = 0 then ''/''
      else c # dirstr_prefix_loop (if c = CHR ''/'' then n - 1 else n) s)"

definition ap_make_dirstr_prefix :: "string \<Rightarrow> int \<Rightarrow> string" where
  "ap_make_dirstr_prefix s n = (if n < 1 then ''/'' else dirstr_prefix_loop (nat n) s)"

definition ap_make_dirstr_parent :: "string \<Rightarrow> string" where
  "ap_make_dirstr_parent s =
     (case c_strrchr s (CHR ''/'') of None \<Rightarrow> [] | Some last_slash \<Rightarrow> take (last_slash + 1) s)"

fun ap_count_dirs :: "string \<Rightarrow> nat" where
  "ap_count_dirs [] = 0"
| "ap_count_dirs (c # s) = (if c = CHR ''/'' then 1 else 0) + ap_count_dirs s"

text \<open>\<open>ap_make_full_path\<close> with the size of the buffer it allocates.\<close>

definition ap_make_full_path :: "string \<Rightarrow> string \<Rightarrow> nat \<times> string" where
  "ap_make_full_path src1 src2 =
     (length src1 + length src2 + 3,
      if length src1 = 0 then CHR ''/'' # src2
      else src1 @ (if last src1 \<noteq> CHR ''/'' then ''/'' else []) @ src2)"

fun is_url_loop :: "nat \<Rightarrow> string \<Rightarrow> bool" where
  "is_url_loop x [] = False"
| "is_url_loop x (c # u) =
     (if c = CHR '':'' then x \<noteq> 0
      else if \<not> c_isalnum c \<and> c \<noteq> CHR ''+'' \<and> c \<noteq> CHR ''-'' \<and> c \<noteq> CHR ''.'' then False
      else is_url_loop (x + 1) u)"

definition ap_is_url :: "string \<Rightarrow> bool" where
  "ap_is_url u = is_url_loop 0 u"

definition ap_ind :: "string \<Rightarrow> char \<Rightarrow> int" where
  "ap_ind s c = (case c_strchr s c of None \<Rightarrow> -1 | Some p \<Rightarrow> int p)"

definition ap_rind :: "string \<Rightarrow> char \<Rightarrow> int" where
  "ap_rind s c = (case c_strrchr s c of None \<Rightarrow> -1 | Some p \<Rightarrow> int p)"

text \<open>
  The loop of \<open>alias_matches\<close>: the rest of the URI once the alias is used up. The test after it reads
  \<open>aliasp[-1]\<close>, which is in front of the string when the alias is empty: that read is \<open>None\<close>.
\<close>

function alias_loop :: "string \<Rightarrow> string \<Rightarrow> string option" where
  "alias_loop [] urip = Some urip"
| "alias_loop (a # aliasp) urip =
     (if a = CHR ''/'' then
        (if peek urip \<noteq> CHR ''/'' then None
         else alias_loop (dropWhile (\<lambda>c. c = CHR ''/'') aliasp) (dropWhile (\<lambda>c. c = CHR ''/'') (tl urip)))
      else if peek urip \<noteq> a then None
      else alias_loop aliasp (tl urip))"
  by pat_completeness auto
termination by (relation "measure (\<lambda>(a, _). length a)") (auto simp: length_dropWhile_le le_imp_less_Suc)

definition alias_matches :: "string \<Rightarrow> string \<Rightarrow> nat option" where
  "alias_matches uri alias_fakename =
     (case alias_loop alias_fakename uri of
        None \<Rightarrow> Some 0
      | Some urip \<Rightarrow>
          if alias_fakename = [] then None
          else if last alias_fakename \<noteq> CHR ''/'' \<and> peek urip \<noteq> NUL \<and> peek urip \<noteq> CHR ''/'' then Some 0
          else Some (length uri - length urip))"

section \<open>Segments\<close>

fun segments :: "string \<Rightarrow> string list" where
  "segments [] = [[]]"
| "segments (c # s) = (if c = CHR ''/'' then [] # segments s
     else (c # hd (segments s)) # tl (segments s))"

fun join :: "string list \<Rightarrow> string" where
  "join [] = []"
| "join [s] = s"
| "join (s # t # ss) = s @ CHR ''/'' # join (t # ss)"

text \<open>
  What removing dot segments means: a \<open>.\<close> segment names the directory before it and a \<open>..\<close> segment
  takes away the segment before it, if there is one; in the last place both leave the name of a
  directory, which ends in a slash.
\<close>

fun resolve :: "string list \<Rightarrow> string list \<Rightarrow> string list" where
  "resolve st [] = rev st"
| "resolve st [s] = rev (if s = ''.'' then [] # st else if s = ''..'' then [] # tl st else s # st)"
| "resolve st (s # t # ss) =
     resolve (if s = ''.'' then st else if s = ''..'' then tl st else s # st) (t # ss)"

definition no_slash :: "string \<Rightarrow> bool" where
  "no_slash s \<longleftrightarrow> CHR ''/'' \<notin> set s"

lemma segments_not_Nil [simp]: "segments s \<noteq> []"
  by (cases s) auto

lemma segments_no_slash: "x \<in> set (segments s) \<Longrightarrow> no_slash x"
proof (induction s arbitrary: x)
  case (Cons c s)
  then show ?case
    by (cases "segments s") (auto simp: no_slash_def split: if_splits)
qed (simp add: no_slash_def)

lemma join_Cons: "ss \<noteq> [] \<Longrightarrow> join (s # ss) = s @ CHR ''/'' # join ss"
  by (cases ss) auto

lemma join_segments: "join (segments s) = s"
proof (induction s)
  case (Cons c s)
  show ?case
  proof (cases "c = CHR ''/''")
    case False
    have "join ((c # hd (segments s)) # tl (segments s)) = c # join (segments s)"
      by (cases "segments s" rule: join.cases) (auto simp: join_Cons)
    then show ?thesis using False Cons.IH by simp
  qed (use Cons.IH in \<open>simp add: join_Cons\<close>)
qed simp

lemma segments_append: "no_slash s \<Longrightarrow> segments (s @ CHR ''/'' # t) = s # segments t"
  by (induction s) (auto simp: no_slash_def)

lemma segments_single: "no_slash s \<Longrightarrow> segments s = [s]"
  by (induction s) (auto simp: no_slash_def)

lemma segments_join: "ss \<noteq> [] \<Longrightarrow> list_all no_slash ss \<Longrightarrow> segments (join ss) = ss"
  by (induction ss rule: join.induct) (auto simp: segments_append segments_single)

section \<open>\<open>ap_getparents\<close> on segments\<close>

text \<open>The intermediate specification: pass a) and b) treat the \<open>.\<close> segments only.\<close>

fun drop_dots :: "string list \<Rightarrow> string list" where
  "drop_dots [] = []"
| "drop_dots [s] = [if s = ''.'' then [] else s]"
| "drop_dots (s # t # ss) = (if s = ''.'' then drop_dots (t # ss) else s # drop_dots (t # ss))"

text \<open>The same for pass a) alone, which leaves the last segment.\<close>

fun drop_dots_a :: "string list \<Rightarrow> string list" where
  "drop_dots_a [] = []"
| "drop_dots_a [s] = [s]"
| "drop_dots_a (s # t # ss) = (if s = ''.'' then drop_dots_a (t # ss) else s # drop_dots_a (t # ss))"

definition at_start :: "char option \<Rightarrow> bool" where
  "at_start prev \<longleftrightarrow> (case prev of None \<Rightarrow> True | Some p \<Rightarrow> IS_SLASH p)"

lemma drop_dots_simps:
  "drop_dots ss = [] \<longleftrightarrow> ss = []" "drop_dots_a ss = [] \<longleftrightarrow> ss = []"
  by (induction ss rule: drop_dots.induct; simp)+

lemma getparents_a_seg:
  assumes "no_slash s" "s \<noteq> []"
  shows "\<not> at_start prev \<Longrightarrow> getparents_a prev (s @ r) = s @ getparents_a (Some (last s)) r"
    and "at_start prev \<Longrightarrow> s \<noteq> ''.'' \<or> r = [] \<Longrightarrow> r = [] \<or> hd r = CHR ''/'' \<Longrightarrow>
      getparents_a prev (s @ r) = s @ getparents_a (Some (last s)) r"
proof -
  have mid: "\<not> at_start prev \<Longrightarrow> no_slash s \<Longrightarrow> s \<noteq> [] \<Longrightarrow>
      getparents_a prev (s @ r) = s @ getparents_a (Some (last s)) r" for prev s
    by (induction s arbitrary: prev) (auto simp: at_start_def no_slash_def IS_SLASH_def)
  then show "\<not> at_start prev \<Longrightarrow> getparents_a prev (s @ r) = s @ getparents_a (Some (last s)) r"
    using assms by blast
  assume r: "at_start prev" "s \<noteq> ''.'' \<or> r = []" "r = [] \<or> hd r = CHR ''/''"
  obtain c s' where s: "s = c # s'" using assms(2) by (cases s) auto
  show "getparents_a prev (s @ r) = s @ getparents_a (Some (last s)) r"
  proof (cases s')
    case Nil
    then show ?thesis using s r by (auto simp: IS_SLASH_def)
  next
    case (Cons d s'')
    then have "\<not> IS_SLASH (peek (s' @ r))" "\<not> at_start (Some c)"
      using assms(1) s by (auto simp: no_slash_def IS_SLASH_def at_start_def)
    then show ?thesis using mid [of "Some c" s'] assms(1) s Cons by (auto simp: no_slash_def)
  qed
qed

lemma getparents_a_join:
  "at_start prev \<Longrightarrow> list_all no_slash ss \<Longrightarrow> getparents_a prev (join ss) = join (drop_dots_a ss)"
proof (induction ss arbitrary: prev rule: drop_dots_a.induct)
  case (2 s)
  show ?case
  proof (cases s)
    case (Cons c s')
    then show ?thesis using getparents_a_seg(2) [of s prev "[]"] 2 by simp
  qed simp
next
  case (3 s t ss)
  have start: "at_start (Some (CHR ''/''))" by (simp add: at_start_def IS_SLASH_def)
  show ?case
  proof (cases "s = ''.''")
    case True
    then show ?thesis using 3 start by (simp add: at_start_def IS_SLASH_def)
  next
    case False
    have "getparents_a prev (s @ CHR ''/'' # join (t # ss)) =
        s @ CHR ''/'' # getparents_a (Some (CHR ''/'')) (join (t # ss))"
    proof (cases "s = []")
      case s: False
      have "no_slash s" using 3(4) by simp
      then have "\<not> at_start (Some (last s))"
        using last_in_set [OF s] unfolding no_slash_def at_start_def IS_SLASH_def option.case by metis
      then show ?thesis using getparents_a_seg(2) [of s prev "CHR ''/'' # join (t # ss)"] 3 False s
        by (simp add: IS_SLASH_def)
    qed simp
    then show ?thesis using 3 start False by (simp add: join_Cons drop_dots_simps)
  qed
qed simp

lemma getparents_a_prefix:
  "CHR ''.'' \<notin> set pre \<Longrightarrow>
   getparents_a prev (pre @ r) = pre @ getparents_a (if pre = [] then prev else Some (last pre)) r"
  by (induction pre arbitrary: prev) auto

lemma getparents_b_rev:
  "getparents_b name = (case rev name of
     [c] \<Rightarrow> if c = CHR ''.'' then [] else name
   | c # d # s \<Rightarrow> if c = CHR ''.'' \<and> IS_SLASH d then butlast name else name
   | [] \<Rightarrow> name)"
proof (cases name rule: rev_cases)
  case (snoc xs c)
  then show ?thesis
    by (cases xs rule: rev_cases) (auto simp: getparents_b_def nth_append butlast_conv_take)
qed (simp add: getparents_b_def)

lemma getparents_b_append:
  "no_slash s \<Longrightarrow> r = [] \<or> last r = CHR ''/'' \<Longrightarrow>
   getparents_b (r @ s) = r @ (if s = ''.'' then [] else s)"
proof (cases "rev s" rule: list.exhaust)
  case Nil
  then show "r = [] \<or> last r = CHR ''/'' \<Longrightarrow> ?thesis"
    by (cases "rev r" rule: list.exhaust)
       (auto simp: getparents_b_rev IS_SLASH_def last_rev split: list.splits dest: arg_cong [where f = rev])
next
  case (Cons c s')
  assume a: "no_slash s" "r = [] \<or> last r = CHR ''/''"
  have s: "s = rev s' @ [c]" using Cons by (metis rev.simps(2) rev_rev_ident)
  show ?thesis
  proof (cases s')
    case Nil
    then show ?thesis using s a
      by (cases r rule: rev_cases) (auto simp: getparents_b_rev IS_SLASH_def butlast_append)
  next
    case (Cons d s'')
    then have "\<not> IS_SLASH d" using a s by (auto simp: no_slash_def IS_SLASH_def)
    then show ?thesis using s Cons by (auto simp: getparents_b_rev)
  qed
qed

lemma join_snoc: "join (ss @ [s]) = (if ss = [] then [] else join ss @ ''/'') @ s"
  by (induction ss rule: join.induct) auto

lemma drop_dots_last:
  "ss \<noteq> [] \<Longrightarrow> drop_dots ss =
   butlast (drop_dots_a ss) @ [if last ss = ''.'' then [] else last ss]"
  "ss \<noteq> [] \<Longrightarrow> last (drop_dots_a ss) = last ss"
  by (induction ss rule: drop_dots.induct) (auto simp: drop_dots_simps)

lemma getparents_ab:
  assumes "list_all no_slash ss" "ss \<noteq> []"
  shows "getparents_b (getparents_a None (join ss)) = join (drop_dots ss)"
proof -
  let ?d = "drop_dots_a ss"
  have "?d \<noteq> []" using assms(2) by (simp add: drop_dots_simps)
  then have d: "?d = butlast ?d @ [last ss]"
    using append_butlast_last_id [of ?d] drop_dots_last(2) [OF assms(2)] by simp
  have "no_slash (last ss)" using assms by (metis last_in_set list_all_iff)
  then have "getparents_b (join ?d) =
      (if butlast ?d = [] then [] else join (butlast ?d) @ ''/'') @ (if last ss = ''.'' then [] else last ss)"
    by (subst d, subst join_snoc, intro getparents_b_append) auto
  then show ?thesis
    using getparents_a_join [of None ss] assms
    by (simp add: at_start_def drop_dots_last(1) join_snoc)
qed

text \<open>The reversed array before the index, when the segments on the stack are complete.\<close>

fun encode :: "string list \<Rightarrow> string" where
  "encode [] = []"
| "encode (s # st) = CHR ''/'' # rev s @ encode st"

lemma encode_start: "encode st = [] \<or> IS_SLASH (hd (encode st))"
  by (cases st) (auto simp: IS_SLASH_def)

lemma rev_encode: "rev (encode st) @ s = join (rev (s # st))"
proof (induction st arbitrary: s)
  case (Cons a st)
  have "rev (encode (a # st)) @ s = (rev (encode st) @ a) @ CHR ''/'' # s" by simp
  also have "\<dots> = join (rev (a # st)) @ CHR ''/'' # s" by (simp only: Cons.IH)
  also have "\<dots> = join (rev (a # st) @ [s])" using join_snoc [of "rev (a # st)" s] by simp
  finally show ?case by simp
qed simp

lemma drop_segment: "no_slash s \<Longrightarrow> dropWhile (\<lambda>c. \<not> IS_SLASH c) (rev s @ encode st) = encode st"
proof (cases st)
  case (Cons u us)
  assume "no_slash s"
  then show ?thesis
    using Cons dropWhile_append2 [of "rev s" "\<lambda>c. \<not> IS_SLASH c" "encode st"]
    by (auto simp: no_slash_def IS_SLASH_def)
qed (auto simp: no_slash_def IS_SLASH_def)

lemma back_segment_encode: "list_all no_slash st \<Longrightarrow> back_segment (encode st) = encode (tl st)"
proof (cases st)
  case (Cons u us)
  assume a: "list_all no_slash st"
  show ?thesis
  proof (cases "length (encode st) \<ge> 2")
    case False
    moreover have "length (encode st) = 1 + length u + length (encode us)" using Cons by simp
    ultimately have "length u = 0" "length (encode us) = 0" by linarith+
    then have "u = []" "us = []" by (auto elim: encode.elims)
    then show ?thesis using Cons by (simp add: back_segment_def)
  qed (use a Cons drop_segment in \<open>simp add: back_segment_def\<close>)
qed (simp add: back_segment_def)

lemma getparents_c_mid:
  "no_slash s \<Longrightarrow> before \<noteq> [] \<Longrightarrow> \<not> IS_SLASH (hd before) \<Longrightarrow>
   getparents_c before (s @ r) = getparents_c (rev s @ before) r"
  by (induction s arbitrary: before) (auto simp: no_slash_def IS_SLASH_def)

lemma getparents_c_seg:
  assumes "no_slash s" "r = [] \<and> s \<noteq> [] \<or> s \<noteq> ''..'' \<and> hd r = CHR ''/''"
  shows "getparents_c before (s @ r) = getparents_c (rev s @ before) r"
proof (cases s)
  case (Cons c s')
  have "\<not> (c = CHR ''.'' \<and> peek (s' @ r) = CHR ''.'' \<and> IS_SLASH (peek (tl (s' @ r))))"
  proof
    assume a: "c = CHR ''.'' \<and> peek (s' @ r) = CHR ''.'' \<and> IS_SLASH (peek (tl (s' @ r)))"
    show False
    proof (cases s')
      case Nil
      then show False using a assms(2) by (cases r) auto
    next
      case s': (Cons d s'')
      show False
      proof (cases s'')
        case Nil
        then show False using a assms(2) Cons s' by (cases r) (auto simp: IS_SLASH_def)
      next
        case (Cons e t)
        then show False using a assms(1) s' \<open>s = c # s'\<close> by (auto simp: no_slash_def IS_SLASH_def)
      qed
    qed
  qed
  then have "getparents_c before (s @ r) = getparents_c (c # before) (s' @ r)"
    using Cons by (simp only: append_Cons getparents_c.simps(2)) auto
  also have "\<dots> = getparents_c (rev s' @ c # before) r"
    using getparents_c_mid [of s' "c # before" r] assms(1) Cons by (auto simp: no_slash_def IS_SLASH_def)
  finally show ?thesis using Cons by simp
qed simp

lemma getparents_c_slash: "getparents_c before (CHR ''/'' # r) = getparents_c (CHR ''/'' # before) r"
  by simp

lemma getparents_c_dotdot:
  "list_all no_slash st \<Longrightarrow> getparents_c (encode st) (''../'' @ r) = getparents_c (encode (tl st)) r"
  using encode_start [of st] by (simp add: IS_SLASH_def back_segment_encode)

lemma getparents_d_last:
  assumes "no_slash s" "list_all no_slash st"
  shows "getparents_d (rev s @ encode st) = join (rev (if s = ''..'' then [] # tl st else s # st))"
proof (cases "s = ''..''")
  case True
  show ?thesis
  proof (cases st)
    case (Cons u us)
    then have "dropWhile (\<lambda>c. \<not> IS_SLASH c) (rev u @ encode us) = encode us"
      using assms drop_segment by simp
    moreover have "rev (encode us) = join (rev ([] # us))" using rev_encode [of us "[]"] by simp
    ultimately show ?thesis using True Cons
      by (cases "u = [] \<and> us = []") (auto simp: getparents_d_def IS_SLASH_def Suc_le_eq)
  qed (simp add: True getparents_d_def)
next
  case False
  let ?b = "rev s @ encode st"
  have "\<not> (length ?b > 2 \<and> ?b ! 0 = CHR ''.'' \<and> ?b ! 1 = CHR ''.'' \<and> IS_SLASH (?b ! 2)) \<and> ?b \<noteq> ''..''"
  proof (cases "rev s" rule: list.exhaust)
    case Nil
    then show ?thesis by (cases st) auto
  next
    case (Cons c s1)
    show ?thesis
    proof (cases s1)
      case Nil
      then show ?thesis using Cons by (cases st) auto
    next
      case s1: (Cons d s2)
      have s: "s = rev s2 @ [d, c]" using Cons s1 by (metis append.assoc append_Cons append_Nil rev.simps(2) rev_rev_ident)
      show ?thesis
      proof (cases s2)
        case Nil
        then show ?thesis using False s by auto
      next
        case (Cons e s3)
        then show ?thesis using assms(1) s by (auto simp: no_slash_def IS_SLASH_def)
      qed
    qed
  qed
  then have "getparents_d ?b = rev ?b" unfolding getparents_d_def by (simp only: if_False)
  then show ?thesis using False rev_encode [of st s] by simp
qed

lemma getparents_cd_join:
  "list_all no_slash ss \<Longrightarrow> list_all no_slash st \<Longrightarrow> list_all (\<lambda>s. s \<noteq> ''.'') ss \<Longrightarrow> ss \<noteq> [] \<Longrightarrow>
   getparents_d (getparents_c (encode st) (join ss)) = join (resolve st ss)"
proof (induction st ss rule: resolve.induct)
  case (2 st s)
  then have "getparents_c (encode st) (join [s]) = rev s @ encode st"
    using getparents_c_seg [of s "[]" "encode st"] by (cases "s = []") auto
  then show ?case using 2 getparents_d_last by simp
next
  case (3 st s t ss)
  have no: "no_slash s" and "s \<noteq> ''.''" using 3 by auto
  show ?case
  proof (cases "s = ''..''")
    case True
    have "list_all no_slash (tl st)" using 3 by (cases st) auto
    then show ?thesis using 3 True getparents_c_dotdot [of st "join (t # ss)"] by simp
  next
    case False
    then have "getparents_c (encode st) (join (s # t # ss)) = getparents_c (encode (s # st)) (join (t # ss))"
      using getparents_c_seg [OF no, of "CHR ''/'' # join (t # ss)" "encode st"]
      by (simp add: getparents_c_slash)
    then show ?thesis using 3 False \<open>s \<noteq> ''.''\<close> by simp
  qed
qed simp

lemma resolve_drop_dots: "ss \<noteq> [] \<Longrightarrow> resolve st (drop_dots ss) = resolve st ss"
proof (induction st ss rule: resolve.induct)
  case (3 st s t ss)
  then obtain u us where d: "drop_dots (t # ss) = u # us"
    using drop_dots_simps(1) [of "t # ss"] by (cases "drop_dots (t # ss)") auto
  then show ?case using 3 by (cases "s = ''.''") auto
qed auto

lemma drop_dots_props:
  "list_all (\<lambda>s. s \<noteq> ''.'') (drop_dots ss)" "list_all no_slash ss \<Longrightarrow> list_all no_slash (drop_dots ss)"
  by (induction ss rule: drop_dots.induct) (auto simp: no_slash_def)

lemma getparents_c_prefix:
  "CHR ''.'' \<notin> set pre \<Longrightarrow> getparents_c before (pre @ r) = getparents_c (rev pre @ before) r"
  by (induction pre arbitrary: before) auto

lemma getparents_b_prefix:
  assumes "CHR ''.'' \<notin> set pre" shows "\<exists>r'. getparents_b (pre @ r) = pre @ r'"
proof (cases r rule: rev_cases)
  case Nil
  then show ?thesis using assms
    by (auto simp: getparents_b_rev split: list.split dest: arg_cong [where f = set])
next
  case (snoc r' c)
  then show ?thesis by (auto simp: getparents_b_rev butlast_append split: list.splits)
qed

text \<open>Starting the loops at the first dot changes nothing.\<close>

lemma ap_getparents_passes:
  "ap_getparents name =
   getparents_d (getparents_c [] (getparents_b (getparents_a None name)))"
proof -
  let ?pre = "takeWhile (\<lambda>c. c \<noteq> CHR ''.'') name"
  let ?n = "length ?pre"
  let ?prev = "if ?n = 0 then None else Some (name ! (?n - 1))"
  have take: "take ?n name = ?pre" and name: "name = ?pre @ drop ?n name"
    by (metis takeWhile_eq_take, metis append_take_drop_id takeWhile_eq_take)
  have nodot: "CHR ''.'' \<notin> set ?pre" by (auto dest: set_takeWhileD)
  have "?prev = (if ?pre = [] then None else Some (last ?pre))"
    by (auto simp: last_conv_nth takeWhile_nth)
  moreover have "getparents_a None name = getparents_a None (?pre @ drop ?n name)" using name by simp
  ultimately have a: "?pre @ getparents_a ?prev (drop ?n name) = getparents_a None name"
    using getparents_a_prefix [OF nodot, of None "drop ?n name"] by simp
  obtain r where r: "getparents_b (getparents_a None name) = ?pre @ r"
    using getparents_b_prefix [OF nodot, of "getparents_a ?prev (drop ?n name)"] unfolding a by blast
  have "getparents_c [] (?pre @ r) = getparents_c (rev ?pre) r"
    using getparents_c_prefix [OF nodot, of "[]" r] by simp
  then show ?thesis unfolding ap_getparents_def Let_def take a r by simp
qed

lemma ap_getparents_resolve: "ap_getparents name = join (resolve [] (segments name))"
proof -
  let ?ss = "segments name"
  have ns: "list_all no_slash ?ss" by (auto simp: list_all_iff segments_no_slash)
  have "getparents_b (getparents_a None name) = join (drop_dots ?ss)"
    using getparents_ab [OF ns] join_segments [of name] by simp
  moreover have "getparents_d (getparents_c (encode []) (join (drop_dots ?ss))) = join (resolve [] (drop_dots ?ss))"
    using ns by (intro getparents_cd_join) (auto simp: drop_dots_props drop_dots_simps)
  ultimately show ?thesis by (simp add: ap_getparents_passes resolve_drop_dots)
qed

lemma resolve_props:
  "ss \<noteq> [] \<Longrightarrow> resolve st ss \<noteq> []"
  "set (resolve st ss) \<subseteq> set st \<union> (set ss - {''.'', ''..''}) \<union> {[]}"
  by (induction st ss rule: resolve.induct) (auto dest: set_tlD simp: subset_iff split: if_splits)

lemma getparents_segments:
  "segments (ap_getparents name) = resolve [] (segments name)"
proof -
  have "list_all no_slash (resolve [] (segments name))"
    using resolve_props(2) [of "[]" "segments name"] segments_no_slash [of _ name]
    by (force simp: list_all_iff no_slash_def)
  then show ?thesis by (simp add: ap_getparents_resolve segments_join resolve_props)
qed

lemma resolve_plain:
  "list_all (\<lambda>s. s \<noteq> ''.'' \<and> s \<noteq> ''..'') ss \<Longrightarrow> resolve st ss = rev st @ ss"
  by (induction st ss rule: resolve.induct) auto

section \<open>Slashes\<close>

lemma no2slash_hd: "s \<noteq> [] \<Longrightarrow> ap_no2slash s \<noteq> [] \<and> hd (ap_no2slash s) = hd s"
  by (cases s) auto

lemma no2slash_peek: "peek (ap_no2slash s) = peek s"
  by (cases s) auto

lemma no2slash_Nil [simp]: "ap_no2slash s = [] \<longleftrightarrow> s = []"
  by (cases s) auto

lemma peek_dropWhile_slash: "peek (dropWhile (\<lambda>c. c = CHR ''/'') s) \<noteq> CHR ''/''"
  by (induction s) auto

lemma sublist_slashes_Cons:
  "sublist ''//'' (c # s) \<longleftrightarrow> c = CHR ''/'' \<and> peek s = CHR ''/'' \<or> sublist ''//'' s"
  by (cases s) (auto simp: sublist_Cons_right)

lemma no2slash_no_double: "\<not> sublist ''//'' (ap_no2slash s)"
proof (induction s rule: ap_no2slash.induct)
  case (2 c s)
  then show ?case
    using peek_dropWhile_slash [of s]
    by (cases "c = CHR ''/''") (simp_all add: sublist_slashes_Cons no2slash_peek)
qed simp

lemma no2slash_id: "\<not> sublist ''//'' s \<Longrightarrow> ap_no2slash s = s"
proof (induction s rule: ap_no2slash.induct)
  case (2 c s)
  have "dropWhile (\<lambda>x. x = CHR ''/'') s = s" if "c = CHR ''/''"
    using that 2(2) by (cases s) (auto simp: sublist_slashes_Cons)
  then show ?case using 2 by (auto simp: sublist_slashes_Cons)
qed simp

definition names :: "string \<Rightarrow> string list" where
  "names s = filter (\<lambda>x. x \<noteq> []) (segments s)"

lemma names_slash: "names (CHR ''/'' # s) = names s"
  by (simp add: names_def)

lemma names_drop_slashes: "names (dropWhile (\<lambda>x. x = CHR ''/'') s) = names s"
  by (induction s) (auto simp: names_slash)

lemma segments_hd_Nil: "hd (segments s) = [] \<longleftrightarrow> s = [] \<or> hd s = CHR ''/''"
  by (cases s) auto

lemma names_no2slash:
  "names (ap_no2slash s) = names s \<and> hd (segments (ap_no2slash s)) = hd (segments s)"
proof (induction s rule: ap_no2slash.induct)
  case (2 c s)
  show ?case
  proof (cases "c = CHR ''/''")
    case True
    then show ?thesis using 2 by (simp add: names_slash names_drop_slashes)
  next
    case False
    then have IH: "names (ap_no2slash s) = names s" "hd (segments (ap_no2slash s)) = hd (segments s)"
      using 2 by auto
    have "names s = (if hd (segments s) = [] then [] else [hd (segments s)]) @ filter (\<lambda>x. x \<noteq> []) (tl (segments s))" for s
      by (cases "segments s") (auto simp: names_def)
    then have "filter (\<lambda>x. x \<noteq> []) (tl (segments (ap_no2slash s))) = filter (\<lambda>x. x \<noteq> []) (tl (segments s))"
      using IH by (metis same_append_eq)
    then show ?thesis using False IH by (simp add: names_def)
  qed
qed simp

section \<open>Aliases\<close>

lemma no2slash_Cons_eq:
  "ap_no2slash p = a # as' \<longleftrightarrow>
   (\<exists>ps. p = a # ps \<and> ap_no2slash (if a = CHR ''/'' then dropWhile (\<lambda>x. x = CHR ''/'') ps else ps) = as')"
  by (cases p) auto

lemma alias_loop_sound:
  "cstring as \<Longrightarrow> alias_loop as u = Some r \<Longrightarrow>
   \<exists>p. u = p @ r \<and> ap_no2slash p = ap_no2slash as \<and> (as \<noteq> [] \<and> last as = CHR ''/'' \<longrightarrow> peek r \<noteq> CHR ''/'')"
proof (induction as u rule: alias_loop.induct)
  case (2 a as u)
  obtain us where u: "u = a # us" using 2(3,4) by (cases u) (auto split: if_splits)
  show ?case
  proof (cases "a = CHR ''/''")
    case True
    let ?as = "dropWhile (\<lambda>c. c = CHR ''/'') as" and ?us = "dropWhile (\<lambda>c. c = CHR ''/'') us"
    have "cstring ?as" using 2(3) by (auto simp: cstring_def dest: set_dropWhileD)
    then obtain p where p: "?us = p @ r" "ap_no2slash p = ap_no2slash ?as"
      "?as \<noteq> [] \<and> last ?as = CHR ''/'' \<longrightarrow> peek r \<noteq> CHR ''/''"
      using 2(1) 2(4) u True by auto
    let ?p = "a # takeWhile (\<lambda>c. c = CHR ''/'') us @ p"
    have "u = ?p @ r" using u p(1) by (metis append.assoc append_Cons takeWhile_dropWhile_id)
    moreover have "dropWhile (\<lambda>c. c = CHR ''/'') (takeWhile (\<lambda>c. c = CHR ''/'') us @ p) = p"
    proof -
      have "p = [] \<or> hd p \<noteq> CHR ''/''" using p(1) peek_dropWhile_slash [of us] by (cases p) auto
      then have "dropWhile (\<lambda>c. c = CHR ''/'') p = p" by (simp add: dropWhile_eq_self_iff)
      moreover have "\<And>c. c \<in> set (takeWhile (\<lambda>c. c = CHR ''/'') us) \<Longrightarrow> c = CHR ''/''"
        by (rule set_takeWhileD [THEN conjunct2])
      ultimately show ?thesis by (simp only: dropWhile_append2)
    qed
    moreover have "peek r \<noteq> CHR ''/''" if "last (a # as) = CHR ''/''"
    proof (cases "?as = []")
      case True
      then have "p = []" using p(2) no2slash_Nil by metis
      then show ?thesis using p(1) peek_dropWhile_slash [of us] by (simp only: append_Nil) blast
    next
      case False
      then have "last ?as = last as" "as \<noteq> []" by (auto simp: last_dropWhile)
      then show ?thesis using p(3) False that by auto
    qed
    ultimately show ?thesis using p(2) True by (intro exI [of _ ?p]) simp
  next
    case False
    then obtain p where "us = p @ r" "ap_no2slash p = ap_no2slash as"
      "as \<noteq> [] \<and> last as = CHR ''/'' \<longrightarrow> peek r \<noteq> CHR ''/''"
      using 2(2) 2(3,4) u by auto
    then show ?thesis using u False by (intro exI [of _ "a # p"]) auto
  qed
qed simp

lemma alias_loop_complete:
  "ap_no2slash p = ap_no2slash as \<Longrightarrow> (as \<noteq> [] \<and> last as = CHR ''/'' \<longrightarrow> peek r \<noteq> CHR ''/'') \<Longrightarrow>
   alias_loop as (p @ r) = Some r"
proof (induction as "p @ r" arbitrary: p rule: alias_loop.induct)
  case (2 a as)
  obtain ps where p: "p = a # ps" using 2(3) no2slash_Cons_eq [of p a] by auto
  show ?case
  proof (cases "a = CHR ''/''")
    case True
    let ?as = "dropWhile (\<lambda>c. c = CHR ''/'') as" and ?ps = "dropWhile (\<lambda>c. c = CHR ''/'') ps"
    have e: "ap_no2slash ?ps = ap_no2slash ?as" using 2(3) p True by simp
    have l: "?as \<noteq> [] \<Longrightarrow> last ?as = last as \<and> as \<noteq> []" by (auto simp: last_dropWhile)
    have "dropWhile (\<lambda>c. c = CHR ''/'') (ps @ r) = ?ps @ r"
    proof (cases "?ps = []")
      case ps: True
      then have "?as = []" using e no2slash_Nil by metis
      then have "\<forall>c\<in>set as. c = CHR ''/''" by (simp only: dropWhile_eq_Nil_conv)
      then have "peek r \<noteq> CHR ''/''" using 2(4) True by (cases "as = []") auto
      then show ?thesis using ps by (cases r) (auto simp: dropWhile_append)
    qed (auto simp: dropWhile_append)
    moreover have "?as \<noteq> [] \<and> last ?as = CHR ''/'' \<longrightarrow> peek r \<noteq> CHR ''/''"
      using l 2(4) by (cases "?as = []") (auto simp del: dropWhile_eq_Nil_conv)
    then have "alias_loop ?as (?ps @ r) = Some r"
      using 2(1) [of ?ps] calculation e p True by simp
    ultimately show ?thesis using p True by simp
  next
    case False
    then show ?thesis using 2(2) [of ps] 2(3,4) p by auto
  qed
qed simp

section \<open>Directory prefixes\<close>

lemma dirstr_prefix_loop_more: "ap_count_dirs s < n \<Longrightarrow> dirstr_prefix_loop n s = s @ ''/''"
  by (induction s arbitrary: n) auto

lemma dirstr_prefix_loop_less:
  "1 \<le> n \<Longrightarrow> n \<le> ap_count_dirs s \<Longrightarrow>
   \<exists>r. s = dirstr_prefix_loop n s @ r \<and> last (dirstr_prefix_loop n s) = CHR ''/'' \<and>
     ap_count_dirs (dirstr_prefix_loop n s) = n"
proof (induction s arbitrary: n)
  case (Cons c s)
  have ne: "dirstr_prefix_loop m s \<noteq> []" for m by (cases s) auto
  show ?case using Cons.prems Cons.IH [of n] Cons.IH [of "n - 1"] ne
    by (cases "c = CHR ''/''"; cases "n = 1") auto
qed simp

lemma count_dirs_append: "ap_count_dirs (s @ t) = ap_count_dirs s + ap_count_dirs t"
  by (induction s) auto

lemma count_dirs_0: "ap_count_dirs s = 0 \<longleftrightarrow> no_slash s"
  by (induction s) (auto simp: no_slash_def)

lemma strrchr_split:
  assumes "c \<in> set s" "c_strrchr s c = Some i"
  shows "i < length s \<and> s ! i = c \<and> c \<notin> set (drop (Suc i) s)"
proof -
  let ?n = "length (takeWhile (\<lambda>x. x \<noteq> c) (rev s))"
  have n: "?n < length s" using assms(1) length_takeWhile_less [of c "rev s"] by simp
  have i: "i = length s - 1 - ?n" using assms by (simp add: c_strrchr_def)
  have "rev s ! ?n = c" using n nth_length_takeWhile [of "\<lambda>x. x \<noteq> c" "rev s"] by simp
  then have "s ! i = c" using n i by (simp add: rev_nth)
  moreover have "take ?n (rev s) = takeWhile (\<lambda>x. x \<noteq> c) (rev s)" by (metis takeWhile_eq_take)
  then have "c \<notin> set (take ?n (rev s))" by (auto dest: set_takeWhileD)
  then have "c \<notin> set (drop (length s - ?n) s)" by (simp add: take_rev)
  moreover have "Suc i = length s - ?n" using n i by linarith
  ultimately show ?thesis using n i by (metis Suc_le_lessD diff_le_self)
qed

lemma dirstr_parent_split:
  "\<exists>f. s = ap_make_dirstr_parent s @ f \<and> no_slash f \<and>
    (ap_make_dirstr_parent s = [] \<longleftrightarrow> no_slash s) \<and>
    (ap_make_dirstr_parent s \<noteq> [] \<longrightarrow> last (ap_make_dirstr_parent s) = CHR ''/'')"
proof (cases "CHR ''/'' \<in> set s")
  case True
  then obtain i where i: "c_strrchr s (CHR ''/'') = Some i" by (simp add: c_strrchr_def)
  note s = strrchr_split [OF True i]
  then have "last (take (Suc i) s) = CHR ''/''" by (simp add: take_Suc_conv_app_nth)
  then show ?thesis using s i True
    by (intro exI [of _ "drop (Suc i) s"]) (auto simp: ap_make_dirstr_parent_def no_slash_def)
qed (simp add: ap_make_dirstr_parent_def c_strrchr_def no_slash_def)

section \<open>Properties\<close>

text \<open>
  C20: \<open>ap_getparents\<close> resolves dot segments. Its result is what resolving the path segment by segment
  gives; no segment of it is \<open>.\<close> or \<open>..\<close>, so it cannot climb out of the document tree; each of its
  segments is a segment of the input or empty; and a second application changes nothing.
\<close>

theorem ap_getparents_correct:
  "segments (ap_getparents name) = resolve [] (segments name) \<and>
   ''.'' \<notin> set (segments (ap_getparents name)) \<and> ''..'' \<notin> set (segments (ap_getparents name)) \<and>
   set (segments (ap_getparents name)) \<subseteq> insert [] (set (segments name)) \<and>
   ap_getparents (ap_getparents name) = ap_getparents name"
proof -
  have sub: "set (resolve [] (segments name)) \<subseteq> (set (segments name) - {''.'', ''..''}) \<union> {[]}"
    using resolve_props(2) [of "[]" "segments name"] by simp
  then have nd: "''.'' \<notin> set (resolve [] (segments name))" "''..'' \<notin> set (resolve [] (segments name))"
    by auto
  then have "resolve [] (segments (ap_getparents name)) = segments (ap_getparents name)"
    by (subst resolve_plain) (auto simp: getparents_segments list_all_iff)
  then have "ap_getparents (ap_getparents name) = ap_getparents name"
    using ap_getparents_resolve [of "ap_getparents name"] join_segments by simp
  then show ?thesis using sub nd by (auto simp: getparents_segments)
qed

text \<open>
  \<open>ap_no2slash\<close> leaves no two slashes in a row, does nothing to a path without them, and keeps
  the non-empty segments of the path and their order.
\<close>

theorem ap_no2slash_correct:
  "\<not> sublist ''//'' (ap_no2slash s) \<and> (\<not> sublist ''//'' s \<longleftrightarrow> ap_no2slash s = s) \<and>
   names (ap_no2slash s) = names s \<and>
   (peek (ap_no2slash s) = CHR ''/'' \<longleftrightarrow> peek s = CHR ''/'')"
  using no2slash_no_double [of s] no2slash_id [of s] names_no2slash [of s] no2slash_peek [of s]
  by metis

text \<open>
  C26: \<open>alias_matches\<close> finds the aliases of a URI up to repeated slashes and at segment boundaries only.
  For a non-empty alias the result is \<open>n > 0\<close> exactly if the first \<open>n\<close> characters of the URI are the
  alias once repeated slashes are collapsed on both sides, an alias that ends in a slash takes
  all slashes at that point, and otherwise the match ends at the end of the URI or before a slash.
\<close>

theorem alias_matches_correct:
  assumes "cstring alias" "cstring uri" "alias \<noteq> []" "0 < n"
  shows "alias_matches uri alias = Some n \<longleftrightarrow>
    (n \<le> length uri \<and> ap_no2slash (take n uri) = ap_no2slash alias \<and>
     (if last alias = CHR ''/'' then peek (drop n uri) \<noteq> CHR ''/''
      else n = length uri \<or> peek (drop n uri) = CHR ''/''))"
    (is "?l \<longleftrightarrow> ?r")
proof
  assume ?l
  then obtain r where r: "alias_loop alias uri = Some r" "n = length uri - length r"
      "\<not> (last alias \<noteq> CHR ''/'' \<and> peek r \<noteq> NUL \<and> peek r \<noteq> CHR ''/'')"
    using assms(3,4) by (auto simp: alias_matches_def split: option.splits if_splits)
  obtain p where p: "uri = p @ r" "ap_no2slash p = ap_no2slash alias"
      "alias \<noteq> [] \<and> last alias = CHR ''/'' \<longrightarrow> peek r \<noteq> CHR ''/''"
    using alias_loop_sound [OF assms(1) r(1)] by blast
  moreover have "peek r = NUL \<longleftrightarrow> r = []" using assms(2) p(1) cstring_peek by simp
  ultimately show ?r using r(2,3) assms(3) by auto
next
  assume ?r
  then have "alias_loop alias (take n uri @ drop n uri) = Some (drop n uri)"
    by (intro alias_loop_complete) (auto split: if_splits)
  then show ?l using \<open>?r\<close> assms(3) by (auto simp: alias_matches_def split: if_splits)
qed

theorem alias_matches_correct_witness:
  "alias_matches ''/icons//a'' ''//icons/'' = Some 8 \<and> ap_no2slash (take 8 ''/icons//a'') = ''/icons/''"
  using alias_matches_correct [of "''//icons/''" "''/icons//a''" 8] by (simp add: cstring_def)

text \<open>
  the directory prefixes of a path. For \<open>1 \<le> n\<close> up to the number of slashes of \<open>s\<close>,
  \<open>ap_make_dirstr_prefix\<close> returns the prefix of \<open>s\<close> that ends in its \<open>n\<close>-th slash; beyond that it
  returns \<open>s\<close> with a slash appended, so it never needs more than one byte beyond a copy of \<open>s\<close>.
  \<open>ap_make_dirstr_parent\<close> returns what comes before the part of \<open>s\<close> after the last slash, which is the
  prefix for the number of slashes that \<open>ap_count_dirs\<close> counts.
\<close>

theorem dirstr_prefixes:
  assumes "1 \<le> n"
  shows "(n \<le> ap_count_dirs s \<longrightarrow> prefix (ap_make_dirstr_prefix s (int n)) s \<and>
      last (ap_make_dirstr_prefix s (int n)) = CHR ''/'' \<and> ap_count_dirs (ap_make_dirstr_prefix s (int n)) = n) \<and>
    (ap_count_dirs s < n \<longrightarrow> ap_make_dirstr_prefix s (int n) = s @ ''/'') \<and>
    (\<exists>f. s = ap_make_dirstr_parent s @ f \<and> CHR ''/'' \<notin> set f) \<and>
    ap_count_dirs (ap_make_dirstr_parent s) = ap_count_dirs s \<and>
    (ap_make_dirstr_parent s \<noteq> [] \<longrightarrow> last (ap_make_dirstr_parent s) = CHR ''/'')"
proof -
  obtain f where f: "s = ap_make_dirstr_parent s @ f" "no_slash f"
      "ap_make_dirstr_parent s \<noteq> [] \<longrightarrow> last (ap_make_dirstr_parent s) = CHR ''/''"
    using dirstr_parent_split by blast
  then have "ap_count_dirs (ap_make_dirstr_parent s) = ap_count_dirs s"
    using count_dirs_append [of "ap_make_dirstr_parent s" f] count_dirs_0 [of f] by simp
  moreover have "ap_make_dirstr_prefix s (int n) = dirstr_prefix_loop n s"
    using assms by (simp add: ap_make_dirstr_prefix_def)
  moreover have "n \<le> ap_count_dirs s \<Longrightarrow> prefix (dirstr_prefix_loop n s) s"
    using dirstr_prefix_loop_less [OF assms, of s] prefix_def by blast
  ultimately show ?thesis
    using f dirstr_prefix_loop_less [OF assms, of s] dirstr_prefix_loop_more [of s n]
    unfolding no_slash_def by auto
qed

theorem dirstr_prefixes_witness:
  "ap_make_dirstr_prefix ''/a/b'' 2 = ''/a/'' \<and> ap_make_dirstr_prefix ''/a/b'' 3 = ''/a/b/'' \<and>
   ap_make_dirstr_parent ''/a/b'' = ''/a/'' \<and> prefix (ap_make_dirstr_prefix ''/a/b'' 2) ''/a/b''"
  using dirstr_prefixes [of 2 "''/a/b''"] dirstr_prefixes [of 3 "''/a/b''"]
  by (simp add: ap_make_dirstr_prefix_def ap_make_dirstr_parent_def c_strrchr_def numeral_eq_Suc)

end
