(* ===== verification/Words.thy ===== *)
theory Words
  imports Prelude
begin

text \<open>
  Taking words off a line: the \<open>ap_getword\<close> family of \<^verbatim>\<open>server/util.c\<close>, which splits at a stop
  character or at white space, and \<open>ap_getword_conf\<close> with its variant \<open>ap_getword_conf2\<close>, which read the
  arguments of configuration directives with quotes, backslashes and braces. Each function returns
  the word and the rest of the line, which the code stores through \<open>line\<close>.
\<close>

section \<open>Plain words\<close>

definition ap_getword :: "string \<Rightarrow> char \<Rightarrow> string \<times> string" where
  "ap_getword line stop =
     (let pos = dropWhile (\<lambda>c. c \<noteq> stop) line;
          res = take (length line - length pos) line
      in (res, if stop \<noteq> NUL then dropWhile (\<lambda>c. c = stop) pos else pos))"

definition ap_getword_white :: "string \<Rightarrow> string \<times> string" where
  "ap_getword_white line =
     (let pos = dropWhile (\<lambda>c. \<not> c_isspace c) line;
          res = take (length line - length pos) line
      in (res, dropWhile c_isspace pos))"

definition ap_getword_nulls :: "string \<Rightarrow> char \<Rightarrow> string \<times> string option" where
  "ap_getword_nulls line stop =
     (case c_strchr line stop of
        None \<Rightarrow> (line, Some (drop (length line) line))
      | Some pos \<Rightarrow> (take pos line, if pos < length line then Some (drop (pos + 1) line) else None))"

section \<open>Words of the configuration language\<close>

text \<open>
  \<open>substring_conf\<close> copies \<open>len\<close> bytes from \<open>start\<close>; it looks one byte ahead of a backslash, beyond
  the end of the range when the backslash is its last byte.
\<close>

function substring_conf :: "string \<Rightarrow> nat \<Rightarrow> char \<Rightarrow> string" where
  "substring_conf start 0 quote = []"
| "substring_conf [] (Suc n) quote = []"
| "substring_conf (c # start) (Suc n) quote =
     (if c = CHR 0x5C \<and> (peek start = CHR 0x5C \<or> (quote \<noteq> NUL \<and> peek start = quote))
      then peek start # substring_conf (tl start) (n - 1) quote
      else c # substring_conf start n quote)"
  by pat_completeness auto
termination by (relation "measure (\<lambda>(_, n, _). n)") auto

text \<open>How far the loop for a quoted word runs.\<close>

function quoted_end :: "char \<Rightarrow> string \<Rightarrow> nat" where
  "quoted_end quote [] = 0"
| "quoted_end quote (c # s) =
     (if c = quote then 0
      else if c = CHR 0x5C \<and> peek s \<noteq> NUL \<and> (peek s = quote \<or> peek s = CHR 0x5C)
      then 2 + quoted_end quote (tl s)
      else 1 + quoted_end quote s)"
  by pat_completeness auto
termination by (relation "measure (\<lambda>(_, s). length s)") auto

definition plain_word :: "string \<Rightarrow> string \<times> string" where
  "plain_word str =
     (let n = length (takeWhile (\<lambda>c. \<not> c_isspace c) str)
      in (substring_conf str n NUL, dropWhile c_isspace (drop n str)))"

definition quoted_word :: "char \<Rightarrow> string \<Rightarrow> string \<times> string" where
  "quoted_word quote s =
     (let n = quoted_end quote s;
          strend = drop n s;
          strend' = (if peek strend = quote then tl strend else strend)
      in (substring_conf s n quote, dropWhile c_isspace strend'))"

definition ap_getword_conf :: "string \<Rightarrow> string \<times> string" where
  "ap_getword_conf line =
     (let str = dropWhile c_isspace line
      in if str = [] then ([], str)
         else if hd str = CHR 0x22 \<or> hd str = CHR 0x27 then quoted_word (hd str) (tl str)
         else plain_word str)"

text \<open>\<open>ap_getword_conf2\<close> also knows words in nested braces, in which a double backslash is skipped.\<close>

function brace_end :: "nat \<Rightarrow> string \<Rightarrow> nat" where
  "brace_end count [] = 0"
| "brace_end count (c # s) =
     (if c = CHR ''}'' \<and> count - 1 = 0 then 0
      else let count1 = (if c = CHR ''}'' then count - 1 else count);
               count2 = (if c = CHR ''{'' then count1 + 1 else count1)
           in if c = CHR 0x5C \<and> peek s \<noteq> NUL \<and> peek s = CHR 0x5C
              then 2 + brace_end count2 (tl s)
              else 1 + brace_end count2 s)"
  by pat_completeness auto
termination by (relation "measure (\<lambda>(_, s). length s)") auto

definition brace_word :: "string \<Rightarrow> string \<times> string" where
  "brace_word s =
     (let n = brace_end 1 s;
          strend = drop n s;
          strend' = (if peek strend = CHR ''}'' then tl strend else strend)
      in (substring_conf s n NUL, dropWhile c_isspace strend'))"

definition ap_getword_conf2 :: "string \<Rightarrow> string \<times> string" where
  "ap_getword_conf2 line =
     (let str = dropWhile c_isspace line
      in if str = [] then ([], str)
         else if hd str = CHR 0x22 \<or> hd str = CHR 0x27 then ap_getword_conf line
         else if hd str = CHR ''{'' then brace_word (tl str)
         else plain_word str)"

section \<open>Splitting\<close>

lemma take_dropWhile: "take (length xs - length (dropWhile P xs)) xs = takeWhile P xs"
proof -
  have "length xs = length (takeWhile P xs) + length (dropWhile P xs)"
    by (metis length_append takeWhile_dropWhile_id)
  then show ?thesis by (metis add_diff_cancel_right' takeWhile_eq_take)
qed

lemma span_replicate:
  "xs = replicate (length (takeWhile (\<lambda>x. x = c) xs)) c @ dropWhile (\<lambda>x. x = c) xs"
  by (induction xs) auto

text \<open>
  The contract of a function that takes words off a line: what it returns as the rest is a suffix
  of the line, a shorter one whenever there is a word left. Taking words until the line is used up
  then ends after at most as many calls as the line has bytes.
\<close>

fun all_words :: "(string \<Rightarrow> string \<times> string) \<Rightarrow> (string \<Rightarrow> bool) \<Rightarrow> nat \<Rightarrow> string \<Rightarrow> string list option" where
  "all_words next_word used_up 0 line = (if used_up line then Some [] else None)"
| "all_words next_word used_up (Suc fuel) line =
     (if used_up line then Some []
      else case next_word line of (w, rest) \<Rightarrow> map_option (Cons w) (all_words next_word used_up fuel rest))"

definition blank :: "string \<Rightarrow> bool" where
  "blank line \<longleftrightarrow> dropWhile c_isspace line = []"

locale word_splitter =
  fixes next_word :: "string \<Rightarrow> string \<times> string" and used_up :: "string \<Rightarrow> bool"
  assumes rest_suffix: "suffix (snd (next_word line)) line"
    and rest_shorter: "\<not> used_up line \<Longrightarrow> length (snd (next_word line)) < length line"
begin

lemma words_enough: "length line \<le> fuel \<Longrightarrow> \<exists>ws. all_words next_word used_up fuel line = Some ws \<and> length ws \<le> length line"
proof (induction fuel arbitrary: line)
  case 0
  then show ?case using rest_shorter [of line] by (cases "used_up line") auto
next
  case (Suc fuel)
  show ?case
  proof (cases "used_up line")
    case False
    obtain w rest where w: "next_word line = (w, rest)" by (cases "next_word line")
    then have "length rest < length line" using rest_shorter [OF False] by simp
    moreover obtain ws where "all_words next_word used_up fuel rest = Some ws" "length ws \<le> length rest"
      using Suc calculation by (metis less_Suc_eq_le order_less_le_trans)
    ultimately show ?thesis using False w by (intro exI [of _ "w # ws"]) simp
  qed simp
qed

end

lemma length_dropWhile_tl: "xs \<noteq> [] \<Longrightarrow> length (dropWhile P (tl xs)) < length xs"
  by (cases xs) (simp_all add: length_dropWhile_le le_imp_less_Suc)

lemma suffix_drop_trans: "suffix s (drop n t) \<Longrightarrow> suffix s t"
  using suffix_drop suffix_order.trans by blast

lemma suffix_skip [intro]:
  "suffix (dropWhile P (drop n s)) s" "suffix (dropWhile P (tl (drop n s))) s"
  by (meson suffix_drop_trans suffix_dropWhile suffix_order.trans suffix_tl)+

lemma plain_word_suffix: "suffix (snd (plain_word s)) s"
  unfolding plain_word_def Let_def snd_conv by (rule suffix_skip)

lemma quoted_word_suffix: "suffix (snd (quoted_word q s)) s"
  unfolding quoted_word_def Let_def snd_conv by (simp split: if_split) blast

lemma brace_word_suffix: "suffix (snd (brace_word s)) s"
  unfolding brace_word_def Let_def snd_conv by (simp split: if_split) blast

lemma suffix_length_less: "suffix r (tl s) \<Longrightarrow> s \<noteq> [] \<Longrightarrow> length r < length s"
  by (cases s) (auto dest: suffix_length_le)

lemma plain_word_shorter:
  assumes "s \<noteq> []" "\<not> c_isspace (hd s)" shows "length (snd (plain_word s)) < length s"
proof -
  obtain c s' where s: "s = c # s'" using assms(1) by (cases s) auto
  have "suffix (snd (plain_word s)) s'"
    using assms(2) s suffix_skip(1) by (simp add: plain_word_def Let_def)
  then show ?thesis using s suffix_length_less [of _ s] by simp
qed

lemma conf_suffix: "suffix (snd (ap_getword_conf line)) line"
  and conf2_suffix: "suffix (snd (ap_getword_conf2 line)) line"
proof -
  let ?s = "dropWhile c_isspace line"
  have s: "suffix t line" if "suffix t ?s" for t
    using that suffix_dropWhile suffix_order.trans by blast
  have tl: "suffix t line" if "suffix t (tl ?s)" for t
    using that s suffix_tl suffix_order.trans by blast
  show c: "suffix (snd (ap_getword_conf line)) line"
    by (auto simp: ap_getword_conf_def Let_def intro: s tl plain_word_suffix quoted_word_suffix)
  show "suffix (snd (ap_getword_conf2 line)) line"
    using c by (auto simp: ap_getword_conf2_def Let_def intro: s tl plain_word_suffix brace_word_suffix)
qed

lemma conf_shorter:
  assumes "dropWhile c_isspace line \<noteq> []"
  shows "length (snd (ap_getword_conf line)) < length line"
    and "length (snd (ap_getword_conf2 line)) < length line"
proof -
  let ?s = "dropWhile c_isspace line"
  have le: "length ?s \<le> length line" by (rule length_dropWhile_le)
  have h: "\<not> c_isspace (hd ?s)" using assms by (rule hd_dropWhile)
  have p: "length (snd (plain_word ?s)) < length line" using plain_word_shorter [OF assms h] le by simp
  have t: "length r < length line" if "suffix r (tl ?s)" for r
    using suffix_length_less [OF that assms] le by simp
  show c: "length (snd (ap_getword_conf line)) < length line"
    using assms p t [OF quoted_word_suffix] by (simp add: ap_getword_conf_def Let_def del: dropWhile_eq_Nil_conv)
  show "length (snd (ap_getword_conf2 line)) < length line"
    using assms p c t [OF brace_word_suffix] by (simp add: ap_getword_conf2_def Let_def del: dropWhile_eq_Nil_conv)
qed

interpretation conf_words: word_splitter ap_getword_conf blank
  using conf_suffix conf_shorter by unfold_locales (auto simp: blank_def simp del: dropWhile_eq_Nil_conv)

interpretation conf2_words: word_splitter ap_getword_conf2 blank
  using conf2_suffix conf_shorter by unfold_locales (auto simp: blank_def simp del: dropWhile_eq_Nil_conv)

section \<open>Quoting\<close>

text \<open>A word as a configuration file can write it: in quotes, with quotes and backslashes escaped.\<close>

definition conf_quote :: "char \<Rightarrow> string \<Rightarrow> string" where
  "conf_quote q s = concat (map (\<lambda>c. if c = q \<or> c = CHR 0x5C then [CHR 0x5C, c] else [c]) s)"

lemma conf_quote_simps:
  "conf_quote q [] = []"
  "conf_quote q (c # s) = (if c = q \<or> c = CHR 0x5C then CHR 0x5C # c # conf_quote q s else c # conf_quote q s)"
  by (simp_all add: conf_quote_def)

lemma quoted_end_quote:
  "cstring s \<Longrightarrow> q \<noteq> CHR 0x5C \<Longrightarrow> quoted_end q (conf_quote q s @ q # r) = length (conf_quote q s)"
  by (induction s) (auto simp: conf_quote_simps)

lemma substring_quote:
  assumes "q \<noteq> NUL" "q \<noteq> CHR 0x5C"
  shows "substring_conf (conf_quote q s @ r) (length (conf_quote q s)) q = s"
proof (induction s)
  case (Cons c s)
  then show ?case using assms by (cases "c = q \<or> c = CHR 0x5C") (auto simp: conf_quote_simps)
qed (simp add: conf_quote_simps)

lemma quoted_word_quote:
  "cstring s \<Longrightarrow> q \<noteq> NUL \<Longrightarrow> q \<noteq> CHR 0x5C \<Longrightarrow>
   quoted_word q (conf_quote q s @ q # r) = (s, dropWhile c_isspace r)"
  by (simp add: quoted_word_def Let_def quoted_end_quote substring_quote)

text \<open>A copy of \<open>n\<close> bytes never needs more than \<open>n\<close> bytes.\<close>

lemma substring_conf_length: "length (substring_conf s n q) \<le> n"
  by (induction s n q rule: substring_conf.induct) auto

lemma substring_plain: "CHR 0x5C \<notin> set s \<Longrightarrow> substring_conf (s @ r) (length s) q = s"
  by (induction s) auto

lemma quoted_end_bound: "quoted_end q s \<le> length s"
proof (induction q s rule: quoted_end.induct)
  case (2 quote c s)
  then show ?case by (cases s) auto
qed simp

lemma brace_end_bound: "brace_end k s \<le> length s"
proof (induction k s rule: brace_end.induct)
  case (2 count c s)
  then show ?case by (cases s) (auto simp: Let_def)
qed simp

lemma skip_space:
  assumes "\<forall>c\<in>set ws. c_isspace c" "s \<noteq> []" "\<not> c_isspace (hd s)"
  shows "dropWhile c_isspace (ws @ s) = s"
  using assms by (subst dropWhile_append2) (auto simp: dropWhile_eq_self_iff)

section \<open>Properties\<close>

text \<open>
  The plain word functions split a line. \<open>ap_getword\<close> returns the bytes before the first stop
  character and skips all stop characters there; \<open>ap_getword_white\<close> does so for white space;
  \<open>ap_getword_nulls\<close> skips exactly one stop character, so that empty words are kept.
\<close>

theorem ap_getword_split:
  assumes "stop \<noteq> NUL"
  shows "(case ap_getword line stop of (w, rest) \<Rightarrow>
      (\<exists>k. line = w @ replicate k stop @ rest \<and> (k = 0 \<longleftrightarrow> w = line)) \<and> stop \<notin> set w \<and> peek rest \<noteq> stop) \<and>
    (case ap_getword_white line of (w, rest) \<Rightarrow>
      (\<exists>ws. line = w @ ws @ rest \<and> list_all c_isspace ws) \<and> \<not> list_ex c_isspace w \<and>
      (rest \<noteq> [] \<longrightarrow> \<not> c_isspace (hd rest))) \<and>
    (case ap_getword_nulls line stop of (w, rest) \<Rightarrow>
      stop \<notin> set w \<and> (\<exists>r. rest = Some r \<and>
        (if stop \<in> set line then line = w @ stop # r else w = line \<and> r = [])))"
proof (intro conjI)
  let ?p = "dropWhile (\<lambda>c. c \<noteq> stop) line"
  let ?k = "length (takeWhile (\<lambda>x. x = stop) ?p)"
  have "line = takeWhile (\<lambda>c. c \<noteq> stop) line @ replicate ?k stop @ dropWhile (\<lambda>x. x = stop) ?p"
    using span_replicate [of ?p stop] by (metis takeWhile_dropWhile_id)
  moreover have "?k = 0 \<longleftrightarrow> takeWhile (\<lambda>c. c \<noteq> stop) line = line"
  proof (cases ?p)
    case Nil
    then have "\<forall>c\<in>set line. c \<noteq> stop" by (simp only: dropWhile_eq_Nil_conv)
    then show ?thesis using Nil by (simp only: takeWhile_eq_all_conv list.size takeWhile.simps) blast
  next
    case (Cons c s)
    then have "c = stop" using dropWhile_hd [OF Cons] by simp
    moreover have "takeWhile (\<lambda>c. c \<noteq> stop) line \<noteq> line"
      using Cons by (metis dropWhile_eq_Nil_conv list.discI takeWhile_eq_all_conv)
    ultimately show ?thesis using Cons by simp
  qed
  moreover have "peek (dropWhile (\<lambda>x. x = stop) s) \<noteq> stop" for s using assms by (induction s) auto
  ultimately show "case ap_getword line stop of (w, rest) \<Rightarrow>
      (\<exists>k. line = w @ replicate k stop @ rest \<and> (k = 0 \<longleftrightarrow> w = line)) \<and> stop \<notin> set w \<and> peek rest \<noteq> stop"
    unfolding ap_getword_def Let_def take_dropWhile prod.case if_P [OF assms]
    by (intro conjI exI [of _ ?k]) (auto dest: set_takeWhileD)
next
  let ?w = "takeWhile (\<lambda>c. \<not> c_isspace c) line" and ?p = "dropWhile (\<lambda>c. \<not> c_isspace c) line"
  have "line = ?w @ takeWhile c_isspace ?p @ dropWhile c_isspace ?p" by simp
  moreover have "list_all c_isspace (takeWhile c_isspace ?p)" "\<not> list_ex c_isspace ?w"
    by (auto simp: list_all_iff list_ex_iff dest: set_takeWhileD)
  moreover have "dropWhile c_isspace ?p \<noteq> [] \<longrightarrow> \<not> c_isspace (hd (dropWhile c_isspace ?p))"
    using hd_dropWhile by blast
  ultimately show "case ap_getword_white line of (w, rest) \<Rightarrow>
      (\<exists>ws. line = w @ ws @ rest \<and> list_all c_isspace ws) \<and> \<not> list_ex c_isspace w \<and>
      (rest \<noteq> [] \<longrightarrow> \<not> c_isspace (hd rest))"
    unfolding ap_getword_white_def Let_def take_dropWhile prod.case by blast
next
  show "case ap_getword_nulls line stop of (w, rest) \<Rightarrow>
      stop \<notin> set w \<and> (\<exists>r. rest = Some r \<and>
        (if stop \<in> set line then line = w @ stop # r else w = line \<and> r = []))"
  proof (cases "stop \<in> set line")
    case True
    let ?n = "length (takeWhile (\<lambda>x. x \<noteq> stop) line)"
    have n: "?n < length line" using length_takeWhile_less [OF True] by simp
    have "line ! ?n = stop" using nth_length_takeWhile [OF n] by simp
    then have "line = take ?n line @ stop # drop (Suc ?n) line" using n by (metis id_take_nth_drop)
    moreover have "take ?n line = takeWhile (\<lambda>x. x \<noteq> stop) line" by (metis takeWhile_eq_take)
    moreover have "stop \<notin> set (takeWhile (\<lambda>x. x \<noteq> stop) line)" by (auto dest: set_takeWhileD)
    ultimately show ?thesis using True n by (simp add: ap_getword_nulls_def c_strchr_def)
  qed (use assms in \<open>auto simp: ap_getword_nulls_def c_strchr_def\<close>)
qed

theorem ap_getword_split_witness:
  "ap_getword ''a::b'' (CHR '':'') = (''a'', ''b'') \<and>
   ap_getword_nulls ''a::b'' (CHR '':'') = (''a'', Some '':b'') \<and>
   (CHR '':'' \<notin> set (fst (ap_getword ''a::b'' (CHR '':''))))"
  using ap_getword_split [of "CHR '':''" "''a::b''"]
  by (simp add: ap_getword_def ap_getword_nulls_def c_strchr_def)

text \<open>
  C27: words of the configuration language survive being written and read. A word written between
  double or single quotes, with its quotes and backslashes escaped, is what \<open>ap_getword_conf\<close> and
  \<open>ap_getword_conf2\<close> return; so is a word of other bytes that does not begin like a quoted or braced
  one; in each case the rest begins at the next word.
\<close>

theorem conf_word_roundtrip:
  assumes "cstring s" "list_all c_isspace ws" "q = CHR 0x22 \<or> q = CHR 0x27"
  shows "ap_getword_conf (ws @ q # conf_quote q s @ q # r) = (s, dropWhile c_isspace r) \<and>
    ap_getword_conf2 (ws @ q # conf_quote q s @ q # r) = (s, dropWhile c_isspace r) \<and>
    (s \<noteq> [] \<longrightarrow> CHR 0x5C \<notin> set s \<longrightarrow> \<not> list_ex c_isspace s \<longrightarrow> hd s \<notin> {CHR 0x22, CHR 0x27, CHR ''{''} \<longrightarrow>
      r = [] \<or> c_isspace (hd r) \<longrightarrow>
      ap_getword_conf (ws @ s @ r) = (s, dropWhile c_isspace r) \<and>
      ap_getword_conf2 (ws @ s @ r) = (s, dropWhile c_isspace r))"
proof -
  have q: "q \<noteq> NUL" "q \<noteq> CHR 0x5C" "\<not> c_isspace q" using assms(3) by (auto simp: cclass)
  have ws: "\<forall>c\<in>set ws. c_isspace c" using assms(2) by (simp add: list_all_iff)
  have "dropWhile c_isspace (ws @ q # conf_quote q s @ q # r) = q # conf_quote q s @ q # r"
    using ws q(3) by (intro skip_space) auto
  then have c: "ap_getword_conf (ws @ q # conf_quote q s @ q # r) = (s, dropWhile c_isspace r)"
    using assms(3) quoted_word_quote [OF assms(1) q(1,2), of r]
    unfolding ap_getword_conf_def Let_def by simp
  then have c2: "ap_getword_conf2 (ws @ q # conf_quote q s @ q # r) = (s, dropWhile c_isspace r)"
    using assms(3) \<open>dropWhile c_isspace (ws @ q # conf_quote q s @ q # r) = _\<close>
    unfolding ap_getword_conf2_def Let_def by simp
  have plain: "ap_getword_conf (ws @ s @ r) = (s, dropWhile c_isspace r) \<and>
      ap_getword_conf2 (ws @ s @ r) = (s, dropWhile c_isspace r)"
    if s: "s \<noteq> []" "CHR 0x5C \<notin> set s" "\<not> list_ex c_isspace s" "hd s \<notin> {CHR 0x22, CHR 0x27, CHR ''{''}"
      "r = [] \<or> c_isspace (hd r)"
  proof -
    have hd: "\<not> c_isspace (hd s)" using s(1,3) by (auto simp: list_ex_iff)
    have d: "dropWhile c_isspace (ws @ s @ r) = s @ r" using ws s(1) hd by (intro skip_space) auto
    have "takeWhile (\<lambda>c. \<not> c_isspace c) (s @ r) = s"
      using s(3,5) takeWhile_dropWhile_unique [of "s @ r" s r "\<lambda>c. \<not> c_isspace c"] by (auto simp: list_ex_iff)
    then have "plain_word (s @ r) = (s, dropWhile c_isspace r)"
      using substring_plain [OF s(2), of r NUL] by (simp add: plain_word_def Let_def)
    then show ?thesis using s(1,4) d unfolding ap_getword_conf_def ap_getword_conf2_def Let_def by simp
  qed
  show ?thesis using c c2 plain by blast
qed

theorem conf_word_roundtrip_witness:
  "ap_getword_conf (''  '' @ CHR 0x22 # conf_quote (CHR 0x22) [CHR 0x22, CHR 0x5C] @ CHR 0x22 # '' x'')
     = ([CHR 0x22, CHR 0x5C], ''x'') \<and>
   ap_getword_conf2 (''  a b'') = (''a'', ''b'')"
  using conf_word_roundtrip [of "[CHR 0x22, CHR 0x5C]" "''  ''" "CHR 0x22" "'' x''"]
    conf_word_roundtrip [of "''a''" "''  ''" "CHR 0x22" "'' b''"]
  by (simp add: cclass)

text \<open>
  C28: reading the words of a configuration line ends. \<open>ap_getword_conf\<close> and \<open>ap_getword_conf2\<close> return
  a suffix of the line, a strictly shorter one as long as there is something but white space, so
  that taking words until the line is blank ends after at most one call per byte; and the
  word they return fits the buffer of the length of the text it was taken from.
\<close>

theorem conf_words_end:
  "suffix (snd (ap_getword_conf line)) line \<and> suffix (snd (ap_getword_conf2 line)) line \<and>
   (\<not> blank line \<longrightarrow>
      length (snd (ap_getword_conf line)) < length line \<and>
      length (snd (ap_getword_conf2 line)) < length line) \<and>
   length (substring_conf s n q) \<le> n \<and> quoted_end q s \<le> length s \<and> brace_end k s \<le> length s \<and>
   (\<exists>ws. all_words ap_getword_conf blank (length line) line = Some ws \<and> length ws \<le> length line)"
  using conf_words.rest_suffix [of line] conf2_words.rest_suffix [of line]
    conf_words.rest_shorter [of line] conf2_words.rest_shorter [of line]
    substring_conf_length quoted_end_bound brace_end_bound conf_words.words_enough [of line "length line"]
  by auto

theorem conf_words_end_witness:
  "length (snd (ap_getword_conf2 ''{a b} c'')) < length ''{a b} c''"
  using conf_words_end [of "''{a b} c''" "[]" 0 NUL 0] by (simp add: blank_def cclass del: list.size)

end
