(* ===== verification/Field_Lists.thy ===== *)
theory Field_Lists
  imports Test_Char
begin

text \<open>
  The comma-separated lists of HTTP header fields, from \<^verbatim>\<open>server/util.c\<close>: sizing and copying a list
  item (\<open>ap_size_list_item\<close>, \<open>ap_get_list_item\<close>) and looking one up (\<open>find_list_item\<close> and its callers
  for entity tags). The three loops share their notion of where an item ends: a comma outside of
  quoted pairs, quoted strings and comments.
\<close>

section \<open>Where an item ends\<close>

record list_flags =
  in_qpair :: bool
  in_qstr :: bool
  in_com :: nat

definition no_flags :: list_flags where
  "no_flags = \<lparr>in_qpair = False, in_qstr = False, in_com = 0\<rparr>"

text \<open>The condition of the three loops, and how their \<open>switch\<close> statements change the flags.\<close>

definition in_item :: "list_flags \<Rightarrow> char \<Rightarrow> bool" where
  "in_item f c \<longleftrightarrow> in_qpair f \<or> in_qstr f \<or> in_com f \<noteq> 0 \<or> c \<noteq> CHR '',''"

definition flags_step :: "list_flags \<Rightarrow> char \<Rightarrow> list_flags" where
  "flags_step f c =
     (if in_qpair f then f\<lparr>in_qpair := False\<rparr>
      else if c = CHR 0x5C then f\<lparr>in_qpair := True\<rparr>
      else if c = CHR 0x22 then (if in_com f = 0 then f\<lparr>in_qstr := \<not> in_qstr f\<rparr> else f)
      else if c = CHR ''('' then (if \<not> in_qstr f then f\<lparr>in_com := in_com f + 1\<rparr> else f)
      else if c = CHR '')'' then (if in_com f \<noteq> 0 then f\<lparr>in_com := in_com f - 1\<rparr> else f)
      else f)"

definition separator :: "char \<Rightarrow> bool" where
  "separator c \<longleftrightarrow> c = CHR '','' \<or> c_isspace c"

fun item_end :: "list_flags \<Rightarrow> string \<Rightarrow> nat" where
  "item_end f [] = 0"
| "item_end f (c # ptr) = (if in_item f c then Suc (item_end (flags_step f c) ptr) else 0)"

text \<open>\<open>ap_size_list_item\<close>: the item as the string from its beginning on and its length, and the new \<open>field\<close>.\<close>

definition ap_size_list_item :: "string \<Rightarrow> (string \<times> nat) option \<times> string" where
  "ap_size_list_item field =
     (let token = dropWhile separator field;
          len = item_end no_flags token;
          ptr = drop len token
      in if len = 0 then (None, ptr) else (Some (token, len), dropWhile separator ptr))"

section \<open>Copying an item\<close>

text \<open>
  One pass of the loop of \<open>ap_get_list_item\<close>: the new value of \<open>addspace\<close> and the bytes it writes.
  The flags are those before the pass.
\<close>

definition pending :: "int \<Rightarrow> string" where
  "pending addspace = (if addspace = 1 then '' '' else [])"

definition item_char :: "int \<Rightarrow> list_flags \<Rightarrow> char \<Rightarrow> int \<times> string" where
  "item_char addspace f c =
     (if in_qpair f then (addspace, [c])
      else if c = CHR 0x5C \<or> c = CHR 0x22 \<or> c = CHR ''('' then (0, pending addspace @ [c])
      else if c = CHR '')'' then (0, [c])
      else if c = CHR '' '' \<or> c = CHR 0x09 then
        (if addspace \<noteq> 0 then (addspace, [])
         else if in_com f \<noteq> 0 \<or> in_qstr f then (addspace, [c])
         else (1, []))
      else if c = CHR ''='' \<or> c = CHR ''/'' \<or> c = CHR '';'' then
        (if in_com f \<noteq> 0 \<or> in_qstr f then addspace else -1, [c])
      else (0, pending addspace @ [if in_com f \<noteq> 0 \<or> in_qstr f then c else c_tolower c]))"

fun item_copy :: "int \<Rightarrow> list_flags \<Rightarrow> string \<Rightarrow> string" where
  "item_copy addspace f [] = []"
| "item_copy addspace f (c # ptr) =
     (if in_item f c
      then (case item_char addspace f c of (addspace', out) \<Rightarrow> out @ item_copy addspace' (flags_step f c) ptr)
      else [])"

text \<open>\<open>ap_get_list_item\<close>: the size of the buffer and the copy, and the new \<open>field\<close>.\<close>

definition ap_get_list_item :: "string \<Rightarrow> (nat \<times> string) option \<times> string" where
  "ap_get_list_item field =
     (case ap_size_list_item field of
        (None, rest) \<Rightarrow> (None, rest)
      | (Some (tok_start, tok_len), rest) \<Rightarrow> (Some (tok_len + 1, item_copy 0 no_flags tok_start), rest))"

section \<open>Finding an item\<close>

datatype ap_etag = AP_ETAG_NONE | AP_ETAG_WEAK | AP_ETAG_STRONG

text \<open>\<open>good = good && (*pos++ == ...)\<close> on the pair of \<open>good\<close> and \<open>pos\<close>.\<close>

definition eat :: "(char \<Rightarrow> bool) \<Rightarrow> bool \<times> string \<Rightarrow> bool \<times> string" where
  "eat P st = (case st of (good, pos) \<Rightarrow> if good then (P (peek pos), tl pos) else (False, pos))"

definition find_char :: "int \<Rightarrow> list_flags \<Rightarrow> char \<Rightarrow> bool \<times> string \<Rightarrow> int \<times> bool \<times> string" where
  "find_char addspace f c st =
     (let space = (\<lambda>st. if addspace = 1 then eat (\<lambda>t. t = CHR '' '') st else st);
          this = eat (\<lambda>t. t = c)
      in if in_qpair f then (addspace, this st)
         else if c = CHR 0x5C \<or> c = CHR 0x22 \<or> c = CHR ''('' then (0, this (space st))
         else if c = CHR '')'' then (0, this st)
         else if c = CHR '' '' \<or> c = CHR 0x09 then
           (if addspace \<noteq> 0 \<or> \<not> fst st then (addspace, st)
            else if in_com f \<noteq> 0 \<or> in_qstr f then (addspace, this st)
            else (1, st))
         else if c = CHR ''='' \<or> c = CHR ''/'' \<or> c = CHR '';'' then
           (if in_com f \<noteq> 0 \<or> in_qstr f then addspace else -1, this st)
         else if \<not> fst st then (addspace, st)
         else (0, if in_com f \<noteq> 0 \<or> in_qstr f then this (space st)
                  else eat (\<lambda>t. c_tolower t = c_tolower c) (space st)))"

text \<open>The loop over one item: \<open>addspace\<close>, the flags, \<open>good\<close> and \<open>pos\<close>, and where \<open>ptr\<close> stops.\<close>

fun find_scan :: "int \<Rightarrow> list_flags \<Rightarrow> bool \<times> string \<Rightarrow> string
    \<Rightarrow> (int \<times> list_flags) \<times> (bool \<times> string) \<times> string" where
  "find_scan addspace f st [] = ((addspace, f), st, [])"
| "find_scan addspace f st (c # ptr) =
     (if in_item f c
      then (case find_char addspace f c st of (addspace', st') \<Rightarrow>
              find_scan addspace' (flags_step f c) st' ptr)
      else ((addspace, f), st, c # ptr))"

text \<open>\<open>*s == 'W' && s[1] == '/' && s[2] == '"'\<close>.\<close>

definition weak_tag :: "string \<Rightarrow> bool" where
  "weak_tag s \<longleftrightarrow> at s 0 = CHR ''W'' \<and> at s 1 = CHR ''/'' \<and> at s 2 = CHR 0x22"

text \<open>The start of an item for the kind of search, or \<open>None\<close> when the code leaves the loop over the items.\<close>

definition etag_start :: "ap_etag \<Rightarrow> string \<Rightarrow> string option" where
  "etag_start type ptr =
     (case type of
        AP_ETAG_NONE \<Rightarrow> Some ptr
      | AP_ETAG_STRONG \<Rightarrow> if peek ptr \<noteq> CHR 0x22 then None else Some ptr
      | AP_ETAG_WEAK \<Rightarrow> if weak_tag ptr then Some (drop 2 ptr)
                        else if peek ptr \<noteq> CHR 0x22 then None else Some ptr)"

lemma find_scan_rest: "snd (snd (find_scan a f st ptr)) = drop (item_end f ptr) ptr"
  by (induction a f st ptr rule: find_scan.induct) (auto split: prod.split)

lemma peek_skip_separators: "peek (dropWhile separator ptr) \<noteq> CHR '',''"
  by (induction ptr) (auto simp: separator_def)

lemma weak_tag_iff: "weak_tag s \<longleftrightarrow> (\<exists>r. s = CHR ''W'' # CHR ''/'' # CHR 0x22 # r)"
proof (cases s)
  case (Cons a s')
  then show ?thesis
    by (cases s'; cases "tl s'") (auto simp: weak_tag_def numeral_2_eq_2)
qed (simp add: weak_tag_def)

lemma etag_start_props:
  "etag_start type ptr = Some s \<Longrightarrow> peek ptr \<noteq> CHR '','' \<Longrightarrow> length s \<le> length ptr \<and> peek s \<noteq> CHR '',''"
  by (auto simp: etag_start_def weak_tag_iff split: ap_etag.splits if_splits)

lemma item_end_pos: "peek ptr \<noteq> CHR '','' \<Longrightarrow> ptr \<noteq> [] \<Longrightarrow> 0 < item_end f ptr"
  by (cases ptr) (auto simp: in_item_def)

lemma find_scan_shorter:
  assumes "etag_start type (dropWhile separator line) = Some ptr" "ptr \<noteq> []"
    and "find_scan a f st ptr = (x, y, ptr')"
  shows "length ptr' < length line"
proof -
  have "length ptr \<le> length (dropWhile separator line)" "peek ptr \<noteq> CHR '',''"
    using etag_start_props [OF assms(1) peek_skip_separators] by auto
  moreover have "ptr' = drop (item_end f ptr) ptr"
    using find_scan_rest [of a f st ptr] assms(3) by simp
  moreover have "length (dropWhile separator line) \<le> length line" by (rule length_dropWhile_le)
  ultimately show ?thesis using item_end_pos [of ptr f] assms(2) by (cases ptr) auto
qed

text \<open>The loop over the items; \<open>addspace\<close> and the flags are not reset between them.\<close>

function find_items :: "ap_etag \<Rightarrow> string \<Rightarrow> int \<Rightarrow> list_flags \<Rightarrow> string \<Rightarrow> bool" where
  "find_items type tok addspace f line =
     (case etag_start type (dropWhile separator line) of
        None \<Rightarrow> False
      | Some ptr \<Rightarrow>
          if ptr = [] then False
          else case find_scan addspace f (True, tok) ptr of
            ((addspace', f'), (good, pos), ptr') \<Rightarrow>
              (let good' = (good \<and> peek pos = NUL)
               in if ptr' \<noteq> [] \<and> \<not> good' then find_items type tok addspace' f' ptr' else good'))"
  by pat_completeness auto
termination
  by (relation "measure (\<lambda>(_, _, _, _, line). length line)") (auto intro: find_scan_shorter [OF _ _ sym])

definition find_list_item :: "string option \<Rightarrow> string option \<Rightarrow> ap_etag \<Rightarrow> bool" where
  "find_list_item line tok type =
     (case (line, tok) of
        (Some line, Some tok) \<Rightarrow>
          (if type = AP_ETAG_STRONG \<and> peek tok \<noteq> CHR 0x22 then False
           else if type = AP_ETAG_WEAK \<and> \<not> weak_tag tok \<and> peek tok \<noteq> CHR 0x22 then False
           else find_items type (if type = AP_ETAG_WEAK \<and> weak_tag tok then drop 2 tok else tok) 0 no_flags line)
      | _ \<Rightarrow> False)"

definition ap_find_list_item :: "string option \<Rightarrow> string option \<Rightarrow> bool" where
  "ap_find_list_item line tok = find_list_item line tok AP_ETAG_NONE"

definition ap_find_etag_strong :: "string option \<Rightarrow> string option \<Rightarrow> bool" where
  "ap_find_etag_strong line tok = find_list_item line tok AP_ETAG_STRONG"

definition ap_find_etag_weak :: "string option \<Rightarrow> string option \<Rightarrow> bool" where
  "ap_find_etag_weak line tok = find_list_item line tok AP_ETAG_WEAK"

section \<open>What copying and finding have in common\<close>

text \<open>
  Both loops walk over the canonical form of an item: the bytes \<open>ap_get_list_item\<close> writes, each with
  the information whether its case matters.
\<close>

definition emit_char :: "int \<Rightarrow> list_flags \<Rightarrow> char \<Rightarrow> int \<times> (char \<times> bool) list" where
  "emit_char a f c =
     (let sp = (if a = 1 then [(CHR '' '', False)] else []); quoted = (in_com f \<noteq> 0 \<or> in_qstr f)
      in if in_qpair f then (a, [(c, False)])
         else if c = CHR 0x5C \<or> c = CHR 0x22 \<or> c = CHR ''('' then (0, sp @ [(c, False)])
         else if c = CHR '')'' then (0, [(c, False)])
         else if c = CHR '' '' \<or> c = CHR 0x09 then
           (if a \<noteq> 0 then (a, []) else if quoted then (a, [(c, False)]) else (1, []))
         else if c = CHR ''='' \<or> c = CHR ''/'' \<or> c = CHR '';'' then (if quoted then a else -1, [(c, False)])
         else (0, sp @ [(c, \<not> quoted)]))"

fun canonical :: "int \<Rightarrow> list_flags \<Rightarrow> string \<Rightarrow> (char \<times> bool) list" where
  "canonical a f [] = []"
| "canonical a f (c # s) =
     (if in_item f c then (case emit_char a f c of (a', em) \<Rightarrow> em @ canonical a' (flags_step f c) s) else [])"

definition same_char :: "char \<Rightarrow> char \<times> bool \<Rightarrow> bool" where
  "same_char t e = (case e of (c, caseless) \<Rightarrow> if caseless then c_tolower t = c_tolower c else t = c)"

definition item_matches :: "string \<Rightarrow> string \<Rightarrow> bool" where
  "item_matches tok item = list_all2 same_char tok (canonical 0 no_flags item)"

definition written :: "char \<times> bool \<Rightarrow> char" where
  "written e = (case e of (c, caseless) \<Rightarrow> if caseless then c_tolower c else c)"

lemma item_char_emit: "item_char a f c = (case emit_char a f c of (a', em) \<Rightarrow> (a', map written em))"
  by (auto simp: item_char_def emit_char_def pending_def written_def Let_def)

lemma item_copy_canonical: "item_copy a f s = map written (canonical a f s)"
  by (induction a f s rule: item_copy.induct) (auto simp: item_char_emit split: prod.splits)

lemma canonical_take: "canonical a f (take (item_end f s) s) = canonical a f s"
proof (induction s arbitrary: a f)
  case (Cons c s)
  then show ?case by (cases "emit_char a f c") simp
qed simp

text \<open>The buffer for the copy is large enough.\<close>

lemma emit_length:
  "length (snd (emit_char a f c)) + (if fst (emit_char a f c) = 1 then 1 else 0) \<le> Suc (if a = 1 then 1 else 0)"
  by (simp add: emit_char_def Let_def)

lemma canonical_length: "length (canonical a f s) \<le> item_end f s + (if a = 1 then 1 else 0)"
proof (induction a f s rule: canonical.induct)
  case (2 a f c s)
  show ?case
  proof (cases "in_item f c")
    case True
    obtain a' em where e: "emit_char a f c = (a', em)" by (cases "emit_char a f c")
    have "length (canonical a' (flags_step f c) s) \<le> item_end (flags_step f c) s + (if a' = 1 then 1 else 0)"
      using 2(1) [OF True] e by simp
    then show ?thesis using True e emit_length [of a f c] by simp
  qed simp
qed simp

text \<open>The finding loop eats the canonical form from the token.\<close>

definition feed :: "(char \<times> bool) list \<Rightarrow> bool \<times> string \<Rightarrow> bool \<times> string" where
  "feed em st = fold (\<lambda>e. eat (\<lambda>t. same_char t e)) em st"

lemma feed_simps:
  "feed [] st = st" "feed (e # em) st = feed em (eat (\<lambda>t. same_char t e) st)"
  "feed (em @ em') st = feed em' (feed em st)"
  by (simp_all add: feed_def)

lemma eat_bad [simp]: "eat P (False, pos) = (False, pos)"
  by (simp add: eat_def)

lemma feed_bad: "feed em (False, pos) = (False, pos)"
  by (induction em) (simp_all add: feed_simps)

lemma find_char_bad: "\<exists>a'. find_char a f c (False, pos) = (a', (False, pos))"
  by (simp add: find_char_def Let_def)

lemma find_char_good:
  "find_char a f c (True, pos) = (case emit_char a f c of (a', em) \<Rightarrow> (a', feed em (True, pos)))"
  by (simp add: find_char_def emit_char_def Let_def feed_def same_char_def)

lemma find_scan_bad: "fst (snd (find_scan a f (False, pos) ptr)) = (False, pos)"
proof (induction ptr arbitrary: a f)
  case (Cons c ptr)
  obtain a' where "find_char a f c (False, pos) = (a', (False, pos))" using find_char_bad by blast
  then show ?case using Cons by simp
qed simp

lemma find_scan_feed: "fst (snd (find_scan a f (True, pos) ptr)) = feed (canonical a f ptr) (True, pos)"
proof (induction ptr arbitrary: a f pos)
  case (Cons c ptr)
  obtain a' em where e: "emit_char a f c = (a', em)" by (cases "emit_char a f c")
  obtain g pos' where fd: "feed em (True, pos) = (g, pos')" by (cases "feed em (True, pos)")
  then show ?case
    using Cons e by (cases g) (simp_all add: find_char_good feed_simps find_scan_bad feed_bad)
qed (simp add: feed_simps)

lemma tolower_NUL: "c_tolower c = NUL \<longleftrightarrow> c = NUL"
  by (auto simp: char_eq_ord ord_tolower cclass)

lemma feed_matches:
  "cstring pos \<Longrightarrow> list_all (\<lambda>e. fst e \<noteq> NUL) em \<Longrightarrow> feed em (True, pos) = (g, pos') \<Longrightarrow>
   (g \<and> peek pos' = NUL) \<longleftrightarrow> list_all2 same_char pos em"
proof (induction em arbitrary: pos)
  case Nil
  then show ?case using cstring_peek by (auto simp: feed_simps)
next
  case (Cons e em)
  show ?case
  proof (cases pos)
    case Nil
    obtain c b where e: "e = (c, b)" "c \<noteq> NUL" using Cons.prems(2) by (cases e) auto
    then have "\<not> same_char NUL e" unfolding same_char_def by (simp, metis tolower_NUL)
    then show ?thesis using Nil Cons.prems by (auto simp: feed_simps eat_def feed_bad)
  next
    case (Cons t pos1)
    then show ?thesis
      using Cons.prems Cons.IH [of pos1]
      by (cases "same_char t e") (auto simp: feed_simps eat_def feed_bad)
  qed
qed

lemma emit_char_set: "list_all (\<lambda>e. fst e = c \<or> fst e = CHR '' '') (snd (emit_char a f c))"
  by (simp add: emit_char_def Let_def)

lemma canonical_no_NUL: "cstring s \<Longrightarrow> list_all (\<lambda>e. fst e \<noteq> NUL) (canonical a f s)"
proof (induction s arbitrary: a f)
  case (Cons c s)
  obtain a' em where e: "emit_char a f c = (a', em)" by (cases "emit_char a f c")
  have "c \<noteq> NUL" using Cons.prems by simp
  then have "list_all (\<lambda>e. fst e \<noteq> NUL) em"
    using emit_char_set [of c a f] e by (auto simp: list_all_iff)
  then show ?case using Cons e by simp
qed simp

text \<open>\<open>addspace\<close> is 1 only after white space outside of quotes, while the item is still good.\<close>

definition blank_char :: "char \<Rightarrow> bool" where
  "blank_char c \<longleftrightarrow> c = CHR '' '' \<or> c = CHR 0x09"

lemma find_char_addspace_blank:
  assumes "a = 1 \<longrightarrow> good \<and> f = no_flags" "blank_char c" "fst (find_char a f c (good, pos)) = 1"
  shows "fst (snd (find_char a f c (good, pos))) \<and> flags_step f c = no_flags"
proof -
  have "c = CHR '' '' \<or> c = CHR 0x09" using assms(2) by (simp add: blank_char_def)
  then show ?thesis
    using assms(1,3)
    by (elim disjE; cases "in_qpair f"; cases "a = 1"; cases "in_com f \<noteq> 0 \<or> in_qstr f"; cases "good"; cases "a = 0")
       (simp_all add: find_char_def flags_step_def Let_def no_flags_def eat_def)
qed

lemma find_char_addspace_other:
  assumes "a = 1 \<longrightarrow> good \<and> f = no_flags" "\<not> blank_char c"
  shows "fst (find_char a f c (good, pos)) \<noteq> 1"
  using assms by (cases "a = 1") (simp_all add: find_char_def Let_def blank_char_def no_flags_def)

lemma find_char_addspace:
  assumes "a = 1 \<longrightarrow> good \<and> f = no_flags" "find_char a f c (good, pos) = (a', (good', pos'))"
  shows "(a' = 1 \<longrightarrow> good' \<and> flags_step f c = no_flags) \<and> (\<not> blank_char c \<longrightarrow> a' \<noteq> 1)"
  using find_char_addspace_blank [OF assms(1), of c pos] find_char_addspace_other [OF assms(1), of c pos] assms(2)
  by (cases "blank_char c") auto

lemma find_scan_addspace:
  assumes "a = 1 \<longrightarrow> good \<and> f = no_flags" "find_scan a f (good, pos) ptr = ((a', f'), (good', pos'), ptr')"
    and "item_end f ptr = 0 \<longrightarrow> a \<noteq> 1"
    and "item_end f ptr \<noteq> 0 \<longrightarrow> \<not> blank_char (ptr ! (item_end f ptr - 1))"
  shows "a' \<noteq> 1"
  using assms
proof (induction ptr arbitrary: a f good pos)
  case (Cons c ptr)
  show ?case
  proof (cases "in_item f c")
    case True
    obtain a1 g1 p1 where s: "find_char a f c (good, pos) = (a1, (g1, p1))"
      by (cases "find_char a f c (good, pos)") auto
    note j = find_char_addspace [OF Cons.prems(1) s]
    have "find_scan a1 (flags_step f c) (g1, p1) ptr = ((a', f'), (good', pos'), ptr')"
      using Cons.prems(2) True s by simp
    moreover have "item_end (flags_step f c) ptr = 0 \<longrightarrow> a1 \<noteq> 1"
    proof
      assume "item_end (flags_step f c) ptr = 0"
      then have "\<not> blank_char c" using Cons.prems(4) True by simp
      then show "a1 \<noteq> 1" using j by blast
    qed
    moreover have "item_end (flags_step f c) ptr \<noteq> 0 \<longrightarrow>
        \<not> blank_char (ptr ! (item_end (flags_step f c) ptr - 1))"
      using Cons.prems(4) True by (cases "item_end (flags_step f c) ptr") simp_all
    ultimately show ?thesis by (rule Cons.IH [OF conjunct1 [OF j]])
  next
    case False
    then have "item_end f (c # ptr) = 0" by simp
    moreover have "a = a'" using Cons.prems(2) False by simp
    ultimately show ?thesis using Cons.prems(3) by blast
  qed
qed simp

lemma find_scan_flags:
  "find_scan a f st ptr = ((a', f'), st', ptr') \<Longrightarrow> ptr' \<noteq> [] \<Longrightarrow> f' = no_flags"
  by (induction ptr arbitrary: a f st) (auto simp: in_item_def no_flags_def split: if_splits prod.splits)

lemma canonical_start:
  assumes "a \<noteq> 1" "s \<noteq> []" "\<not> separator (hd s)"
  shows "canonical a no_flags s = canonical 0 no_flags s"
proof -
  obtain c s' where s: "s = c # s'" using assms(2) by (cases s) auto
  then have "c \<noteq> CHR '' ''" "c \<noteq> CHR 0x09" using assms(3) by (auto simp: separator_def cclass)
  then have "emit_char a no_flags c = emit_char 0 no_flags c"
    using assms(1) by (simp add: emit_char_def no_flags_def Let_def)
  then show ?thesis using s by simp
qed

section \<open>The items of a field\<close>

lemma size_list_item_shorter:
  "ap_size_list_item field = (Some (tok, len), rest) \<Longrightarrow>
   suffix rest field \<and> length rest < length field \<and> len = item_end no_flags tok \<and>
   tok = dropWhile separator field \<and> 0 < len \<and> len \<le> length tok \<and> rest = dropWhile separator (drop len tok)"
proof -
  assume a: "ap_size_list_item field = (Some (tok, len), rest)"
  then have tok: "tok = dropWhile separator field" "len = item_end no_flags tok" "0 < len"
      "rest = dropWhile separator (drop len tok)"
    by (auto simp: ap_size_list_item_def Let_def split: if_splits)
  have "item_end f s \<le> length s" for f s by (induction s arbitrary: f) auto
  moreover have "suffix rest field"
    unfolding tok(4) tok(1) by (meson suffix_drop suffix_dropWhile suffix_order.trans)
  moreover have "length rest \<le> length tok - len" using tok(4) length_dropWhile_le [of separator "drop len tok"] by simp
  moreover have "length tok \<le> length field" using tok(1) by (simp add: length_dropWhile_le)
  ultimately show ?thesis using tok by (metis diff_less le_less_trans less_le_trans)
qed

function field_items :: "string \<Rightarrow> string list" where
  "field_items field =
     (case ap_size_list_item field of
        (None, rest) \<Rightarrow> []
      | (Some (tok, len), rest) \<Rightarrow> take len tok # field_items rest)"
  by pat_completeness auto
termination
  by (relation "measure length") (auto dest!: sym [of _ "ap_size_list_item _"] size_list_item_shorter)

declare field_items.simps [simp del] find_items.simps [simp del]

lemma skip_idem: "dropWhile separator (dropWhile separator s) = dropWhile separator s"
  by (rule dropWhile_idem)

lemma items_skip:
  "field_items (dropWhile separator s) = field_items s"
  "find_items ty tok a f (dropWhile separator s) = find_items ty tok a f s"
  by (subst (1 2) field_items.simps, simp add: ap_size_list_item_def skip_idem)
     (subst (1 2) find_items.simps, simp add: skip_idem)

lemma etag_start_none: "etag_start AP_ETAG_NONE ptr = Some ptr"
  by (simp add: etag_start_def)

lemma find_items_Nil: "find_items AP_ETAG_NONE tok a f [] = False"
  by (simp add: find_items.simps etag_start_none)

lemma field_items_Nil_iff: "field_items s = [] \<longleftrightarrow> dropWhile separator s = []"
proof (cases "dropWhile separator s = []")
  case False
  then have "0 < item_end no_flags (dropWhile separator s)"
    using item_end_pos [OF peek_skip_separators] by blast
  then show ?thesis using False by (simp add: field_items.simps [of s] ap_size_list_item_def Let_def)
qed (simp add: field_items.simps [of s] ap_size_list_item_def Let_def del: dropWhile_eq_Nil_conv)

lemma find_items_correct:
  assumes "cstring line" "cstring tok" "a \<noteq> 1"
    and "list_all (\<lambda>item. \<not> blank_char (last item)) (butlast (field_items line))"
  shows "find_items AP_ETAG_NONE tok a no_flags line \<longleftrightarrow> list_ex (item_matches tok) (field_items line)"
  using assms
proof (induction "length line" arbitrary: line a rule: less_induct)
  case less
  let ?ptr = "dropWhile separator line"
  let ?len = "item_end no_flags ?ptr"
  show ?case
  proof (cases "?ptr = []")
    case True
    then have "field_items line = []" by (simp only: field_items_Nil_iff)
    moreover have "find_items AP_ETAG_NONE tok a no_flags line = False"
      using items_skip(2) [of AP_ETAG_NONE tok a no_flags line] True by (simp only: find_items_Nil)
    ultimately show ?thesis by simp
  next
    case False
    have sep: "\<not> separator (hd ?ptr)" using False by (rule hd_dropWhile)
    have len: "0 < ?len" using item_end_pos [OF peek_skip_separators False] by simp
    let ?rest = "dropWhile separator (drop ?len ?ptr)"
    have sz: "ap_size_list_item line = (Some (?ptr, ?len), ?rest)"
      using len by (simp add: ap_size_list_item_def Let_def)
    note sh = size_list_item_shorter [OF sz]
    have items: "field_items line = take ?len ?ptr # field_items ?rest"
      using sz by (simp add: field_items.simps [of line])
    obtain a' f' good pos where sc: "find_scan a no_flags (True, tok) ?ptr = ((a', f'), (good, pos), drop ?len ?ptr)"
      using find_scan_rest [of a no_flags "(True, tok)" ?ptr] by (cases "find_scan a no_flags (True, tok) ?ptr") auto
    have cs: "cstring ?ptr" using less.prems(1) by (auto simp: cstring_def dest: set_dropWhileD)
    have fd: "feed (canonical a no_flags ?ptr) (True, tok) = (good, pos)"
      using find_scan_feed [of a no_flags tok ?ptr] sc by simp
    have "canonical a no_flags ?ptr = canonical 0 no_flags (take ?len ?ptr)"
      using canonical_start [OF less.prems(3) False sep] canonical_take [of 0 no_flags ?ptr] by simp
    then have gd: "good \<and> peek pos = NUL \<longleftrightarrow> item_matches tok (take ?len ?ptr)"
      using feed_matches [OF less.prems(2) canonical_no_NUL [OF cs] fd] by (simp add: item_matches_def)
    have unf: "find_items AP_ETAG_NONE tok a no_flags line =
        (if drop ?len ?ptr \<noteq> [] \<and> \<not> item_matches tok (take ?len ?ptr)
         then find_items AP_ETAG_NONE tok a' f' (drop ?len ?ptr) else item_matches tok (take ?len ?ptr))"
      unfolding find_items.simps [of AP_ETAG_NONE tok a no_flags line] etag_start_none option.case if_not_P [OF False]
        sc prod.case Let_def gd ..
    show ?thesis
    proof (cases "field_items ?rest = []")
      case True
      show ?thesis
      proof (cases "drop ?len ?ptr = []")
        case False
        have "?rest = []" using True field_items_Nil_iff [of ?rest] skip_idem by metis
        then have "find_items AP_ETAG_NONE tok a' f' (drop ?len ?ptr) = False"
          using items_skip(2) [of AP_ETAG_NONE tok a' f' "drop ?len ?ptr"] by (simp only: find_items_Nil)
        then show ?thesis using unf items True by simp
      qed (use unf items True in simp)
    next
      case rest: False
      then have "\<not> blank_char (last (take ?len ?ptr))"
        using less.prems(4) items by (simp split: if_splits)
      moreover have "last (take ?len ?ptr) = ?ptr ! (?len - 1)"
        using len sh by (intro last_take_nth) auto
      ultimately have a': "a' \<noteq> 1"
        using find_scan_addspace [of a True no_flags tok ?ptr] sc less.prems(3) len by auto
      have "drop ?len ?ptr \<noteq> []"
        using rest field_items_Nil_iff [of ?rest] by (metis dropWhile.simps(1))
      then have "f' = no_flags" using find_scan_flags [OF sc] by simp
      have "find_items AP_ETAG_NONE tok a' no_flags ?rest \<longleftrightarrow> list_ex (item_matches tok) (field_items ?rest)"
      proof (rule less.hyps)
        show "length ?rest < length line" using sh by blast
        show "cstring ?rest" using cs by (auto simp: cstring_def dest!: set_dropWhileD in_set_dropD)
        show "list_all (\<lambda>item. \<not> blank_char (last item)) (butlast (field_items ?rest))"
          using less.prems(4) items rest by simp
      qed (use a' less.prems(2) in simp_all)
      then show ?thesis using unf items \<open>f' = no_flags\<close> \<open>drop ?len ?ptr \<noteq> []\<close> by (simp add: items_skip(2))
    qed
  qed
qed

section \<open>Properties\<close>

text \<open>
  \<open>ap_get_list_item\<close> stays within its buffer and makes progress. The copy, with its terminating
  NUL, fits the \<open>tok_len + 1\<close> bytes that are allocated; the rest of the field is a suffix, a shorter one
  when an item is returned; no item is returned only if nothing but commas and white space is left.
\<close>

theorem ap_get_list_item_bounds:
  "case ap_get_list_item field of
     (Some (alloc, token), rest) \<Rightarrow> length token + 1 \<le> alloc \<and> suffix rest field \<and> length rest < length field
   | (None, rest) \<Rightarrow> rest = [] \<and> list_all separator field"
proof (cases "ap_size_list_item field")
  case (Pair r rest)
  show ?thesis
  proof (cases r)
    case None
    then have z: "item_end no_flags (dropWhile separator field) = 0" "rest = dropWhile separator field"
      using Pair by (auto simp: ap_size_list_item_def Let_def split: if_splits)
    have d: "dropWhile separator field = []"
    proof (rule ccontr)
      assume "dropWhile separator field \<noteq> []"
      then show False using z(1) item_end_pos [OF peek_skip_separators] by (metis less_numeral_extra(3))
    qed
    then have "\<forall>c\<in>set field. separator c" by (simp only: dropWhile_eq_Nil_conv)
    then show ?thesis using Pair None z(2) d by (simp add: ap_get_list_item_def list_all_iff del: dropWhile_eq_Nil_conv)
  next
    case (Some p)
    obtain tok len where p: "p = (tok, len)" by (cases p)
    then have "length (item_copy 0 no_flags tok) \<le> len"
      using canonical_length [of 0 no_flags tok] size_list_item_shorter Pair Some by (simp add: item_copy_canonical)
    moreover have "suffix rest field" "length rest < length field"
      using size_list_item_shorter [of field tok len rest] Pair Some p by blast+
    ultimately show ?thesis using Pair Some p by (simp add: ap_get_list_item_def)
  qed
qed

text \<open>
  C29: \<open>ap_find_list_item\<close> finds the items of a list. If no item but the last has white space before the
  comma that ends it, a token is found exactly if the canonical form of some item, which is what
  \<open>ap_get_list_item\<close> returns, equals it up to the case of what is not quoted or in a comment.
\<close>

theorem ap_find_list_item_correct:
  assumes "cstring line" "cstring tok"
    and "list_all (\<lambda>item. \<not> blank_char (last item)) (butlast (field_items line))"
  shows "(ap_find_list_item (Some line) (Some tok) \<longleftrightarrow> list_ex (item_matches tok) (field_items line)) \<and>
    (field_items line \<noteq> [] \<longrightarrow>
      (\<exists>alloc. fst (ap_get_list_item line) =
        Some (alloc, map written (canonical 0 no_flags (hd (field_items line))))))"
proof
  show "ap_find_list_item (Some line) (Some tok) \<longleftrightarrow> list_ex (item_matches tok) (field_items line)"
    using find_items_correct [OF assms(1,2), of 0] assms(3)
    by (simp add: ap_find_list_item_def find_list_item_def)
  show "field_items line \<noteq> [] \<longrightarrow>
      (\<exists>alloc. fst (ap_get_list_item line) = Some (alloc, map written (canonical 0 no_flags (hd (field_items line)))))"
  proof
    assume "field_items line \<noteq> []"
    then obtain tok len rest where s: "ap_size_list_item line = (Some (tok, len), rest)"
      by (auto simp: field_items.simps [of line] split: prod.splits option.splits)
    then have "canonical 0 no_flags (take len tok) = canonical 0 no_flags tok"
      using canonical_take [of 0 no_flags tok] size_list_item_shorter by metis
    then show "\<exists>alloc. fst (ap_get_list_item line) = Some (alloc, map written (canonical 0 no_flags (hd (field_items line))))"
      using s by (simp add: ap_get_list_item_def item_copy_canonical field_items.simps [of line])
  qed
qed

lemma tolower_G: "c_tolower (CHR ''G'') = CHR ''g''"
  by code_simp

lemma example_items: "field_items ''Gzip,x'' = [''Gzip'', ''x'']"
  by (simp add: field_items.simps ap_size_list_item_def separator_def in_item_def flags_step_def no_flags_def cclass Let_def)

theorem ap_find_list_item_correct_witness:
  "ap_find_list_item (Some ''Gzip,x'') (Some ''gzip'') = list_ex (item_matches ''gzip'') [''Gzip'', ''x''] \<and>
   item_matches ''gzip'' ''Gzip''"
  using ap_find_list_item_correct [of "''Gzip,x''" "''gzip''"]
  by (simp add: example_items cstring_def blank_char_def item_matches_def emit_char_def in_item_def flags_step_def
      no_flags_def same_char_def tolower_G c_tolower_def [of "CHR ''g''"] cclass Let_def)

text \<open>
  Two ways in which an item of a list is missed. White space before a comma, after an item that is
  a proper prefix of the token, leaves \<open>addspace\<close> set for the next item, which is then not recognised
  although \<open>ap_get_list_item\<close> returns it; and a search for a strong entity tag ends at the first
  item that is not one.
\<close>

theorem find_list_item_misses:
  "ap_get_list_item ''a , ab'' = (Some (3, ''a''), ''ab'') \<and> ap_get_list_item ''ab'' = (Some (3, ''ab''), []) \<and>
   \<not> ap_find_list_item (Some ''a , ab'') (Some ''ab'') \<and> ap_find_list_item (Some ''a, ab'') (Some ''ab'') \<and>
   \<not> ap_find_etag_strong (Some (''W/'' @ [CHR 0x22, CHR ''a'', CHR 0x22, CHR '','', CHR 0x22, CHR ''b'', CHR 0x22]))
       (Some [CHR 0x22, CHR ''b'', CHR 0x22]) \<and>
   ap_find_etag_strong (Some [CHR 0x22, CHR ''a'', CHR 0x22, CHR '','', CHR 0x22, CHR ''b'', CHR 0x22])
       (Some [CHR 0x22, CHR ''b'', CHR 0x22])"
  by (simp add: ap_get_list_item_def ap_size_list_item_def ap_find_list_item_def ap_find_etag_strong_def
      find_list_item_def find_items.simps etag_start_def separator_def in_item_def flags_step_def no_flags_def
      find_char_def item_char_def pending_def eat_def c_tolower_def cclass Let_def)

end
