(* ===== verification/Tokens.thy ===== *)
theory Tokens
  imports Test_Char
begin

text \<open>
  HTTP tokens in header fields, from \<^verbatim>\<open>server/util.c\<close>: \<open>ap_parse_token_list_strict\<close>, \<open>ap_get_token\<close>,
  \<open>ap_find_token\<close>, \<open>ap_find_last_token\<close> and the three scanning functions. \<open>ap_find_token\<close> reads
  bytes beyond the end of its string, so it works on the memory of the string, with the
  terminating NUL as an element of the list; a read beyond that list is the result \<open>None\<close>.
\<close>

abbreviation token_stop :: "char \<Rightarrow> bool" where
  "token_stop c \<equiv> TEST_CHAR c T_HTTP_TOKEN_STOP"

section \<open>Scanning\<close>

text \<open>The loops also stop at the terminating NUL, which is not in the list: see \<open>scan_stops\<close>.\<close>

definition ap_scan_http_field_content :: "string \<Rightarrow> string" where
  "ap_scan_http_field_content ptr = dropWhile (\<lambda>c. \<not> TEST_CHAR c T_HTTP_CTRLS) ptr"

definition ap_scan_http_token :: "string \<Rightarrow> string" where
  "ap_scan_http_token ptr = dropWhile (\<lambda>c. \<not> TEST_CHAR c T_HTTP_TOKEN_STOP) ptr"

definition ap_scan_vchar_obstext :: "string \<Rightarrow> string" where
  "ap_scan_vchar_obstext ptr = dropWhile (\<lambda>c. TEST_CHAR c T_VCHAR_OBSTEXT) ptr"

lemma scan_stops: "TEST_CHAR NUL T_HTTP_CTRLS" "token_stop NUL" "\<not> TEST_CHAR NUL T_VCHAR_OBSTEXT"
  by (simp_all add: TEST_CHAR_simps)

section \<open>One token\<close>

function token_end :: "bool \<Rightarrow> string \<Rightarrow> string" where
  "token_end accept_white [] = []"
| "token_end accept_white (c # ptr) =
     (if (accept_white \<or> \<not> c_isspace c) \<and> c \<noteq> CHR '';'' \<and> c \<noteq> CHR '',''
      then token_end accept_white
             (if c = CHR 0x22 then tl (dropWhile (\<lambda>d. d \<noteq> CHR 0x22) ptr) else ptr)
      else c # ptr)"
  by pat_completeness auto
termination
  by (relation "measure (\<lambda>(_, s). length s)") (auto simp: less_Suc_eq_le intro: le_trans [OF diff_le_self length_dropWhile_le])

definition ap_get_token :: "string \<Rightarrow> bool \<Rightarrow> string \<times> string" where
  "ap_get_token accept_line accept_white =
     (let tok_start = dropWhile c_isspace accept_line;
          ptr = token_end accept_white tok_start
      in (take (length tok_start - length ptr) tok_start, dropWhile c_isspace ptr))"

section \<open>Finding a token\<close>

text \<open>Skipping the stop characters; \<open>None\<close> when that leaves the memory of the string.\<close>

fun skip_stops :: "string \<Rightarrow> string option" where
  "skip_stops [] = None"
| "skip_stops (c # s) = (if token_stop c then skip_stops s else Some (c # s))"

definition token_char :: "char \<Rightarrow> bool" where
  "token_char c \<longleftrightarrow> c \<noteq> NUL \<and> \<not> token_stop c"

lemma skip_stops_props:
  "skip_stops s = Some s' \<Longrightarrow> length s' \<le> length s \<and> s' \<noteq> [] \<and> \<not> token_stop (hd s')"
  by (induction s) (auto split: if_splits)

function find_token_loop :: "string \<Rightarrow> string \<Rightarrow> bool option" where
  "find_token_loop s tok =
     (case skip_stops s of
        None \<Rightarrow> None
      | Some start_token \<Rightarrow>
          if hd start_token = NUL then Some False
          else let rest = dropWhile token_char start_token
               in if rest = [] then None
                  else if strncaseeq start_token tok (length start_token - length rest) then Some True
                  else if hd rest = NUL then Some False
                  else find_token_loop rest tok)"
  by pat_completeness auto
termination
proof (relation "measure (\<lambda>(s, _). length s)", simp, goal_cases)
  case (1 s tok x rest)
  then have "token_char (hd x)" "length x \<le> length s" "x \<noteq> []"
    using skip_stops_props [of s x] by (auto simp: token_char_def)
  moreover have "dropWhile token_char x = dropWhile token_char (tl x)" "length (tl x) < length x"
    using calculation by (cases x; simp)+
  ultimately have "length (dropWhile token_char x) < length s"
    using length_dropWhile_le [of token_char "tl x"] by (metis le_less_trans less_le_trans)
  then show ?case using 1 by simp
qed

definition ap_find_token :: "string option \<Rightarrow> string \<Rightarrow> bool option" where
  "ap_find_token line tok = (case line of None \<Rightarrow> Some False | Some s \<Rightarrow> find_token_loop s tok)"

definition ap_find_last_token :: "string option \<Rightarrow> string \<Rightarrow> bool" where
  "ap_find_last_token line tok =
     (case line of
        None \<Rightarrow> False
      | Some line \<Rightarrow>
          let lidx = int (length line) - int (length tok)
          in if lidx < 0 \<or> (lidx > 0 \<and> \<not> (c_isspace (at line (nat lidx - 1)) \<or> at line (nat lidx - 1) = CHR '',''))
             then False
             else strncaseeq (drop (nat lidx) line) tok (length tok))"

section \<open>A list of tokens\<close>

datatype token_error = Illegal_Whitespace | Illegal_Separator char

text \<open>
  The loop of \<open>ap_parse_token_list_strict\<close>. \<open>tok\<close> is the text from \<open>tok_begin\<close> up to \<open>cur\<close>; the tokens that have
  been pushed are returned together with the error message, if any.
\<close>

definition push_token :: "string \<Rightarrow> bool \<Rightarrow> nat \<Rightarrow> string list \<Rightarrow> string list" where
  "push_token tok in_leading_space in_trailing_space tokens =
     (if \<not> in_leading_space then tokens @ [take (length tok - in_trailing_space) tok] else tokens)"

function token_list_loop :: "bool \<Rightarrow> string \<Rightarrow> bool \<Rightarrow> nat \<Rightarrow> string list \<Rightarrow> string
    \<Rightarrow> token_error option \<times> string list" where
  "token_list_loop skip_invalid tok lead trail tokens [] = (None, push_token tok lead trail tokens)"
| "token_list_loop skip_invalid tok lead trail tokens (c # cur) =
     (if \<not> token_stop c then
        (if trail \<noteq> 0 then (Some Illegal_Whitespace, tokens)
         else token_list_loop skip_invalid (tok @ [c]) False trail tokens cur)
      else if c = CHR '' '' \<or> c = CHR 0x09 then
        (if lead then token_list_loop skip_invalid tok lead trail tokens cur
         else token_list_loop skip_invalid (tok @ [c]) lead (trail + 1) tokens cur)
      else if c = CHR '','' then
        token_list_loop skip_invalid [] True 0 (push_token tok lead trail tokens) cur
      else if skip_invalid then
        token_list_loop skip_invalid (tok @ takeWhile (\<lambda>d. d \<noteq> CHR '','') (c # cur)) True 0 tokens
          (dropWhile (\<lambda>d. d \<noteq> CHR '','') (c # cur))
      else (Some (Illegal_Separator c), tokens))"
  by pat_completeness auto
termination
  by (relation "measure (\<lambda>(_, _, _, _, _, s). length s)") (auto simp: length_dropWhile_le le_imp_less_Suc)

definition ap_parse_token_list_strict ::
  "string option \<Rightarrow> string list \<Rightarrow> bool \<Rightarrow> token_error option \<times> string list" where
  "ap_parse_token_list_strict str_in tokens skip_invalid =
     (case str_in of
        None \<Rightarrow> (None, tokens)
      | Some s \<Rightarrow> token_list_loop skip_invalid [] True 0 tokens s)"

section \<open>The tokens of a line\<close>

function line_tokens :: "string \<Rightarrow> string list" where
  "line_tokens s =
     (let d = dropWhile token_stop s
      in if d = [] then [] else takeWhile token_char d # line_tokens (dropWhile token_char d))"
  by pat_completeness auto
termination
proof (relation "measure length", simp, goal_cases)
  case (1 s d)
  then have "\<not> token_stop (hd d)" using hd_dropWhile by blast
  then have "token_char (hd d)" using scan_stops(2) by (metis token_char_def)
  then have "dropWhile token_char d = dropWhile token_char (tl d)" using 1(2) by (cases d) auto
  then have "length (dropWhile token_char d) < length d"
    using 1(2) length_dropWhile_le [of token_char "tl d"] by (cases d) (auto simp: less_Suc_eq_le)
  then show ?case using 1(1) length_dropWhile_le [of token_stop s] by simp
qed

declare line_tokens.simps [simp del] find_token_loop.simps [simp del]

lemma token_char_iff: "token_char c \<longleftrightarrow> \<not> token_stop c"
  using scan_stops(2) by (auto simp: token_char_def)

lemma skip_stops_append:
  "skip_stops (line @ [NUL]) =
   (if dropWhile token_stop line = [] then None else Some (dropWhile token_stop line @ [NUL]))"
  by (induction line) (auto simp: scan_stops)

lemma drop_token_append: "dropWhile token_char (d @ [NUL]) = dropWhile token_char d @ [NUL]"
  by (induction d) (auto simp: token_char_def)

text \<open>A token of the line is found if the token looked for begins with it.\<close>

definition token_found :: "string \<Rightarrow> string \<Rightarrow> bool" where
  "token_found tok t \<longleftrightarrow> str_lower t = str_lower (take (length t) tok)"

lemma find_token_line:
  "cstring line \<Longrightarrow> find_token_loop (line @ [NUL]) tok =
   (if list_ex (token_found tok) (line_tokens line) then Some True
    else if line = [] \<or> token_stop (last line) then None else Some False)"
proof (induction line rule: line_tokens.induct)
  case (1 line)
  let ?d = "dropWhile token_stop line"
  let ?rest = "dropWhile token_char ?d"
  show ?case
  proof (cases "?d = []")
    case True
    then have "\<forall>c\<in>set line. token_stop c" by (simp only: dropWhile_eq_Nil_conv)
    then have "line = [] \<or> token_stop (last line)" using last_in_set by blast
    then show ?thesis
      unfolding find_token_loop.simps [of "line @ [NUL]"] line_tokens.simps [of line] skip_stops_append Let_def
        if_P [OF True] by simp
  next
    case False
    have ll: "last line = last ?d" "line \<noteq> []" using False by (auto simp: last_dropWhile simp del: dropWhile_eq_Nil_conv)
    have hd: "hd (?d @ [NUL]) \<noteq> NUL"
      using False hd_dropWhile [OF False] scan_stops(2) by (metis hd_append2)
    have cs: "cstring ?rest" using 1(2) by (auto simp: cstring_def dest!: set_dropWhileD)
    have "length (?d @ [NUL]) - length (?rest @ [NUL]) = length (takeWhile token_char ?d)"
      by (metis add_diff_cancel_right' diff_cancel2 length_append takeWhile_dropWhile_id)
    moreover have "take (length (takeWhile token_char ?d)) (?d @ [NUL]) = takeWhile token_char ?d"
      by (metis append_eq_conv_conj append_assoc takeWhile_dropWhile_id)
    ultimately have eq: "strncaseeq (?d @ [NUL]) tok (length (?d @ [NUL]) - length (?rest @ [NUL])) =
        token_found tok (takeWhile token_char ?d)"
      by (simp only: strncaseeq_def token_found_def)
    have toks: "line_tokens line = takeWhile token_char ?d # line_tokens ?rest"
      unfolding line_tokens.simps [of line] Let_def if_not_P [OF False] ..
    have unf: "find_token_loop (line @ [NUL]) tok =
        (if token_found tok (takeWhile token_char ?d) then Some True
         else if hd (?rest @ [NUL]) = NUL then Some False else find_token_loop (?rest @ [NUL]) tok)"
      unfolding find_token_loop.simps [of "line @ [NUL]"] skip_stops_append if_not_P [OF False] option.case
        if_not_P [OF hd] Let_def drop_token_append eq by simp
    show ?thesis
    proof (cases "?rest = []")
      case True
      then have "\<forall>c\<in>set ?d. token_char c" by (simp only: dropWhile_eq_Nil_conv)
      then have "\<not> token_stop (last line)" using ll False last_in_set token_char_iff by metis
      moreover have "line_tokens [] = []" by (simp add: line_tokens.simps)
      ultimately show ?thesis using unf toks ll True by (simp del: dropWhile_eq_Nil_conv)
    next
      case r: False
      then have "hd (?rest @ [NUL]) \<noteq> NUL" using cs by (cases ?rest) auto
      moreover have "last ?rest = last line" using last_dropWhile [OF r] ll(1) by simp
      moreover have "find_token_loop (?rest @ [NUL]) tok =
          (if list_ex (token_found tok) (line_tokens ?rest) then Some True
           else if ?rest = [] \<or> token_stop (last ?rest) then None else Some False)"
        by (rule 1(1) [OF refl False cs])
      ultimately show ?thesis using unf toks ll(2) r by (simp del: dropWhile_eq_Nil_conv)
    qed
  qed
qed

section \<open>The elements of a token list\<close>

definition ows_char :: "char \<Rightarrow> bool" where
  "ows_char c \<longleftrightarrow> c = CHR '' '' \<or> c = CHR 0x09"

fun split_commas :: "string \<Rightarrow> string list" where
  "split_commas [] = [[]]"
| "split_commas (c # s) = (if c = CHR '','' then [] # split_commas s
     else (c # hd (split_commas s)) # tl (split_commas s))"

text \<open>The token of an element, and whether the element is a token, possibly empty, between blanks.\<close>

definition elem_token :: "string \<Rightarrow> string" where
  "elem_token x = takeWhile token_char (dropWhile ows_char x)"

definition elem_ok :: "string \<Rightarrow> bool" where
  "elem_ok x \<longleftrightarrow> dropWhile ows_char (dropWhile token_char (dropWhile ows_char x)) = []"

definition list_tokens :: "string \<Rightarrow> string list" where
  "list_tokens s = filter (\<lambda>t. t \<noteq> []) (map elem_token (split_commas s))"

lemma split_commas_not_Nil [simp]: "split_commas s \<noteq> []"
  by (cases s) auto

lemma split_commas_append:
  "CHR '','' \<notin> set x \<Longrightarrow> split_commas (x @ s) = (x @ hd (split_commas s)) # tl (split_commas s)"
  by (induction x) auto

lemma stop_chars: "token_stop (CHR '','')" "token_stop (CHR '' '')" "token_stop (CHR 0x09)"
  by (simp_all add: TEST_CHAR_simps cclass has_chr_iff token_chars_def)

lemma ows_stop: "ows_char c \<Longrightarrow> token_stop c \<and> c \<noteq> CHR '',''"
  using stop_chars by (auto simp: ows_char_def)

text \<open>The text since \<open>tok_begin\<close>: nothing in the leading space, else a token and \<open>trail\<close> blanks.\<close>

definition tok_state :: "string \<Rightarrow> bool \<Rightarrow> nat \<Rightarrow> bool" where
  "tok_state tok lead trail \<longleftrightarrow>
     (if lead then tok = [] \<and> trail = 0
      else \<exists>t b. tok = t @ b \<and> t \<noteq> [] \<and> list_all token_char t \<and> list_all ows_char b \<and> length b = trail)"

lemma ows_not_token: "ows_char c \<Longrightarrow> \<not> token_char c"
  by (simp add: token_char_iff ows_stop)

lemma elem_scan:
  assumes "t \<noteq> []" "list_all token_char t" "list_all ows_char b" "r = [] \<or> \<not> token_char (hd r) \<or> b \<noteq> []"
  shows "takeWhile token_char (dropWhile ows_char (t @ b @ r)) = t"
    and "dropWhile token_char (dropWhile ows_char (t @ b @ r)) = b @ r"
proof -
  have "\<not> ows_char (hd t)" using assms(1,2) ows_not_token by (cases t) auto
  then have d: "dropWhile ows_char (t @ b @ r) = t @ b @ r" using assms(1) by (simp add: dropWhile_eq_self_iff)
  have "b @ r = [] \<or> \<not> token_char (hd (b @ r))"
    using assms(3,4) ows_not_token by (cases b) auto
  then have "takeWhile token_char (t @ b @ r) = t \<and> dropWhile token_char (t @ b @ r) = b @ r"
    using assms(2) by (intro takeWhile_dropWhile_unique) (auto simp: list_all_iff)
  then show "takeWhile token_char (dropWhile ows_char (t @ b @ r)) = t"
    "dropWhile token_char (dropWhile ows_char (t @ b @ r)) = b @ r" using d by auto
qed

lemma skip_ows: "list_all ows_char b \<Longrightarrow> dropWhile ows_char (b @ r) = dropWhile ows_char r"
  by (simp add: list_all_iff)

text \<open>An element is finished: what has been pushed is its token.\<close>

lemma push_state:
  assumes "tok_state tok lead trail"
  shows "elem_ok tok" "push_token tok lead trail tokens = tokens @ filter (\<lambda>t. t \<noteq> []) [elem_token tok]"
    "CHR '','' \<notin> set tok"
proof -
  have "elem_ok tok \<and> push_token tok lead trail tokens = tokens @ filter (\<lambda>t. t \<noteq> []) [elem_token tok] \<and>
      CHR '','' \<notin> set tok"
  proof (cases lead)
    case True
    then show ?thesis using assms by (simp add: tok_state_def elem_ok_def elem_token_def push_token_def)
  next
    case False
    then obtain t b where t: "tok = t @ b" "t \<noteq> []" "list_all token_char t" "list_all ows_char b" "length b = trail"
      using assms by (auto simp: tok_state_def)
    have "CHR '','' \<notin> set t" using t(3) stop_chars(1) by (auto simp: list_all_iff token_char_iff)
    moreover have "CHR '','' \<notin> set b" using t(4) ows_stop by (auto simp: list_all_iff)
    moreover have "dropWhile ows_char b = []" using t(4) skip_ows [of b "[]"] by simp
    ultimately show ?thesis
      using False elem_scan [OF t(2-4), of "[]"] t by (simp add: elem_ok_def elem_token_def push_token_def)
  qed
  then show "elem_ok tok" "push_token tok lead trail tokens = tokens @ filter (\<lambda>t. t \<noteq> []) [elem_token tok]"
    "CHR '','' \<notin> set tok" by auto
qed

text \<open>An element goes wrong at a character that is no separator.\<close>

lemma elem_bad:
  assumes "tok_state tok lead trail" "\<not> ows_char c" "token_char c \<longrightarrow> trail \<noteq> 0"
  shows "\<not> elem_ok (tok @ c # r)"
proof (cases lead)
  case True
  then have "tok = []" "\<not> token_char c" using assms by (auto simp: tok_state_def)
  then show ?thesis using assms(2) by (simp add: elem_ok_def)
next
  case False
  then obtain t b where t: "tok = t @ b" "t \<noteq> []" "list_all token_char t" "list_all ows_char b" "length b = trail"
    using assms(1) by (auto simp: tok_state_def)
  then have "dropWhile token_char (dropWhile ows_char (tok @ c # r)) = b @ c # r"
    using elem_scan(2) [OF t(2-4), of "c # r"] assms(3) by auto
  then show ?thesis using skip_ows [OF t(4), of "c # r"] assms(2) by (simp add: elem_ok_def)
qed

text \<open>The two ways in which the text since \<open>tok_begin\<close> grows.\<close>

lemma tok_state_token: "tok_state tok lead 0 \<Longrightarrow> token_char c \<Longrightarrow> tok_state (tok @ [c]) False 0"
  by (cases lead) (force simp: tok_state_def)+

lemma tok_state_blank:
  assumes "tok_state tok False trail" "ows_char c" shows "tok_state (tok @ [c]) False (trail + 1)"
proof -
  obtain t b where "tok = t @ b" "t \<noteq> []" "list_all token_char t" "list_all ows_char b" "length b = trail"
    using assms(1) by (auto simp: tok_state_def)
  then have "tok @ [c] = t @ (b @ [c])" "t \<noteq> []" "list_all token_char t" "list_all ows_char (b @ [c])"
    "length (b @ [c]) = trail + 1" using assms(2) by auto
  then show ?thesis unfolding tok_state_def by (simp only: if_False) blast
qed

lemma token_list_loop_correct:
  "tok_state tok lead trail \<Longrightarrow>
   (let r = token_list_loop False tok lead trail tokens s
    in (fst r = None \<longleftrightarrow> list_all elem_ok (split_commas (tok @ s))) \<and>
       (fst r = None \<longrightarrow> snd r = tokens @ list_tokens (tok @ s)))"
proof (induction s arbitrary: tok lead trail tokens)
  case Nil
  note p = push_state [OF Nil]
  then have "split_commas (tok @ []) = [tok]" using split_commas_append [of tok "[]"] by simp
  then show ?case using p by (simp add: list_tokens_def)
next
  case (Cons c s)
  note p = push_state [OF Cons.prems]
  let ?go = "\<lambda>tok lead trail tokens. (let r = token_list_loop False tok lead trail tokens s
    in (fst r = None \<longleftrightarrow> list_all elem_ok (split_commas (tok @ s))) \<and>
       (fst r = None \<longrightarrow> snd r = tokens @ list_tokens (tok @ s)))"
  have first: "CHR '','' \<noteq> c \<Longrightarrow> split_commas (tok @ c # s) = (tok @ c # hd (split_commas s)) # tl (split_commas s)"
    using split_commas_append [of "tok @ [c]" s] p(3) by simp
  consider (tok) "token_char c" | (blank) "ows_char c" | (comma) "c = CHR '',''"
    | (bad) "\<not> token_char c" "\<not> ows_char c" "c \<noteq> CHR '',''" by blast
  then show ?case
  proof cases
    case tok
    show ?thesis
    proof (cases "trail = 0")
      case True
      have "tok_state (tok @ [c]) False 0" using Cons.prems tok True tok_state_token by blast
      then have "?go (tok @ [c]) False 0 tokens" by (rule Cons.IH)
      then show ?thesis using tok True by (simp add: token_char_iff)
    next
      case False
      have "\<not> elem_ok (tok @ c # hd (split_commas s))"
        using elem_bad [OF Cons.prems] ows_not_token tok False by blast
      moreover have "c \<noteq> CHR '',''" using tok stop_chars(1) token_char_iff by auto
      ultimately show ?thesis using tok False first by (simp add: token_char_iff)
    qed
  next
    case blank
    then have c: "token_stop c" "c \<noteq> CHR '',''" "c = CHR '' '' \<or> c = CHR 0x09"
      using ows_stop by (auto simp: ows_char_def)
    show ?thesis
    proof (cases lead)
      case True
      then have st: "tok = []" "trail = 0" "tok_state [] True 0" using Cons.prems by (auto simp: tok_state_def)
      have "?go [] True 0 tokens" by (rule Cons.IH [OF st(3)])
      moreover have "elem_ok (c # x) = elem_ok x" "elem_token (c # x) = elem_token x" for x
        using blank by (simp_all add: elem_ok_def elem_token_def)
      ultimately show ?thesis using True st c first
        by (cases "split_commas s") (simp_all add: list_tokens_def Let_def)
    next
      case False
      then have "tok_state (tok @ [c]) False (trail + 1)" using Cons.prems blank tok_state_blank by simp
      then have "?go (tok @ [c]) False (trail + 1) tokens" by (rule Cons.IH)
      then show ?thesis using c False by simp
    qed
  next
    case comma
    have "tok_state [] True 0" by (simp add: tok_state_def)
    then have "?go [] True 0 (push_token tok lead trail tokens)" by (rule Cons.IH)
    moreover have "split_commas (tok @ CHR '','' # s) = tok # split_commas s"
      using split_commas_append [OF p(3), of "CHR '','' # s"] by simp
    moreover have "CHR '','' \<noteq> CHR '' ''" "CHR '','' \<noteq> CHR 0x09" by simp_all
    ultimately show ?thesis using p stop_chars(1) unfolding comma
      by (simp add: list_tokens_def Let_def)
  next
    case bad
    then have "\<not> elem_ok (tok @ c # hd (split_commas s))" using elem_bad [OF Cons.prems] by blast
    then show ?thesis using bad first by (simp add: token_char_iff ows_char_def)
  qed
qed

definition good_tokens :: "string list \<Rightarrow> bool" where
  "good_tokens ts \<longleftrightarrow> list_all (\<lambda>t. t \<noteq> [] \<and> list_all token_char t) ts"

lemma push_good:
  assumes "tok_state tok lead trail \<or> lead" "good_tokens tokens"
  shows "good_tokens (push_token tok lead trail tokens)"
proof (cases lead)
  case False
  then obtain t b where t: "tok = t @ b" "t \<noteq> []" "list_all token_char t" "list_all ows_char b" "length b = trail"
    using assms by (auto simp: tok_state_def)
  then have "elem_token tok = t" using elem_scan(1) [OF t(2-4), of "[]"] by (simp add: elem_token_def)
  then show ?thesis
    using push_state(2) [of tok lead trail tokens] assms False t by (simp add: good_tokens_def)
qed (use assms in \<open>simp add: push_token_def\<close>)

lemma token_list_loop_tokens:
  "tok_state tok lead trail \<or> lead \<and> (s = [] \<or> hd s = CHR '','') \<Longrightarrow> good_tokens tokens \<Longrightarrow>
   good_tokens (snd (token_list_loop skip tok lead trail tokens s))"
proof (induction skip tok lead trail tokens s rule: token_list_loop.induct)
  case (1 skip tok lead trail tokens)
  then show ?case using push_good by auto
next
  case (2 skip tok lead trail tokens c s)
  have st: "tok_state tok lead trail" if "c \<noteq> CHR '',''" using 2(6) that by simp
  have start: "tok_state [] True 0" by (simp add: tok_state_def)
  consider (tok) "token_char c" | (blank) "ows_char c" | (comma) "c = CHR '',''"
    | (bad) "\<not> token_char c" "\<not> ows_char c" "c \<noteq> CHR '',''" by blast
  then show ?case
  proof cases
    case tok
    then have ns: "\<not> token_stop c" "c \<noteq> CHR '',''" using stop_chars(1) token_char_iff by auto
    then show ?thesis
      using 2(1) [OF ns(1)] 2(7) tok_state_token [of tok lead c] st tok by (cases "trail = 0") auto
  next
    case blank
    then have c: "\<not> \<not> token_stop c" "c \<noteq> CHR '',''" "c = CHR '' '' \<or> c = CHR 0x09"
      using ows_stop by (auto simp: ows_char_def)
    show ?thesis
    proof (cases lead)
      case True
      then show ?thesis using 2(2) [OF c(1,3) True] 2(7) st [OF c(2)] c by simp
    next
      case False
      then show ?thesis
        using 2(3) [OF c(1,3) False] 2(7) st [OF c(2)] tok_state_blank blank c by simp
    qed
  next
    case comma
    have c: "\<not> \<not> token_stop c" "\<not> (c = CHR '' '' \<or> c = CHR 0x09)" using comma stop_chars(1) by auto
    have "good_tokens (push_token tok lead trail tokens)" using push_good 2(6,7) by blast
    then show ?thesis using 2(4) [OF c comma] start c comma by simp
  next
    case bad
    then have c: "\<not> \<not> token_stop c" "\<not> (c = CHR '' '' \<or> c = CHR 0x09)"
      by (auto simp: token_char_iff ows_char_def)
    let ?r = "dropWhile (\<lambda>d. d \<noteq> CHR '','') (c # s)"
    have "?r = [] \<or> hd ?r = CHR '',''" using hd_dropWhile [of "\<lambda>d. d \<noteq> CHR '',''" "c # s"] by blast
    then show ?thesis using 2(5) [OF c bad(3)] 2(7) c bad(3) by (cases skip) auto
  qed
qed

section \<open>Properties\<close>

text \<open>
  C30: \<open>ap_parse_token_list_strict\<close> parses lists of tokens. Without \<open>skip_invalid\<close> it succeeds exactly if
  every element between commas is a token or empty, up to blanks around it, and then appends the non-empty
  tokens in their order. In either mode, and also when it reports an error, everything it appends is a
  non-empty sequence of token characters.
\<close>

theorem token_list_strict_correct:
  "(fst (ap_parse_token_list_strict (Some s) tokens False) = None \<longleftrightarrow> list_all elem_ok (split_commas s)) \<and>
   (list_all elem_ok (split_commas s) \<longrightarrow>
      snd (ap_parse_token_list_strict (Some s) tokens False) = tokens @ list_tokens s) \<and>
   (good_tokens tokens \<longrightarrow> good_tokens (snd (ap_parse_token_list_strict (Some s) tokens skip_invalid)))"
proof -
  have st: "tok_state [] True 0" by (simp add: tok_state_def)
  show ?thesis
    using token_list_loop_correct [OF st, of tokens s] token_list_loop_tokens [of "[]" True 0 s tokens skip_invalid] st
    unfolding ap_parse_token_list_strict_def option.case Let_def append_Nil by blast
qed

lemma token_chars_a: "token_char (CHR ''a'')" "\<not> token_char (CHR '' '')" "\<not> token_char (CHR '','')"
  using stop_chars by (simp_all add: token_char_iff) (simp add: TEST_CHAR_simps cclass)

theorem token_list_strict_correct_witness:
  "snd (ap_parse_token_list_strict (Some '' a ,,a'') [] False) = [''a'', ''a''] \<and>
   good_tokens (snd (ap_parse_token_list_strict (Some ''a a'') [] True))"
  using token_list_strict_correct [of "'' a ,,a''" "[]" False] token_list_strict_correct [of "''a a''" "[]" True]
  by (simp add: elem_ok_def elem_token_def list_tokens_def ows_char_def token_chars_a) (simp add: good_tokens_def)

text \<open>
  What \<open>ap_find_token\<close> does on a string in exactly the memory it needs. It reports success if some
  token of the line is, up to case, a prefix of the token looked for; otherwise it reports failure if
  the line ends in a token, but on an empty line and on a line that ends in a stop character it reads
  beyond the terminating NUL, because NUL is itself a stop character.
\<close>

theorem ap_find_token_overread:
  assumes "cstring line"
  shows "ap_find_token (Some (line @ [NUL])) tok =
    (if list_ex (token_found tok) (line_tokens line) then Some True
     else if line = [] \<or> TEST_CHAR (last line) T_HTTP_TOKEN_STOP then None else Some False)"
  using find_token_line [OF assms] by (simp add: ap_find_token_def)

theorem ap_find_token_overread_witness:
  "ap_find_token (Some ([] @ [NUL])) ''close'' = None \<and>
   ap_find_token (Some ('','' @ [NUL])) ''close'' = None \<and>
   ap_find_token (Some (''a'' @ [NUL])) ''a-longer-token'' = Some True"
proof -
  have "line_tokens [] = []" "line_tokens '','' = []" "line_tokens ''a'' = [''a'']"
    using stop_chars(1) token_chars_a(1) by (simp_all add: line_tokens.simps token_char_iff)
  then show ?thesis
    using ap_find_token_overread [of "[]" "''close''"] ap_find_token_overread [of "'',''" "''close''"]
      ap_find_token_overread [of "''a''" "''a-longer-token''"] stop_chars(1)
    by (simp add: token_found_def)
qed

end
