(* ===== verification/Chunked.thy ===== *)
theory Chunked
  imports Tokens
begin

unbundle bit_operations_syntax

text \<open>
  The chunked transfer coding in both directions: the output filter \<open>ap_http_chunk_filter\<close> of
  \<^verbatim>\<open>modules/http/chunk_filter.c\<close> and the input filter of \<^verbatim>\<open>modules/http/http_filters.c\<close> with its parser of
  chunk-size lines, \<open>parse_chunk_size\<close>. \<open>apr_off_t\<close> is a signed 64-bit integer and is modelled as a
  64-bit word read with \<open>sint\<close>; the 32-bit counters are 32-bit words.
\<close>

abbreviation CR :: char where "CR \<equiv> CHR 0x0D"
abbreviation LF :: char where "LF \<equiv> CHR 0x0A"
abbreviation (input) CRLF :: string where "CRLF \<equiv> [CR, LF]"

section \<open>The context of the input filter\<close>

datatype body_state =
    BODY_NONE | BODY_LENGTH | BODY_CHUNK | BODY_CHUNK_PART | BODY_CHUNK_EXT | BODY_CHUNK_CR
  | BODY_CHUNK_LF | BODY_CHUNK_DATA | BODY_CHUNK_END | BODY_CHUNK_END_LF | BODY_CHUNK_TRAILER

record http_ctx =
  remaining :: "64 word"
  limit :: "64 word"
  limit_used :: "64 word"
  chunk_used :: "32 word"
  chunk_bws :: "32 word"
  chunkbits :: "32 word"
  body_state :: body_state
  eos_sent :: bool

section \<open>Chunk-size lines\<close>

definition chunk_digit :: "char \<Rightarrow> nat option" where
  "chunk_digit c =
     (if 48 \<le> ord c \<and> ord c \<le> 57 then Some (ord c - 48)
      else if 65 \<le> ord c \<and> ord c \<le> 70 then Some (ord c - 65 + 10)
      else if 97 \<le> ord c \<and> ord c \<le> 102 then Some (ord c - 97 + 10)
      else None)"

text \<open>A digit of the size, in the state \<open>BODY_CHUNK_PART\<close>.\<close>

definition chunk_part_char :: "char \<Rightarrow> http_ctx \<Rightarrow> apr_status + http_ctx" where
  "chunk_part_char c ctx =
     (if remaining ctx = 0 \<and> c = CHR ''0'' then Inr ctx
      else let bits = chunkbits ctx - 4
           in if sint bits < 0 then Inl APR_ENOSPC
              else case chunk_digit c of
                None \<Rightarrow> Inl APR_EINVAL
              | Some xvalue \<Rightarrow>
                  let rem = push_bit 4 (remaining ctx) OR of_nat xvalue
                  in if sint rem < 0 then Inl APR_ENOSPC
                     else Inr (ctx\<lparr>chunkbits := bits, remaining := rem\<rparr>))"

text \<open>The rest of the loop body, once the size line has begun.\<close>

definition chunk_line_char :: "bool \<Rightarrow> char \<Rightarrow> http_ctx \<Rightarrow> apr_status + http_ctx" where
  "chunk_line_char strict c ctx =
     (if c = LF then
        (if strict \<and> body_state ctx \<noteq> BODY_CHUNK_LF then Inl APR_EINVAL
         else Inr (ctx\<lparr>body_state := (if remaining ctx \<noteq> 0 then BODY_CHUNK_DATA else BODY_CHUNK_TRAILER)\<rparr>))
      else if body_state ctx = BODY_CHUNK_LF then Inl APR_EINVAL
      else if c = CR then Inr (ctx\<lparr>body_state := BODY_CHUNK_LF\<rparr>)
      else if c = CHR '';'' then Inr (ctx\<lparr>body_state := BODY_CHUNK_EXT\<rparr>)
      else if body_state ctx = BODY_CHUNK_EXT then
        (if c \<noteq> CHR 0x09 \<and> c_iscntrl c then Inl APR_EINVAL else Inr ctx)
      else if c = CHR '' '' \<or> c = CHR 0x09 then
        (let bws = chunk_bws ctx + 1
         in if sint bws > 10 then Inl APR_EINVAL
            else Inr (ctx\<lparr>body_state := BODY_CHUNK_CR, chunk_bws := bws\<rparr>))
      else if body_state ctx = BODY_CHUNK_CR then Inl APR_EINVAL
      else if body_state ctx = BODY_CHUNK_PART then chunk_part_char c ctx
      else Inl APR_EGENERAL)"

definition parse_chunk_char :: "bool \<Rightarrow> char \<Rightarrow> http_ctx \<Rightarrow> apr_status + http_ctx" where
  "parse_chunk_char strict c ctx =
     (if body_state ctx = BODY_CHUNK_END \<or> body_state ctx = BODY_CHUNK_END_LF then
        (if c = LF then
           (if strict \<and> body_state ctx \<noteq> BODY_CHUNK_END_LF then Inl APR_EINVAL
            else Inr (ctx\<lparr>body_state := BODY_CHUNK\<rparr>))
         else if c = CR \<and> body_state ctx = BODY_CHUNK_END then Inr (ctx\<lparr>body_state := BODY_CHUNK_END_LF\<rparr>)
         else Inl APR_EINVAL)
      else if body_state ctx = BODY_CHUNK then
        (if \<not> c_isxdigit c then Inl APR_EINVAL
         else chunk_line_char strict c
                (ctx\<lparr>body_state := BODY_CHUNK_PART, remaining := 0, chunkbits := 64, chunk_used := 0, chunk_bws := 0\<rparr>))
      else chunk_line_char strict c ctx)"

fun parse_chunk_loop :: "bool \<Rightarrow> string \<Rightarrow> http_ctx \<Rightarrow> apr_status + http_ctx" where
  "parse_chunk_loop strict [] ctx = Inr ctx"
| "parse_chunk_loop strict (c # buffer) ctx =
     (case parse_chunk_char strict c ctx of
        Inl rv \<Rightarrow> Inl rv
      | Inr ctx' \<Rightarrow> parse_chunk_loop strict buffer ctx')"

definition parse_chunk_size :: "http_ctx \<Rightarrow> string \<Rightarrow> int \<Rightarrow> bool \<Rightarrow> apr_status + http_ctx" where
  "parse_chunk_size ctx buffer linelimit strict =
     (case parse_chunk_loop strict buffer ctx of
        Inl rv \<Rightarrow> Inl rv
      | Inr ctx' \<Rightarrow>
          let used = chunk_used ctx' + of_nat (length buffer)
          in if sint used < 0 \<or> sint used > linelimit then Inl APR_ENOSPC
             else Inr (ctx'\<lparr>chunk_used := used\<rparr>))"

section \<open>Reading the body\<close>

text \<open>\<open>bail_out_on_error\<close>: the status for a proxied response, or an error bucket for a request.\<close>

datatype bail_out = Return_Status apr_status | Error_Bucket int

definition bail_out_on_error :: "bool \<Rightarrow> int \<Rightarrow> bail_out" where
  "bail_out_on_error proxy_response http_error =
     (if proxy_response then
        Return_Status (if http_error = HTTP_REQUEST_ENTITY_TOO_LARGE then APR_ENOSPC
                       else if http_error = 501 then APR_ENOTIMPL else APR_EGENERAL)
      else Error_Bucket http_error)"

text \<open>
  The part of \<open>ap_http_filter\<close> that handles one line in the chunk states, and the part that handles
  the bytes read in the states \<open>BODY_NONE\<close>, \<open>BODY_LENGTH\<close> and \<open>BODY_CHUNK_DATA\<close>; an error is the status
  for \<open>bail_out_on_error\<close>.
\<close>

definition body_line :: "bool \<Rightarrow> int \<Rightarrow> string \<Rightarrow> http_ctx \<Rightarrow> int + http_ctx" where
  "body_line strict linelimit buffer ctx =
     (case parse_chunk_size ctx buffer linelimit strict of
        Inl rv \<Rightarrow> Inl (if rv \<noteq> APR_ENOSPC then HTTP_BAD_REQUEST else HTTP_REQUEST_ENTITY_TOO_LARGE)
      | Inr ctx' \<Rightarrow> Inr ctx')"

definition body_readbytes :: "http_ctx \<Rightarrow> 64 word \<Rightarrow> 64 word" where
  "body_readbytes ctx readbytes =
     (if body_state ctx \<noteq> BODY_NONE \<and> sint (remaining ctx) < sint readbytes then remaining ctx else readbytes)"

definition body_data :: "nat \<Rightarrow> http_ctx \<Rightarrow> int + http_ctx" where
  "body_data totalread ctx =
     (let ctx1 =
        (if body_state ctx \<noteq> BODY_NONE then
           let rem = remaining ctx - of_nat totalread;
               ctx0 = ctx\<lparr>remaining := rem\<rparr>
           in if sint rem > 0 then ctx0
              else if body_state ctx = BODY_CHUNK_DATA
                   then ctx0\<lparr>body_state := BODY_CHUNK_END, chunk_used := 0\<rparr> else ctx0
         else ctx)
      in if limit ctx1 \<noteq> 0 then
           let used = limit_used ctx1 + of_nat totalread
           in if sint (limit ctx1) < sint used then Inl HTTP_REQUEST_ENTITY_TOO_LARGE
              else Inr (ctx1\<lparr>limit_used := used\<rparr>)
         else Inr ctx1)"

definition body_eos :: "http_ctx \<Rightarrow> http_ctx" where
  "body_eos ctx = (if body_state ctx = BODY_LENGTH \<and> remaining ctx = 0 then ctx\<lparr>eos_sent := True\<rparr> else ctx)"

definition line_state :: "body_state \<Rightarrow> bool" where
  "line_state st \<longleftrightarrow> st \<in> {BODY_CHUNK, BODY_CHUNK_PART, BODY_CHUNK_EXT, BODY_CHUNK_CR, BODY_CHUNK_LF,
     BODY_CHUNK_END, BODY_CHUNK_END_LF}"

text \<open>
  A reader that calls the filter with \<open>AP_MODE_READBYTES\<close> until the end of the body. The next filter is
  the bytes that are still to come: a line is what there is up to a line feed, and a read of at most \<open>n\<close>
  bytes returns as many as the parameter \<open>rd\<close> says. \<open>ap_get_mime_headers\<close>, which reads the trailers, is
  the parameter \<open>trailers\<close>: the bytes it leaves, or nothing if it fails.
\<close>

datatype body_result = Body_Done string string | Body_Error int | Body_Incomplete

definition next_line :: "string \<Rightarrow> string" where
  "next_line s = takeWhile (\<lambda>c. c \<noteq> LF) s @ take 1 (dropWhile (\<lambda>c. c \<noteq> LF) s)"

fun read_body :: "nat \<Rightarrow> bool \<Rightarrow> int \<Rightarrow> 64 word \<Rightarrow> (nat \<Rightarrow> string \<Rightarrow> nat) \<Rightarrow> (string \<Rightarrow> string option)
    \<Rightarrow> http_ctx \<Rightarrow> string \<Rightarrow> string \<Rightarrow> body_result option" where
  "read_body 0 strict linelimit readbytes rd trailers ctx out s = None"
| "read_body (Suc fuel) strict linelimit readbytes rd trailers ctx out s =
     (if eos_sent ctx then Some (Body_Done out s)
      else if line_state (body_state ctx) then
        (if s = [] then Some Body_Incomplete
         else case body_line strict linelimit (next_line s) ctx of
           Inl e \<Rightarrow> Some (Body_Error e)
         | Inr ctx' \<Rightarrow>
             let s' = drop (length (next_line s)) s
             in if body_state ctx' = BODY_CHUNK_TRAILER then
                  (case trailers s' of
                     None \<Rightarrow> Some (Body_Error HTTP_BAD_REQUEST)
                   | Some s'' \<Rightarrow> read_body fuel strict linelimit readbytes rd trailers (ctx'\<lparr>eos_sent := True\<rparr>) out s'')
                else read_body fuel strict linelimit readbytes rd trailers ctx' out s')
      else
        (let want = body_readbytes ctx readbytes
         in if sint want > 0 then
              (let got = take (rd (unat want) s) s
               in if got = [] then Some (if body_state ctx = BODY_NONE then Body_Done out s else Body_Incomplete)
                  else case body_data (length got) ctx of
                    Inl e \<Rightarrow> Some (Body_Error e)
                  | Inr ctx' \<Rightarrow> read_body fuel strict linelimit readbytes rd trailers (body_eos ctx') (out @ got)
                                  (drop (length got) s))
            else read_body fuel strict linelimit readbytes rd trailers (body_eos ctx) out s))"

section \<open>The output filter\<close>

text \<open>
  A brigade is a list of buckets: data of known length, a pipe with the reads it will give (an empty read
  leaves the next bucket), one whose read fails, flush and end-of-stream buckets, and error buckets.
\<close>

datatype bucket = Data string | Pipe "string list" | Broken apr_status | Flush | Eos | Error int

datatype scan_stop = At_End | At_Eos "bucket list" | At_Flush "bucket list" | At_Pipe "bucket list" | At_Failure apr_status

abbreviation (input) HTTP_BAD_GATEWAY :: int where "HTTP_BAD_GATEWAY \<equiv> 502"

text \<open>The inner loop: the buckets it has passed, their bytes, whether a bad gateway was seen, and where it stopped.\<close>

function chunk_scan :: "bucket list \<Rightarrow> bucket list \<times> nat \<times> bool \<times> scan_stop" where
  "chunk_scan [] = ([], 0, False, At_End)"
| "chunk_scan (Eos # b) = ([], 0, False, At_Eos b)"
| "chunk_scan (Error status # b) =
     (case chunk_scan b of (before, bytes, bad, stop) \<Rightarrow>
        (Error status # before, bytes, bad \<or> status = HTTP_BAD_GATEWAY, stop))"
| "chunk_scan (Flush # b) = ([], 0, False, At_Flush b)"
| "chunk_scan (Broken rv # b) = ([], 0, False, At_Failure rv)"
| "chunk_scan (Pipe [] # b) =
     (case chunk_scan b of (before, bytes, bad, stop) \<Rightarrow> (Data [] # before, bytes, bad, stop))"
| "chunk_scan (Pipe (d # ds) # b) =
     (if length d > 0 then ([Data d], length d, False, At_Pipe (Pipe ds # b))
      else case chunk_scan (Pipe ds # b) of (before, bytes, bad, stop) \<Rightarrow> (Data [] # before, bytes, bad, stop))"
| "chunk_scan (Data d # b) =
     (case chunk_scan b of (before, bytes, bad, stop) \<Rightarrow> (Data d # before, length d + bytes, bad, stop))"
  by pat_completeness auto

definition bucket_weight :: "bucket \<Rightarrow> nat" where
  "bucket_weight e = (case e of Pipe ds \<Rightarrow> Suc (length ds) | _ \<Rightarrow> 1)"

termination chunk_scan
  by (relation "measure (\<lambda>b. sum_list (map bucket_weight b))") (auto simp: bucket_weight_def)

text \<open>\<open>"%" APR_UINT64_T_HEX_FMT\<close>.\<close>

definition hex_char :: "nat \<Rightarrow> char" where
  "hex_char n = char_of (if n < 10 then n + 48 else n - 10 + 97)"

fun hex_digits :: "nat \<Rightarrow> string" where
  "hex_digits n = (if n < 16 then [hex_char n] else hex_digits (n div 16) @ [hex_char (n mod 16)])"

declare hex_digits.simps [simp del]

text \<open>What becomes of one brigade: the chunk header, the end of the chunk and the last chunk are inserted.\<close>

definition chunk_brigade :: "bool \<Rightarrow> bucket list \<Rightarrow> nat \<Rightarrow> scan_stop \<Rightarrow> bucket list" where
  "chunk_brigade bad before bytes stop =
     (if bytes > 0 then [Data (hex_digits bytes @ CRLF)] else []) @ before @
     (if bytes > 0 then [Data CRLF] else []) @
     (case stop of
        At_Eos rest \<Rightarrow> (if \<not> bad then [Data (''0'' @ CRLF @ CRLF)] else []) @ Eos # rest
      | At_Flush following \<Rightarrow> [Flush]
      | _ \<Rightarrow> [])"

text \<open>
  The brigade the loop goes on with, if any: what follows a flush bucket that is not the last one,
  or the rest of a pipe.
\<close>

definition scan_following :: "scan_stop \<Rightarrow> bucket list option" where
  "scan_following stop =
     (case stop of
        At_Flush following \<Rightarrow> if following = [] then None else Some following
      | At_Pipe following \<Rightarrow> Some following
      | _ \<Rightarrow> None)"

definition scan_failure :: "scan_stop \<Rightarrow> apr_status option" where
  "scan_failure stop = (case stop of At_Failure rv \<Rightarrow> Some rv | _ \<Rightarrow> None)"

lemma chunk_scan_following:
  "chunk_scan b = (before, bytes, bad, stop) \<Longrightarrow> scan_following stop = Some following \<Longrightarrow>
   sum_list (map bucket_weight following) < sum_list (map bucket_weight b)"
  by (induction b arbitrary: before bytes bad stop rule: chunk_scan.induct)
     (auto simp: bucket_weight_def scan_following_def split: prod.splits if_splits)

text \<open>
  The outer loop. \<open>next_filter\<close> is the result of passing a brigade on; the brigades passed on are returned
  with the status.
\<close>

function ap_http_chunk_filter :: "(bucket list \<Rightarrow> apr_status) \<Rightarrow> bool \<Rightarrow> bucket list \<Rightarrow> apr_status \<times> bucket list list" where
  "ap_http_chunk_filter next_filter bad_seen b =
     (case chunk_scan b of (before, bytes, bad, stop) \<Rightarrow>
        (case scan_failure stop of
           Some rv \<Rightarrow> (rv, [])
         | None \<Rightarrow>
             (let out = chunk_brigade (bad_seen \<or> bad) before bytes stop;
                  rv = next_filter out
              in if rv \<noteq> APR_SUCCESS then (rv, [out])
                 else (case scan_following stop of
                         None \<Rightarrow> (rv, [out])
                       | Some following \<Rightarrow>
                           (case ap_http_chunk_filter next_filter (bad_seen \<or> bad) following of
                              (rv', outs) \<Rightarrow> (rv', out # outs))))))"
  by pat_completeness auto
termination
  by (relation "measure (\<lambda>(_, _, b). sum_list (map bucket_weight b))") (auto intro: chunk_scan_following [OF sym])

declare ap_http_chunk_filter.simps [simp del]

section \<open>Starting the input filter\<close>

datatype proxyreq = PROXYREQ_NONE | PROXYREQ_PROXY | PROXYREQ_REVERSE | PROXYREQ_RESPONSE

text \<open>
  The part of \<open>ap_http_filter\<close> that creates the context from the header fields: the result is the HTTP
  status for \<open>bail_out_on_error\<close>, or the context. \<open>apr_strtoff\<close> is a parameter: the number and the rest
  of the string, or nothing on an error.
\<close>

definition fresh_ctx :: "64 word \<Rightarrow> http_ctx" where
  "fresh_ctx lim = \<lparr>remaining = 0, limit = lim, limit_used = 0, chunk_used = 0, chunk_bws = 0, chunkbits = 0,
     body_state = BODY_NONE, eos_sent = False\<rparr>"

definition http_filter_length :: "(string \<Rightarrow> (64 word \<times> string) option) \<Rightarrow> string \<Rightarrow> http_ctx \<Rightarrow> int + http_ctx" where
  "http_filter_length strtoff lenp ctx =
     (case strtoff lenp of
        None \<Rightarrow> Inl HTTP_BAD_REQUEST
      | Some (n, endstr) \<Rightarrow>
          if endstr = lenp \<or> endstr \<noteq> [] \<or> sint n < 0 then Inl HTTP_BAD_REQUEST
          else if limit ctx \<noteq> 0 \<and> sint (limit ctx) < sint n then Inl HTTP_REQUEST_ENTITY_TOO_LARGE
          else Inr (ctx\<lparr>body_state := BODY_LENGTH, remaining := n\<rparr>))"

definition http_filter_init :: "(string \<Rightarrow> (64 word \<times> string) option) \<Rightarrow> proxyreq \<Rightarrow> 64 word
    \<Rightarrow> string option \<Rightarrow> string option \<Rightarrow> int + http_ctx" where
  "http_filter_init strtoff proxy limit_req_body tenc lenp =
     (let ctx = fresh_ctx (if proxy = PROXYREQ_NONE then limit_req_body else 0);
          r = (case tenc of
                 Some te \<Rightarrow>
                   if strcaseeq te ''chunked'' \<or> ap_find_last_token (Some te) ''chunked''
                   then Inr (ctx\<lparr>body_state := BODY_CHUNK\<rparr>)
                   else if proxy = PROXYREQ_RESPONSE then Inr ctx
                   else Inl HTTP_BAD_REQUEST
               | None \<Rightarrow> (case lenp of None \<Rightarrow> Inr ctx | Some l \<Rightarrow> http_filter_length strtoff l ctx))
      in case r of
           Inl e \<Rightarrow> Inl e
         | Inr ctx' \<Rightarrow>
             if body_state ctx' = BODY_NONE \<and> proxy \<noteq> PROXYREQ_RESPONSE then Inr (ctx'\<lparr>eos_sent := True\<rparr>)
             else Inr ctx')"

section \<open>Sizes\<close>

definition chunk_value :: "string \<Rightarrow> nat" where
  "chunk_value ds = foldl (\<lambda>n c. n * 16 + the (chunk_digit c)) 0 ds"

lemma xdigit_value: "c_isxdigit c \<Longrightarrow> \<exists>d. chunk_digit c = Some d \<and> d < 16"
  by (auto simp: chunk_digit_def cclass)

lemma chunk_digit_0: "c_isxdigit c \<Longrightarrow> chunk_digit c = Some 0 \<longleftrightarrow> c = CHR ''0''"
  by (auto simp: chunk_digit_def cclass char_eq_ord)

lemma sint_nonneg: fixes w :: "64 word" assumes "unat w < 2 ^ 63" shows "sint w = int (unat w)"
proof -
  have u: "uint w = int (unat w)" by simp
  have "int (unat w) < 2 ^ 63" using assms by (metis of_nat_less_iff of_nat_numeral of_nat_power)
  then have "sint w = uint w" unfolding sint_uint u
    by (intro signed_take_bit_int_eq_self) (auto intro: order.trans [of _ 0])
  then show ?thesis by (simp only: u)
qed

lemma sint_neg: fixes w :: "64 word" shows "sint w < 0 \<longleftrightarrow> 2 ^ 63 \<le> unat w"
proof (cases "unat w < 2 ^ 63")
  case True
  then show ?thesis using sint_nonneg [OF True] by simp
next
  case False
  have "\<not> 0 \<le> sint w"
  proof
    assume s: "0 \<le> sint w"
    have "sint w < 2 ^ 63" using sint_lt [of w] by simp
    then have "uint w = sint w" using s by (simp add: uint_sint take_bit_int_eq_self_iff)
    then have "int (unat w) < 2 ^ 63" using \<open>sint w < 2 ^ 63\<close> by (metis uint_nat)
    then show False using False by (metis of_nat_less_iff of_nat_numeral of_nat_power)
  qed
  then show ?thesis using False by simp
qed

lemma sint32_nonneg: assumes "n < 2 ^ 31" shows "sint (of_nat n :: 32 word) = int n"
proof -
  have "uint (of_nat n :: 32 word) = int n" using assms by (simp add: uint_nat unsigned_of_nat take_bit_nat_eq_self)
  then show ?thesis using assms by (simp add: sint_uint signed_take_bit_int_eq_self_iff)
qed

lemma unat_of_nat64: "n < 2 ^ 64 \<Longrightarrow> unat (of_nat n :: 64 word) = n"
  by (simp add: unsigned_of_nat take_bit_nat_eq_self)

lemma shift_or: fixes w :: "64 word" assumes "d < 16" shows "push_bit 4 w OR of_nat d = w * 16 + of_nat d"
proof -
  have "\<not> bit (push_bit 4 w) k \<or> \<not> bit (of_nat d :: 64 word) k" for k
  proof (cases "k < 4")
    case False
    then have "d div 2 ^ k = 0" using assms power_increasing [of 4 k "2::nat"] by simp
    then have "\<not> bit d k" by (simp add: bit_iff_odd)
    then show ?thesis by (simp add: bit_of_nat_iff)
  qed (simp add: bit_push_bit_iff)
  then have "push_bit 4 w OR of_nat d = push_bit 4 w + of_nat d" by (intro disjunctive_add [symmetric])
  then show ?thesis by (simp add: push_bit_eq_mult)
qed

text \<open>The state of the parser between digits: \<open>k\<close> significant digits have been read.\<close>

definition size_state :: "http_ctx \<Rightarrow> nat \<Rightarrow> nat \<Rightarrow> bool" where
  "size_state ctx k n \<longleftrightarrow> body_state ctx = BODY_CHUNK_PART \<and> k \<le> 16 \<and> n < 2 ^ 63 \<and> remaining ctx = of_nat n \<and>
     chunkbits ctx = of_nat (64 - 4 * k) \<and> n < 16 ^ k \<and> (k = 0 \<or> 16 ^ (k - 1) \<le> n)"

lemma size_state_start:
  "size_state (ctx\<lparr>body_state := BODY_CHUNK_PART, remaining := 0, chunkbits := 64, chunk_used := 0, chunk_bws := 0\<rparr>) 0 0"
  by (simp add: size_state_def)

text \<open>Context fields a digit does not change.\<close>

definition same_rest :: "http_ctx \<Rightarrow> http_ctx \<Rightarrow> bool" where
  "same_rest ctx ctx' \<longleftrightarrow> chunk_used ctx' = chunk_used ctx \<and> limit ctx' = limit ctx \<and>
     limit_used ctx' = limit_used ctx \<and> eos_sent ctx' = eos_sent ctx"

lemma chunkbits_sub:
  assumes "k \<le> 16"
  shows "sint (of_nat (64 - 4 * k) - 4 :: 32 word) < 0 \<longleftrightarrow> k = 16"
    and "k < 16 \<Longrightarrow> (of_nat (64 - 4 * k) - 4 :: 32 word) = of_nat (64 - 4 * Suc k)"
proof -
  show eq: "(of_nat (64 - 4 * k) - 4 :: 32 word) = of_nat (64 - 4 * Suc k)" if "k < 16"
  proof -
    have "64 - 4 * k = (64 - 4 * Suc k) + 4" using that by simp
    then show ?thesis by (simp only: of_nat_add of_nat_numeral add_diff_cancel_right')
  qed
  show "sint (of_nat (64 - 4 * k) - 4 :: 32 word) < 0 \<longleftrightarrow> k = 16"
  proof (cases "k = 16")
    case False
    then have "sint (of_nat (64 - 4 * k) - 4 :: 32 word) = int (64 - 4 * Suc k)"
      using eq assms sint32_nonneg [of "64 - 4 * Suc k"] by simp
    then show ?thesis using False by simp
  qed simp
qed

lemma chunk_part_step:
  assumes "size_state ctx k n" "chunk_digit c = Some d" "d < 16" "c = CHR ''0'' \<longleftrightarrow> d = 0"
  shows "if n * 16 + d < 2 ^ 63
    then \<exists>ctx' k'. chunk_part_char c ctx = Inr ctx' \<and> size_state ctx' k' (n * 16 + d) \<and> same_rest ctx ctx'
    else chunk_part_char c ctx = Inl APR_ENOSPC"
proof -
  note st = assms(1) [unfolded size_state_def]
  have r0: "remaining ctx = 0 \<longleftrightarrow> n = 0" using st unat_of_nat64 [of n] by (auto simp flip: unat_eq_0)
  show ?thesis
  proof (cases "n = 0 \<and> d = 0")
    case True
    then show ?thesis using assms r0 by (auto simp: chunk_part_char_def same_rest_def)
  next
    case nz: False
    show ?thesis
    proof (cases "k = 16")
      case True
      then have "16 ^ 15 \<le> n" using st by simp
      moreover have "chunk_part_char c ctx = Inl APR_ENOSPC"
        using nz st True chunkbits_sub(1) [of k] assms(4) r0 by (simp add: chunk_part_char_def Let_def)
      ultimately show ?thesis by simp
    next
      case False
      then have k: "k < 16" "\<not> sint (of_nat (64 - 4 * k) - 4 :: 32 word) < 0"
        using st chunkbits_sub(1) [of k] by auto
      let ?m = "n * 16 + d"
      have "k \<le> 15" using k(1) by simp
      then have "(16::nat) ^ k \<le> 16 ^ 15" by (intro power_increasing) simp_all
      then have "n < 16 ^ 15" using st by (meson less_le_trans)
      then have m: "?m < 2 ^ 64" using assms(3) by simp
      have rem: "push_bit 4 (remaining ctx) OR of_nat d = (of_nat ?m :: 64 word)"
        using shift_or [OF assms(3)] st by simp
      have neg: "sint (of_nat ?m :: 64 word) < 0 \<longleftrightarrow> \<not> ?m < 2 ^ 63"
        using sint_neg [of "of_nat ?m :: 64 word"] unat_of_nat64 [OF m] by (simp add: not_less)
      have val: "chunk_part_char c ctx = (if ?m < 2 ^ 63
          then Inr (ctx\<lparr>chunkbits := of_nat (64 - 4 * Suc k), remaining := of_nat ?m\<rparr>) else Inl APR_ENOSPC)"
      proof -
        have nc: "\<not> (remaining ctx = 0 \<and> c = CHR ''0'')" using nz r0 assms(4) by blast
        have nb: "\<not> sint (chunkbits ctx - 4) < 0" "chunkbits ctx - 4 = of_nat (64 - 4 * Suc k)"
          using k st chunkbits_sub(2) [of k] by metis+
        show ?thesis
          unfolding chunk_part_char_def if_not_P [OF nc] Let_def nb(2)
            if_not_P [OF nb(1) [unfolded nb(2)]] assms(2) option.case rem neg
          by (cases "?m < 2 ^ 63") (simp_all only: if_True if_False simp_thms)
      qed
      show ?thesis
      proof (cases "?m < 2 ^ 63")
        case True
        have "16 ^ k \<le> ?m"
        proof (cases k)
          case 0
          then show ?thesis using nz st by simp
        next
          case (Suc j)
          then have "16 ^ j \<le> n" using st by simp
          then show ?thesis using Suc by simp
        qed
        moreover have "?m < 16 ^ Suc k" using st assms(3) by simp
        ultimately have "size_state (ctx\<lparr>chunkbits := of_nat (64 - 4 * Suc k), remaining := of_nat ?m\<rparr>) (Suc k) ?m"
          using st k(1) True by (simp add: size_state_def)
        then show ?thesis using val True by (auto simp: same_rest_def)
      qed (use val in simp)
    qed
  qed
qed

lemma chunk_line_digit:
  assumes "body_state ctx = BODY_CHUNK_PART" "c_isxdigit c"
  shows "chunk_line_char strict c ctx = chunk_part_char c ctx"
proof -
  have "c \<noteq> LF" "c \<noteq> CR" "c \<noteq> CHR '';''" "c \<noteq> CHR '' ''" "c \<noteq> CHR 0x09"
    using assms(2) by (auto simp: cclass)
  then show ?thesis using assms(1) by (simp add: chunk_line_char_def)
qed

lemma digit_facts:
  assumes "c_isxdigit c"
  obtains d where "chunk_digit c = Some d" "d < 16" "c = CHR ''0'' \<longleftrightarrow> d = 0"
proof -
  obtain d where d: "chunk_digit c = Some d" "d < 16" using xdigit_value [OF assms] by blast
  moreover have "c = CHR ''0'' \<longleftrightarrow> d = 0" using chunk_digit_0 [OF assms] d by auto
  ultimately show ?thesis using that by blast
qed

definition value_from :: "nat \<Rightarrow> string \<Rightarrow> nat" where
  "value_from n ds = foldl (\<lambda>n c. n * 16 + the (chunk_digit c)) n ds"

lemma value_from_mono: "n \<le> value_from n ds"
proof (induction ds arbitrary: n)
  case (Cons c ds)
  have "n \<le> n * 16 + the (chunk_digit c)" by simp
  also have "\<dots> \<le> value_from (n * 16 + the (chunk_digit c)) ds" by (rule Cons)
  finally show ?case by (simp add: value_from_def)
qed (simp add: value_from_def)

lemma same_rest_trans: "same_rest a b \<Longrightarrow> same_rest b c \<Longrightarrow> same_rest a c"
  by (simp add: same_rest_def)

lemma parse_digits:
  "size_state ctx k n \<Longrightarrow> list_all c_isxdigit ds \<Longrightarrow>
   if value_from n ds < 2 ^ 63
   then \<exists>ctx' k'. size_state ctx' k' (value_from n ds) \<and> same_rest ctx ctx' \<and>
     parse_chunk_loop strict (ds @ r) ctx = parse_chunk_loop strict r ctx'
   else parse_chunk_loop strict (ds @ r) ctx = Inl APR_ENOSPC"
proof (induction ds arbitrary: ctx k n)
  case Nil
  then show ?case by (auto simp: value_from_def same_rest_def size_state_def)
next
  case (Cons c ds)
  obtain d where d: "chunk_digit c = Some d" "d < 16" "c = CHR ''0'' \<longleftrightarrow> d = 0"
    using Cons.prems(2) digit_facts [of c] by auto
  have st: "body_state ctx = BODY_CHUNK_PART" using Cons.prems(1) by (simp add: size_state_def)
  have pc: "parse_chunk_char strict c ctx = chunk_part_char c ctx"
    using chunk_line_digit [OF st] Cons.prems(2) st by (simp add: parse_chunk_char_def)
  have v: "value_from n (c # ds) = value_from (n * 16 + d) ds" by (simp add: value_from_def d)
  note step = chunk_part_step [OF Cons.prems(1) d]
  show ?case
  proof (cases "n * 16 + d < 2 ^ 63")
    case True
    then obtain ctx' k' where c': "chunk_part_char c ctx = Inr ctx'" "size_state ctx' k' (n * 16 + d)" "same_rest ctx ctx'"
      using step by (simp only: if_True) blast
    have "parse_chunk_loop strict ((c # ds) @ r) ctx = parse_chunk_loop strict (ds @ r) ctx'" using pc c'(1) by simp
    moreover have "list_all c_isxdigit ds" using Cons.prems(2) by simp
    ultimately show ?thesis using Cons.IH [OF c'(2)] same_rest_trans [OF c'(3)] unfolding v by (simp split: if_splits) blast
  next
    case False
    then have "chunk_part_char c ctx = Inl APR_ENOSPC" using step by (simp only: if_False)
    moreover have "\<not> value_from (n * 16 + d) ds < 2 ^ 63" using False value_from_mono [of "n * 16 + d" ds] by simp
    ultimately show ?thesis using pc unfolding v by simp
  qed
qed

lemma parse_crlf:
  assumes "size_state ctx k n"
  shows "parse_chunk_loop strict CRLF ctx =
    Inr (ctx\<lparr>body_state := (if n \<noteq> 0 then BODY_CHUNK_DATA else BODY_CHUNK_TRAILER)\<rparr>)"
proof -
  have "remaining ctx = 0 \<longleftrightarrow> n = 0"
    using assms unat_of_nat64 [of n] by (auto simp: size_state_def simp flip: unat_eq_0)
  then show ?thesis
    using assms by (auto simp: size_state_def parse_chunk_char_def chunk_line_char_def)
qed

lemma parse_chunk_size_exact:
  assumes "body_state ctx = BODY_CHUNK" "ds \<noteq> []" "list_all c_isxdigit ds"
    and "int (length ds) + 2 \<le> linelimit" "linelimit < 2 ^ 31"
  shows "if chunk_value ds < 2 ^ 63
    then \<exists>ctx'. parse_chunk_size ctx (ds @ CRLF) linelimit strict = Inr ctx' \<and>
      remaining ctx' = of_nat (chunk_value ds) \<and> limit ctx' = limit ctx \<and> limit_used ctx' = limit_used ctx \<and>
      eos_sent ctx' = eos_sent ctx \<and>
      body_state ctx' = (if chunk_value ds \<noteq> 0 then BODY_CHUNK_DATA else BODY_CHUNK_TRAILER)
    else parse_chunk_size ctx (ds @ CRLF) linelimit strict = Inl APR_ENOSPC"
proof -
  let ?ctx = "ctx\<lparr>body_state := BODY_CHUNK_PART, remaining := 0, chunkbits := 64, chunk_used := 0, chunk_bws := 0\<rparr>"
  obtain c ds' where ds: "ds = c # ds'" using assms(2) by (cases ds) auto
  have "parse_chunk_loop strict (ds @ CRLF) ctx = parse_chunk_loop strict (ds @ CRLF) ?ctx"
    using ds assms(1,3) by (simp add: parse_chunk_char_def)
  note eq = this
  note run = parse_digits [OF size_state_start [of ctx] assms(3), of strict CRLF]
  have v: "value_from 0 ds = chunk_value ds" by (simp add: value_from_def chunk_value_def)
  show ?thesis
  proof (cases "chunk_value ds < 2 ^ 63")
    case True
    then obtain ctx' k' where c': "size_state ctx' k' (chunk_value ds)" "same_rest ?ctx ctx'"
        "parse_chunk_loop strict (ds @ CRLF) ?ctx = parse_chunk_loop strict CRLF ctx'"
      using run unfolding v by (simp only: if_True) blast
    have used: "chunk_used ctx' = 0" using c'(2) by (simp add: same_rest_def)
    have "length ds + 2 < 2 ^ 31" using assms(4,5) by simp
    then have "sint (of_nat (length (ds @ CRLF)) :: 32 word) = int (length ds + 2)"
      using sint32_nonneg [of "length ds + 2"] by simp
    then show ?thesis
      using True eq c' used parse_crlf [OF c'(1), of strict] assms(4)
      by (auto simp: parse_chunk_size_def same_rest_def size_state_def Let_def)
  next
    case False
    then show ?thesis using run eq unfolding v by (simp add: parse_chunk_size_def)
  qed
qed

section \<open>What the output filter sends\<close>

definition bucket_bytes :: "bucket \<Rightarrow> string" where
  "bucket_bytes e = (case e of Data d \<Rightarrow> d | Pipe ds \<Rightarrow> concat ds | _ \<Rightarrow> [])"

definition brigade_bytes :: "bucket list \<Rightarrow> string" where
  "brigade_bytes b = concat (map bucket_bytes b)"

definition wire :: "bucket list list \<Rightarrow> string" where
  "wire outs = concat (map brigade_bytes outs)"

text \<open>A bucket of a response body without failures.\<close>

definition ok_bucket :: "bucket \<Rightarrow> bool" where
  "ok_bucket e \<longleftrightarrow> (case e of Eos \<Rightarrow> False | Broken rv \<Rightarrow> False | Error st \<Rightarrow> st \<noteq> HTTP_BAD_GATEWAY | _ \<Rightarrow> True)"

definition frame :: "string \<Rightarrow> string" where
  "frame d = hex_digits (length d) @ CRLF @ d @ CRLF"

lemma brigade_bytes_simps [simp]:
  "brigade_bytes [] = []" "brigade_bytes (Data d # b) = d @ brigade_bytes b"
  "brigade_bytes (Pipe ds # b) = concat ds @ brigade_bytes b" "brigade_bytes (Flush # b) = brigade_bytes b"
  "brigade_bytes (Eos # b) = brigade_bytes b" "brigade_bytes (Error st # b) = brigade_bytes b"
  "brigade_bytes (b @ b') = brigade_bytes b @ brigade_bytes b'"
  by (simp_all add: brigade_bytes_def bucket_bytes_def)

lemma chunk_scan_ok:
  "list_all ok_bucket b \<Longrightarrow> \<exists>before stop. chunk_scan (b @ [Eos]) = (before, length (brigade_bytes before), False, stop) \<and>
    (stop = At_Eos [] \<and> brigade_bytes before = brigade_bytes b \<or>
     (\<exists>f. (stop = At_Flush (f @ [Eos]) \<or> stop = At_Pipe (f @ [Eos])) \<and> list_all ok_bucket f \<and>
        brigade_bytes b = brigade_bytes before @ brigade_bytes f))"
proof (induction b rule: chunk_scan.induct)
  case (7 d ds b)
  then show ?case
    by (cases "d = []") (force simp: ok_bucket_def intro: exI [of _ "Pipe ds # b"])+
qed (force simp: ok_bucket_def)+

lemma chunk_filter_wire:
  assumes "list_all ok_bucket b"
  shows "\<exists>ds. list_all (\<lambda>d. d \<noteq> []) ds \<and> concat ds = brigade_bytes b \<and>
    fst (ap_http_chunk_filter (\<lambda>_. APR_SUCCESS) False (b @ [Eos])) = APR_SUCCESS \<and>
    wire (snd (ap_http_chunk_filter (\<lambda>_. APR_SUCCESS) False (b @ [Eos]))) =
      concat (map frame ds) @ ''0'' @ CRLF @ CRLF"
  using assms
proof (induction "sum_list (map bucket_weight b)" arbitrary: b rule: less_induct)
  case less
  obtain before stop where sc: "chunk_scan (b @ [Eos]) = (before, length (brigade_bytes before), False, stop)"
      "stop = At_Eos [] \<and> brigade_bytes before = brigade_bytes b \<or>
       (\<exists>f. (stop = At_Flush (f @ [Eos]) \<or> stop = At_Pipe (f @ [Eos])) \<and> list_all ok_bucket f \<and>
          brigade_bytes b = brigade_bytes before @ brigade_bytes f)"
    using chunk_scan_ok [OF less.prems] by blast
  let ?d = "brigade_bytes before"
  let ?ds = "if ?d = [] then [] else [?d]"
  let ?out = "chunk_brigade False before (length ?d) stop"
  have ds: "list_all (\<lambda>d. d \<noteq> []) ?ds" "concat ?ds = ?d" by auto
  consider (eos) "stop = At_Eos []" "brigade_bytes before = brigade_bytes b"
    | (go) f where "stop = At_Flush (f @ [Eos]) \<or> stop = At_Pipe (f @ [Eos])" "list_all ok_bucket f"
      "brigade_bytes b = brigade_bytes before @ brigade_bytes f"
    using sc(2) by blast
  then show ?case
  proof cases
    case s: eos
    have "ap_http_chunk_filter (\<lambda>_. APR_SUCCESS) False (b @ [Eos]) = (APR_SUCCESS, [?out])"
      using sc(1) s by (subst ap_http_chunk_filter.simps) (simp add: scan_failure_def scan_following_def)
    moreover have "wire [?out] = concat (map frame ?ds) @ ''0'' @ CRLF @ CRLF"
      using s by (simp add: wire_def chunk_brigade_def frame_def)
    ultimately show ?thesis using ds s by (intro exI [of _ ?ds]) simp
  next
    case s: go
    have fo: "scan_following stop = Some (f @ [Eos])" "scan_failure stop = None"
      using s(1) by (auto simp: scan_following_def scan_failure_def)
    have "sum_list (map bucket_weight f) < sum_list (map bucket_weight b)"
      using chunk_scan_following [OF sc(1) fo(1)] by simp
    from less.hyps [OF this s(2)] obtain ds' where ih: "list_all (\<lambda>d. d \<noteq> []) ds'" "concat ds' = brigade_bytes f"
        "fst (ap_http_chunk_filter (\<lambda>_. APR_SUCCESS) False (f @ [Eos])) = APR_SUCCESS"
        "wire (snd (ap_http_chunk_filter (\<lambda>_. APR_SUCCESS) False (f @ [Eos]))) =
          concat (map frame ds') @ ''0'' @ CRLF @ CRLF"
      by blast
    have eq: "ap_http_chunk_filter (\<lambda>_. APR_SUCCESS) False (b @ [Eos]) =
        (APR_SUCCESS, ?out # snd (ap_http_chunk_filter (\<lambda>_. APR_SUCCESS) False (f @ [Eos])))"
      using sc(1) fo ih(3)
      by (subst ap_http_chunk_filter.simps, cases "ap_http_chunk_filter (\<lambda>_. APR_SUCCESS) False (f @ [Eos])")
         (simp add: Let_def)
    have "brigade_bytes ?out = concat (map frame ?ds)"
      using s(1) by (auto simp: chunk_brigade_def frame_def)
    then show ?thesis using ds ih s(3) eq by (intro exI [of _ "?ds @ ds'"]) (simp add: wire_def)
  qed
qed

section \<open>Hexadecimal sizes\<close>

lemma hex_char_props:
  assumes "n < 16" shows "c_isxdigit (hex_char n)" "chunk_digit (hex_char n) = Some n"
proof -
  have "ord (hex_char n) = (if n < 10 then n + 48 else n + 87)" using assms by (simp add: hex_char_def)
  then show "c_isxdigit (hex_char n)" "chunk_digit (hex_char n) = Some n"
    using assms by (auto simp: cclass chunk_digit_def)
qed

lemma chunk_value_snoc: "chunk_value (ds @ [c]) = chunk_value ds * 16 + the (chunk_digit c)"
  by (simp add: chunk_value_def)

lemma hex_digits_props:
  "hex_digits n \<noteq> [] \<and> list_all c_isxdigit (hex_digits n) \<and> chunk_value (hex_digits n) = n"
proof (induction n rule: hex_digits.induct)
  case (1 n)
  show ?case
  proof (cases "n < 16")
    case True
    then show ?thesis by (simp add: hex_digits.simps [of n] hex_char_props chunk_value_def)
  next
    case False
    then show ?thesis
      using 1 by (subst (1 2 3) hex_digits.simps) (simp add: hex_char_props chunk_value_snoc)
  qed
qed

lemma hex_digits_length: "n < 16 ^ k \<Longrightarrow> 0 < k \<Longrightarrow> length (hex_digits n) \<le> k"
proof (induction n arbitrary: k rule: hex_digits.induct)
  case (1 n)
  show ?case
  proof (cases "n < 16")
    case True
    then show ?thesis using 1(3) by (simp add: hex_digits.simps [of n])
  next
    case False
    then obtain j where k: "k = Suc j" "0 < j" using 1(2,3) by (cases k; cases "k - 1") auto
    then have "n div 16 < 16 ^ j" using 1(2) by (simp add: less_mult_imp_div_less mult.commute)
    then have "length (hex_digits (n div 16)) \<le> j" using 1(1) False k(2) by blast
    then show ?thesis using False k(1) by (subst hex_digits.simps) simp
  qed
qed

section \<open>Reading chunks back\<close>

text \<open>A read of at most \<open>n\<close> bytes returns at least one byte if there is one.\<close>

definition reads_some :: "(nat \<Rightarrow> string \<Rightarrow> nat) \<Rightarrow> bool" where
  "reads_some rd \<longleftrightarrow> (\<forall>n s. 0 < n \<longrightarrow> s \<noteq> [] \<longrightarrow> 0 < rd n s \<and> rd n s \<le> n)"

definition in_chunk :: "http_ctx \<Rightarrow> nat \<Rightarrow> bool" where
  "in_chunk ctx n \<longleftrightarrow> body_state ctx = BODY_CHUNK_DATA \<and> remaining ctx = of_nat n \<and> limit ctx = 0 \<and> \<not> eos_sent ctx"

definition plain_ctx :: "body_state \<Rightarrow> http_ctx \<Rightarrow> bool" where
  "plain_ctx st ctx \<longleftrightarrow> body_state ctx = st \<and> limit ctx = 0 \<and> \<not> eos_sent ctx"

lemma body_readbytes_bound:
  assumes "in_chunk ctx n" "0 < n" "n < 2 ^ 63" "0 < sint readbytes"
  shows "0 < sint (body_readbytes ctx readbytes)" "0 < unat (body_readbytes ctx readbytes)"
    "unat (body_readbytes ctx readbytes) \<le> n"
proof -
  have n: "unat (of_nat n :: 64 word) = n" using assms(3) unat_of_nat64 [of n] by simp
  then have s: "sint (of_nat n :: 64 word) = int n" using sint_nonneg [of "of_nat n"] assms(3) by simp
  have "\<not> sint readbytes < 0" using assms(4) by simp
  then have "unat readbytes < 2 ^ 63" using sint_neg [of readbytes] by (simp add: not_le)
  then have r: "sint readbytes = int (unat readbytes)" by (rule sint_nonneg)
  have eq: "body_readbytes ctx readbytes = (if n < unat readbytes then of_nat n else readbytes)"
    using assms(1) s r unfolding body_readbytes_def in_chunk_def by (simp only: of_nat_less_iff) simp
  have "0 < unat readbytes" using assms(4) unfolding r by (simp only: of_nat_0_less_iff)
  then show "0 < sint (body_readbytes ctx readbytes)" "0 < unat (body_readbytes ctx readbytes)"
    "unat (body_readbytes ctx readbytes) \<le> n"
    using assms(2,4) s n unfolding eq by (simp_all only: split: if_split) auto
qed

lemma body_data_chunk:
  assumes "in_chunk ctx n" "0 < j" "j \<le> n" "n < 2 ^ 63"
  shows "\<exists>ctx'. body_data j ctx = Inr ctx' \<and> body_eos ctx' = ctx' \<and>
    (if j = n then plain_ctx BODY_CHUNK_END ctx' \<and> chunk_used ctx' = 0 else in_chunk ctx' (n - j))"
proof -
  have rem: "remaining ctx - of_nat j = of_nat (n - j)" using assms by (simp add: in_chunk_def)
  have "unat (of_nat (n - j) :: 64 word) = n - j" using assms(4) unat_of_nat64 [of "n - j"] by simp
  then have "sint (of_nat (n - j) :: 64 word) = int (n - j)"
    using sint_nonneg [of "of_nat (n - j)"] assms(4) by simp
  then have pos: "0 < sint (remaining ctx - of_nat j) \<longleftrightarrow> j \<noteq> n" using rem assms(3) by auto
  have st: "body_state ctx = BODY_CHUNK_DATA" "limit ctx = 0" "\<not> eos_sent ctx" using assms(1) by (auto simp: in_chunk_def)
  show ?thesis
  proof (cases "j = n")
    case True
    then have "body_data j ctx = Inr (ctx\<lparr>remaining := remaining ctx - of_nat j, body_state := BODY_CHUNK_END, chunk_used := 0\<rparr>)"
      using st pos by (simp add: body_data_def Let_def)
    then show ?thesis using True st by (simp add: body_eos_def plain_ctx_def)
  next
    case False
    then have "body_data j ctx = Inr (ctx\<lparr>remaining := of_nat (n - j)\<rparr>)"
      using st pos rem by (simp add: body_data_def Let_def)
    then show ?thesis using False st by (simp add: body_eos_def in_chunk_def)
  qed
qed

lemma line_state_data: "\<not> line_state BODY_CHUNK_DATA" "line_state BODY_CHUNK" "line_state BODY_CHUNK_END"
  by (simp_all add: line_state_def)

lemma read_chunk_data:
  assumes "reads_some rd" "0 < sint readbytes"
  shows "in_chunk ctx (length d) \<Longrightarrow> d \<noteq> [] \<Longrightarrow> length d < 2 ^ 63 \<Longrightarrow>
   \<exists>k ctx'. k \<le> length d \<and> plain_ctx BODY_CHUNK_END ctx' \<and> chunk_used ctx' = 0 \<and>
     (\<forall>fuel. read_body (k + fuel) strict linelimit readbytes rd trailers ctx out (d @ r) =
             read_body fuel strict linelimit readbytes rd trailers ctx' (out @ d) r)"
proof (induction "length d" arbitrary: d ctx out rule: less_induct)
  case less
  let ?want = "body_readbytes ctx readbytes"
  let ?j = "rd (unat ?want) (d @ r)"
  note w = body_readbytes_bound [OF less.prems(1) _ less.prems(3) assms(2)]
  have j: "0 < ?j" "?j \<le> length d"
    using assms(1) w less.prems(2) unfolding reads_some_def
    by (meson append_is_Nil_conv length_greater_0_conv le_trans)+
  have got: "take ?j (d @ r) = take ?j d" "drop (length (take ?j d)) (d @ r) = drop ?j d @ r" "take ?j d \<noteq> []"
      "length (take ?j d) = ?j"
    using j less.prems(2) by auto
  obtain ctx1 where c1: "body_data ?j ctx = Inr ctx1" "body_eos ctx1 = ctx1"
      "if ?j = length d then plain_ctx BODY_CHUNK_END ctx1 \<and> chunk_used ctx1 = 0 else in_chunk ctx1 (length d - ?j)"
    using body_data_chunk [OF less.prems(1) j less.prems(3)] by blast
  have st: "body_state ctx = BODY_CHUNK_DATA" "\<not> eos_sent ctx" using less.prems(1) by (auto simp: in_chunk_def)
  have step: "read_body (Suc fuel) strict linelimit readbytes rd trailers ctx out (d @ r) =
      read_body fuel strict linelimit readbytes rd trailers ctx1 (out @ take ?j d) (drop ?j d @ r)" for fuel
    using st w(1) less.prems(2) got c1(1,2) line_state_data(1) by (simp add: Let_def)
  show ?case
  proof (cases "?j = length d")
    case True
    then show ?thesis using step c1(3) less.prems(2) by (intro exI [of _ 1] exI [of _ ctx1]) (simp add: Suc_leI)
  next
    case False
    then have nx: "length (drop ?j d) < length d" "in_chunk ctx1 (length (drop ?j d))" "drop ?j d \<noteq> []"
      "length (drop ?j d) < 2 ^ 63" using c1(3) j less.prems(3) by auto
    obtain k ctx' where k: "k \<le> length (drop ?j d)" "plain_ctx BODY_CHUNK_END ctx'" "chunk_used ctx' = 0"
      "\<forall>fuel. read_body (k + fuel) strict linelimit readbytes rd trailers ctx1 (out @ take ?j d) (drop ?j d @ r) =
         read_body fuel strict linelimit readbytes rd trailers ctx' ((out @ take ?j d) @ drop ?j d) r"
      using less.hyps [OF nx, of "out @ take ?j d"] by blast
    have "read_body (Suc k + fuel) strict linelimit readbytes rd trailers ctx out (d @ r) =
        read_body fuel strict linelimit readbytes rd trailers ctx' (out @ d) r" for fuel
      using step [of "k + fuel"] k(4) by simp
    moreover have "Suc k \<le> length d" using k(1) j nx(1) by simp
    ultimately show ?thesis using k(2,3) by blast
  qed
qed

lemma next_line_crlf: "LF \<notin> set h \<Longrightarrow> next_line (h @ CRLF @ r) = h @ CRLF"
  by (induction h) (auto simp: next_line_def)

lemma xdigits_no_LF: "list_all c_isxdigit ds \<Longrightarrow> LF \<notin> set ds"
  by (auto simp: list_all_iff cclass)

lemma read_size_line:
  assumes "plain_ctx BODY_CHUNK ctx" "n < 2 ^ 63" "18 \<le> linelimit" "linelimit < 2 ^ 31"
  shows "\<exists>ctx'. body_line strict linelimit (hex_digits n @ CRLF) ctx = Inr ctx' \<and> remaining ctx' = of_nat n \<and>
    plain_ctx (if n \<noteq> 0 then BODY_CHUNK_DATA else BODY_CHUNK_TRAILER) ctx'"
proof -
  have len: "length (hex_digits n) \<le> 16" using hex_digits_length [of n 16] assms(2) by simp
  note h = hex_digits_props [of n]
  have "\<exists>ctx'. parse_chunk_size ctx (hex_digits n @ CRLF) linelimit strict = Inr ctx' \<and>
      remaining ctx' = of_nat n \<and> limit ctx' = limit ctx \<and> limit_used ctx' = limit_used ctx \<and>
      eos_sent ctx' = eos_sent ctx \<and> body_state ctx' = (if n \<noteq> 0 then BODY_CHUNK_DATA else BODY_CHUNK_TRAILER)"
    using parse_chunk_size_exact [of ctx "hex_digits n" linelimit strict] h assms len by (simp add: plain_ctx_def)
  then show ?thesis using assms(1) by (auto simp: body_line_def plain_ctx_def)
qed

lemma read_chunk_end:
  assumes "plain_ctx BODY_CHUNK_END ctx" "chunk_used ctx = 0" "18 \<le> linelimit"
  shows "\<exists>ctx'. body_line strict linelimit CRLF ctx = Inr ctx' \<and> plain_ctx BODY_CHUNK ctx'"
  using assms by (simp add: body_line_def parse_chunk_size_def parse_chunk_char_def plain_ctx_def Let_def)

lemma read_frame:
  assumes "reads_some rd" "0 < sint readbytes" "18 \<le> linelimit" "linelimit < 2 ^ 31"
    and "plain_ctx BODY_CHUNK ctx" "d \<noteq> []" "length d < 2 ^ 63"
  shows "\<exists>k ctx'. k \<le> length (frame d) \<and> plain_ctx BODY_CHUNK ctx' \<and>
     (\<forall>fuel. read_body (k + fuel) strict linelimit readbytes rd trailers ctx out (frame d @ r) =
             read_body fuel strict linelimit readbytes rd trailers ctx' (out @ d) r)"
proof -
  let ?h = "hex_digits (length d)"
  have nl: "next_line (frame d @ r) = ?h @ CRLF"
    using next_line_crlf [OF xdigits_no_LF, of ?h "d @ CRLF @ r"] hex_digits_props by (simp add: frame_def)
  obtain ctx1 where c1: "body_line strict linelimit (?h @ CRLF) ctx = Inr ctx1" "remaining ctx1 = of_nat (length d)"
      "plain_ctx BODY_CHUNK_DATA ctx1"
    using read_size_line [OF assms(5,7,3,4), of strict] assms(6) by auto
  have "in_chunk ctx1 (length d)" using c1 by (simp add: in_chunk_def plain_ctx_def)
  then obtain k ctx2 where c2: "k \<le> length d" "plain_ctx BODY_CHUNK_END ctx2" "chunk_used ctx2 = 0"
      "\<forall>fuel. read_body (k + fuel) strict linelimit readbytes rd trailers ctx1 out (d @ CRLF @ r) =
             read_body fuel strict linelimit readbytes rd trailers ctx2 (out @ d) (CRLF @ r)"
    using read_chunk_data [OF assms(1,2) _ assms(6,7)] by blast
  obtain ctx3 where c3: "body_line strict linelimit CRLF ctx2 = Inr ctx3" "plain_ctx BODY_CHUNK ctx3"
    using read_chunk_end [OF c2(2,3) assms(3)] by blast
  have s1: "read_body (Suc fuel) strict linelimit readbytes rd trailers ctx out (frame d @ r) =
      read_body fuel strict linelimit readbytes rd trailers ctx1 out (d @ CRLF @ r)" for fuel
    using assms(5) nl c1(1,3) line_state_data(2) by (simp add: plain_ctx_def Let_def) (simp add: frame_def)
  have s3: "read_body (Suc fuel) strict linelimit readbytes rd trailers ctx2 (out @ d) (CRLF @ r) =
      read_body fuel strict linelimit readbytes rd trailers ctx3 (out @ d) r" for fuel
    using c2(2) c3 line_state_data(3) next_line_crlf [of "[]" r] by (simp add: plain_ctx_def Let_def)
  have "read_body (Suc (k + Suc fuel)) strict linelimit readbytes rd trailers ctx out (frame d @ r) =
      read_body fuel strict linelimit readbytes rd trailers ctx3 (out @ d) r" for fuel
    by (simp only: s1 c2(4) s3)
  then have "read_body ((k + 2) + fuel) strict linelimit readbytes rd trailers ctx out (frame d @ r) =
      read_body fuel strict linelimit readbytes rd trailers ctx3 (out @ d) r" for fuel
    by (metis add_2_eq_Suc' add_Suc add_Suc_right)
  moreover have "k + 2 \<le> length (frame d)" using c2(1) by (simp add: frame_def)
  ultimately show ?thesis using c3(2) by blast
qed

lemma read_frames:
  assumes "reads_some rd" "0 < sint readbytes" "18 \<le> linelimit" "linelimit < 2 ^ 31"
  shows "plain_ctx BODY_CHUNK ctx \<Longrightarrow> list_all (\<lambda>d. d \<noteq> [] \<and> length d < 2 ^ 63) ds \<Longrightarrow>
    \<exists>k ctx'. k \<le> length (concat (map frame ds)) \<and> plain_ctx BODY_CHUNK ctx' \<and>
     (\<forall>fuel. read_body (k + fuel) strict linelimit readbytes rd trailers ctx out (concat (map frame ds) @ r) =
             read_body fuel strict linelimit readbytes rd trailers ctx' (out @ concat ds) r)"
proof (induction ds arbitrary: ctx out)
  case Nil
  then show ?case by (auto intro: exI [of _ 0])
next
  case (Cons d ds)
  have d: "d \<noteq> []" "length d < 2 ^ 63" and all: "list_all (\<lambda>d. d \<noteq> [] \<and> length d < 2 ^ 63) ds"
    using Cons.prems(2) by simp_all
  obtain k1 ctx1 where c1: "k1 \<le> length (frame d)" "plain_ctx BODY_CHUNK ctx1"
      "\<forall>fuel. read_body (k1 + fuel) strict linelimit readbytes rd trailers ctx out (frame d @ concat (map frame ds) @ r) =
             read_body fuel strict linelimit readbytes rd trailers ctx1 (out @ d) (concat (map frame ds) @ r)"
    using read_frame [OF assms Cons.prems(1) d] by blast
  obtain k2 ctx2 where c2: "k2 \<le> length (concat (map frame ds))" "plain_ctx BODY_CHUNK ctx2"
      "\<forall>fuel. read_body (k2 + fuel) strict linelimit readbytes rd trailers ctx1 (out @ d) (concat (map frame ds) @ r) =
             read_body fuel strict linelimit readbytes rd trailers ctx2 ((out @ d) @ concat ds) r"
    using Cons.IH [OF c1(2) all, of "out @ d"] by blast
  have "read_body ((k1 + k2) + fuel) strict linelimit readbytes rd trailers ctx out (concat (map frame (d # ds)) @ r) =
      read_body fuel strict linelimit readbytes rd trailers ctx2 (out @ concat (d # ds)) r" for fuel
    using c1(3) c2(3) by (simp add: add.assoc)
  moreover have "k1 + k2 \<le> length (concat (map frame (d # ds)))" using c1(1) c2(1) by simp
  ultimately show ?case using c2(2) by blast
qed

lemma read_last_chunk:
  assumes "plain_ctx BODY_CHUNK ctx" "18 \<le> linelimit" "linelimit < 2 ^ 31" "trailers (CRLF @ r) = Some r'"
  shows "read_body (Suc (Suc fuel)) strict linelimit readbytes rd trailers ctx out (''0'' @ CRLF @ CRLF @ r) =
    Some (Body_Done out r')"
proof -
  have h: "hex_digits 0 = ''0''" by (simp add: hex_digits.simps hex_char_def) code_simp
  obtain ctx1 where c1: "body_line strict linelimit (''0'' @ CRLF) ctx = Inr ctx1" "plain_ctx BODY_CHUNK_TRAILER ctx1"
    using read_size_line [OF assms(1) _ assms(2,3), of 0 strict] h by auto
  have nl: "next_line (''0'' @ CRLF @ CRLF @ r) = ''0'' @ CRLF" by (rule next_line_crlf) simp
  show ?thesis
    using assms(1,4) nl c1 line_state_data(2) by (simp add: plain_ctx_def Let_def)
qed

section \<open>Properties\<close>



text \<open>
  C5: chunks survive transfer. What \<open>ap_http_chunk_filter\<close> sends for a brigade of data, pipes, flush and other
  buckets that ends in an end-of-stream bucket, without failures, is read back by the input filter as
  the bytes of the brigade, however the bytes arrive in pieces, and nothing of what follows the body on the
  connection is consumed. The reader needs at most one step per byte sent. \<open>ap_get_mime_headers\<close> is assumed to
  read the empty trailer up to and including the blank line.
\<close>

theorem chunked_roundtrip:
  assumes "list_all ok_bucket b" "length (brigade_bytes b) < 2 ^ 63"
    and "reads_some rd" "0 < sint readbytes" "18 \<le> linelimit" "linelimit < 2 ^ 31"
    and "trailers (CRLF @ next_request) = Some next_request"
    and "ap_http_chunk_filter (\<lambda>_. APR_SUCCESS) False (b @ [Eos]) = (rv, outs)"
    and "length (wire outs) \<le> fuel"
  shows "rv = APR_SUCCESS \<and>
    read_body fuel strict linelimit readbytes rd trailers (fresh_ctx 0\<lparr>body_state := BODY_CHUNK\<rparr>) []
      (wire outs @ next_request) = Some (Body_Done (brigade_bytes b) next_request)"
proof -
  let ?ctx = "fresh_ctx 0\<lparr>body_state := BODY_CHUNK\<rparr>"
  obtain ds where ds: "list_all (\<lambda>d. d \<noteq> []) ds" "concat ds = brigade_bytes b" "rv = APR_SUCCESS"
      "wire outs = concat (map frame ds) @ ''0'' @ CRLF @ CRLF"
    using chunk_filter_wire [OF assms(1)] assms(8) by auto
  have "length d \<le> length (concat ds)" if "d \<in> set ds" for d using that by (induction ds) auto
  then have "length d < 2 ^ 63" if "d \<in> set ds" for d
    using that assms(2) unfolding ds(2) by (meson le_less_trans)
  then have all: "list_all (\<lambda>d. d \<noteq> [] \<and> length d < 2 ^ 63) ds"
    using ds(1) by (auto simp: list_all_iff)
  have "plain_ctx BODY_CHUNK ?ctx" by (simp add: plain_ctx_def fresh_ctx_def)
  then obtain k ctx' where k: "k \<le> length (concat (map frame ds))" "plain_ctx BODY_CHUNK ctx'"
      "\<forall>fuel. read_body (k + fuel) strict linelimit readbytes rd trailers ?ctx [] (concat (map frame ds) @ ''0'' @ CRLF @ CRLF @ next_request) =
             read_body fuel strict linelimit readbytes rd trailers ctx' ([] @ concat ds) (''0'' @ CRLF @ CRLF @ next_request)"
    using read_frames [OF assms(3-6) _ all] by blast
  obtain f where f: "fuel = k + Suc (Suc f)"
  proof -
    have "k + 2 \<le> fuel" using k(1) assms(9) ds(4) by simp
    then show ?thesis using that [of "fuel - (k + 2)"] by simp
  qed
  have "read_body fuel strict linelimit readbytes rd trailers ?ctx [] (wire outs @ next_request) =
      read_body (Suc (Suc f)) strict linelimit readbytes rd trailers ctx' (concat ds) (''0'' @ CRLF @ CRLF @ next_request)"
    using k(3) [rule_format, of "Suc (Suc f)"] unfolding f ds(4) append_assoc append_Nil .
  then show ?thesis
    using read_last_chunk [where trailers = trailers, OF k(2) assms(5,6,7)] ds(2,3) by (simp only:)
qed

lemma example_wire:
  "ap_http_chunk_filter (\<lambda>_. APR_SUCCESS) False ([Data ''hi'', Flush, Pipe [''abc'']] @ [Eos]) =
   (APR_SUCCESS, [[Data (hex_digits 2 @ CRLF), Data ''hi'', Data CRLF, Flush],
     [Data (hex_digits 3 @ CRLF), Data ''abc'', Data CRLF], [Data [], Data (''0'' @ CRLF @ CRLF), Eos]])"
  by (simp add: ap_http_chunk_filter.simps scan_failure_def scan_following_def chunk_brigade_def Let_def
      numeral_eq_Suc)

lemma hex_small: "n < 16 \<Longrightarrow> length (hex_digits n) = 1"
  by (simp add: hex_digits.simps)

theorem chunked_roundtrip_witness:
  "read_body 40 True 8190 1000 (\<lambda>n s. 1) (\<lambda>s. Some (drop 2 s)) (fresh_ctx 0\<lparr>body_state := BODY_CHUNK\<rparr>) []
     (wire (snd (ap_http_chunk_filter (\<lambda>_. APR_SUCCESS) False ([Data ''hi'', Flush, Pipe [''abc'']] @ [Eos]))) @ ''GET'')
   = Some (Body_Done ''hiabc'' ''GET'')"
proof -
  have "sint (1000 :: 64 word) = 1000" by code_simp
  then show ?thesis
    using chunked_roundtrip [of "[Data ''hi'', Flush, Pipe [''abc'']]" "\<lambda>n s. 1" 1000 8190 "\<lambda>s. Some (drop 2 s)" "''GET''",
        OF _ _ _ _ _ _ _ example_wire, of 40 True]
    by (simp add: ok_bucket_def reads_some_def wire_def hex_small example_wire [simplified])
qed

text \<open>
  C31: how the body of a request is delimited. If both header fields are present, \<open>Content-Length\<close> has no
  influence; a transfer coding that does not end in \<open>chunked\<close> is rejected with status 400 unless the message is a
  proxied response; without a transfer coding a length is accepted only if it is a whole non-negative number within
  the limit, and then exactly that many bytes are expected; without both, the body is empty.
\<close>

theorem http_filter_init_delimits:
  "http_filter_init strtoff proxy lim (Some te) lenp = http_filter_init strtoff proxy lim (Some te) None \<and>
   (\<not> strcaseeq te ''chunked'' \<and> \<not> ap_find_last_token (Some te) ''chunked'' \<and> proxy \<noteq> PROXYREQ_RESPONSE \<longrightarrow>
      http_filter_init strtoff proxy lim (Some te) lenp = Inl 400) \<and>
   (\<forall>ctx. http_filter_init strtoff proxy lim None (Some l) = Inr ctx \<longrightarrow>
      strtoff l = Some (remaining ctx, []) \<and> l \<noteq> [] \<and> 0 \<le> sint (remaining ctx) \<and> body_state ctx = BODY_LENGTH \<and>
      (proxy = PROXYREQ_NONE \<and> lim \<noteq> 0 \<longrightarrow> sint (remaining ctx) \<le> sint lim)) \<and>
   (proxy \<noteq> PROXYREQ_RESPONSE \<longrightarrow>
      (\<exists>ctx. http_filter_init strtoff proxy lim None None = Inr ctx \<and> eos_sent ctx))"
  by (auto simp: http_filter_init_def http_filter_length_def fresh_ctx_def Let_def split: option.splits if_splits)

theorem http_filter_init_delimits_witness:
  "http_filter_init (\<lambda>s. Some (5, [])) PROXYREQ_NONE 0 (Some ''gzip'') (Some ''5'') = Inl 400 \<and>
   (\<exists>ctx. http_filter_init (\<lambda>s. Some (5, [])) PROXYREQ_NONE 0 None None = Inr ctx \<and> eos_sent ctx)"
proof -
  have "\<not> strcaseeq ''gzip'' ''chunked''" "\<not> ap_find_last_token (Some ''gzip'') ''chunked''"
    by (simp_all add: strcaseeq_def str_lower_def ap_find_last_token_def)
  then show ?thesis
    using http_filter_init_delimits [of "\<lambda>s. Some (5, [])" PROXYREQ_NONE 0 "''gzip''" "Some ''5''" "''5''"] by blast
qed

end
