(* ===== verification/Byterange.thy ===== *)
theory Byterange
  imports Words
begin

text \<open>
  Byte ranges, \<^verbatim>\<open>modules/http/byterange_filter.c\<close>: \<open>ap_set_byterange\<close>, which parses the \<open>Range\<close> header field and
  merges the ranges, \<open>copy_brigade_range\<close>, which cuts a range out of a brigade, and \<open>ap_byterange_filter\<close>, which
  puts the response together. \<open>apr_off_t\<close> values are integers: offsets stay within the content length, and the sum
  of the lengths would need a content of more than \<open>2 ^ 51\<close> bytes to leave 64 bits with the ranges that
  fit into a header field. \<open>apr_strtoff\<close> is a parameter: the number and the rest of the string, or
  nothing on an error.
\<close>

section \<open>Parsing one range\<close>

datatype range_spec = Bad_Spec | From_Zero | Spec int int

text \<open>One round of the loop up to the values of \<open>start\<close> and \<open>end\<close>; \<open>From_Zero\<close> is the special case \<open>0-\<close>.\<close>

definition range_number :: "(string \<Rightarrow> (int \<times> string) option) \<Rightarrow> string \<Rightarrow> int option" where
  "range_number strtoff s = (case strtoff s of Some (n, errp) \<Rightarrow> if errp = [] then Some n else None | None \<Rightarrow> None)"

definition parse_range :: "(string \<Rightarrow> (int \<times> string) option) \<Rightarrow> int \<Rightarrow> string \<Rightarrow> range_spec" where
  "parse_range strtoff clength cur =
     (case c_strchr cur (CHR ''-'') of
        None \<Rightarrow> Bad_Spec
      | Some dash \<Rightarrow>
          if dash = 0 then
            (case range_number strtoff (drop 1 cur) of
               None \<Rightarrow> Bad_Spec
             | Some number \<Rightarrow> if number < 1 then Bad_Spec else Spec (clength - number) (clength - 1))
          else
            (case range_number strtoff (take dash cur) of
               None \<Rightarrow> Bad_Spec
             | Some start \<Rightarrow>
                 if drop (dash + 1) cur \<noteq> [] then
                   (case range_number strtoff (drop (dash + 1) cur) of
                      None \<Rightarrow> Bad_Spec
                    | Some end \<Rightarrow> if start > end then Bad_Spec else Spec start end)
                 else if start = 0 then From_Zero
                 else Spec start (clength - 1)))"

section \<open>Merging\<close>

record br_state =
  in_merge :: bool
  ostart :: int
  oend :: int
  indexes :: "(int \<times> int) list"
  sum_lengths :: int
  num_ranges :: int
  unsatisfiable :: bool
  overlaps :: int
  reversals :: int

definition br_init :: br_state where
  "br_init = \<lparr>in_merge = False, ostart = 0, oend = 0, indexes = [], sum_lengths = 0, num_ranges = 0,
     unsatisfiable = False, overlaps = 0, reversals = 0\<rparr>"

definition push_range :: "br_state \<Rightarrow> br_state" where
  "push_range st = st\<lparr>indexes := indexes st @ [(ostart st, oend st)],
     sum_lengths := sum_lengths st + (oend st - ostart st + 1), num_ranges := num_ranges st + 1\<rparr>"

text \<open>The part of the loop that merges a range with the current one or starts a new one.\<close>

definition merge_range :: "int \<Rightarrow> int \<Rightarrow> br_state \<Rightarrow> br_state" where
  "merge_range start end st =
     (if \<not> in_merge st then st\<lparr>ostart := start, oend := end, in_merge := True\<rparr>
      else
        let inside = (start \<ge> ostart st \<and> end \<le> oend st);
            left = (start < ostart st \<and> end \<ge> ostart st - 1);
            st1 = (if left then st\<lparr>ostart := start, reversals := reversals st + 1\<rparr> else st);
            right = (end \<ge> oend st1 \<and> start \<le> oend st1 + 1);
            st2 = (if right then st1\<lparr>oend := end\<rparr> else st1)
        in if inside \<or> left \<or> right then st2\<lparr>overlaps := overlaps st2 + 1\<rparr>
           else (push_range st2)\<lparr>ostart := start, oend := end\<rparr>)"

definition add_range :: "int \<Rightarrow> int \<Rightarrow> int \<Rightarrow> br_state \<Rightarrow> br_state" where
  "add_range clength start end st =
     (let start' = (if start < 0 then 0 else start)
      in if start' \<ge> clength then st\<lparr>unsatisfiable := True\<rparr>
         else merge_range start' (if end \<ge> clength then clength - 1 else end) st)"

text \<open>The loop over the comma-separated words; \<open>None\<close> is \<open>return 0\<close> for a malformed range.\<close>

fun br_loop :: "(string \<Rightarrow> (int \<times> string) option) \<Rightarrow> int \<Rightarrow> string list \<Rightarrow> br_state \<Rightarrow> br_state option" where
  "br_loop strtoff clength [] st = Some st"
| "br_loop strtoff clength (cur # rest) st =
     (case parse_range strtoff clength cur of
        Bad_Spec \<Rightarrow> None
      | From_Zero \<Rightarrow> Some (st\<lparr>num_ranges := 0, sum_lengths := 0, in_merge := True, oend := clength - 1, ostart := 0,
                            indexes := []\<rparr>)
      | Spec start end \<Rightarrow> br_loop strtoff clength rest (add_range clength start end st))"

text \<open>The words up to the first empty one.\<close>

function range_words :: "string \<Rightarrow> string list" where
  "range_words line =
     (case ap_getword line (CHR '','') of (cur, rest) \<Rightarrow> if cur = [] then [] else cur # range_words rest)"
  by pat_completeness auto
termination
proof (relation "measure length", simp, goal_cases)
  case (1 line cur rest)
  then have g: "ap_getword line (CHR '','') = (cur, rest)" by metis
  let ?p = "dropWhile (\<lambda>c. c \<noteq> CHR '','') line"
  have r: "rest = dropWhile (\<lambda>c. c = CHR '','') ?p" and c: "cur = takeWhile (\<lambda>c. c \<noteq> CHR '','') line"
    using g by (auto simp: ap_getword_def Let_def take_dropWhile)
  have "length line = length cur + length ?p" unfolding c by (metis length_append takeWhile_dropWhile_id)
  moreover have "length rest \<le> length ?p" unfolding r by (rule length_dropWhile_le)
  ultimately show ?case using 1(2) by (cases cur) auto
qed

declare range_words.simps [simp del]

record range_request =
  assbackwards :: bool
  range_header :: "string option"
  req_status :: int
  has_content_range :: bool
  out_content_type :: "string option"
  if_range_nomatch :: bool

text \<open>The result is \<open>num_ranges\<close> with the ranges, the overlaps and the reversals.\<close>

definition ap_set_byterange :: "(string \<Rightarrow> (int \<times> string) option) \<Rightarrow> range_request \<Rightarrow> int \<Rightarrow> int \<times> br_state" where
  "ap_set_byterange strtoff r clength =
     (case range_header r of
        None \<Rightarrow> (0, br_init)
      | Some rng \<Rightarrow>
          if assbackwards r \<or> \<not> strncaseeq rng ''bytes='' 6 \<or> req_status r \<noteq> HTTP_OK \<or> has_content_range r
             \<or> (case out_content_type r of None \<Rightarrow> False | Some ct \<Rightarrow>
                  strncaseeq ct ''multipart/byteranges'' 20 \<or> strncaseeq ct ''multipart/x-byteranges'' 22)
             \<or> if_range_nomatch r
          then (0, br_init)
          else (case br_loop strtoff clength (range_words (drop 6 rng)) br_init of
            None \<Rightarrow> (0, br_init)
          | Some st \<Rightarrow>
              if \<not> in_merge st \<and> num_ranges st = 0 \<and> unsatisfiable st then (-1, st)
              else let st' = (if in_merge st then push_range st else st)
                   in if sum_lengths st' > clength then (0, st') else (num_ranges st', st')))"

section \<open>Copying a range out of a brigade\<close>

text \<open>
  The first loop of \<open>copy_brigade_range\<close>: the index and the offset of the bucket in which the range begins, and of
  the one in which it ends. The brigade is the list of the contents of its buckets, which have known lengths.
\<close>

fun range_scan :: "nat \<Rightarrow> nat \<Rightarrow> nat \<Rightarrow> nat \<Rightarrow> (nat \<times> nat) option \<Rightarrow> string list \<Rightarrow> (nat \<times> nat) option \<times> (nat \<times> nat) option" where
  "range_scan start64 end64 pos i first [] = (first, None)"
| "range_scan start64 end64 pos i first (e # bb) =
     (let first' = (if first = None \<and> length e + pos > start64 then Some (i, pos) else first)
      in if length e + pos > end64 then (first', Some (i, pos))
         else range_scan start64 end64 (pos + length e) (i + 1) first' bb)"

text \<open>The copy of the bucket \<open>k\<close> in the second loop, cut at the beginning and at the end of the range.\<close>

definition range_piece :: "nat \<Rightarrow> nat \<Rightarrow> nat \<times> nat \<Rightarrow> nat \<times> nat \<Rightarrow> string list \<Rightarrow> nat \<Rightarrow> string" where
  "range_piece start64 end64 fst_b lst bb k =
     (let e = bb ! k;
          copy = (if k = fst fst_b \<and> snd fst_b \<noteq> start64 then drop (start64 - snd fst_b) e else e);
          off_last = (if fst lst = fst fst_b then snd lst + (start64 - snd fst_b) else snd lst)
      in if k = fst lst \<and> end64 - off_last \<noteq> length e then take (end64 + 1 - off_last) copy else copy)"

definition copy_brigade_range :: "string list \<Rightarrow> int \<Rightarrow> int \<Rightarrow> apr_status + string list" where
  "copy_brigade_range bb start end =
     (if start < 0 \<or> end < 0 \<or> start > end then Inl APR_EINVAL
      else case range_scan (nat start) (nat end) 0 0 None bb of
        (Some fst_b, Some lst) \<Rightarrow>
          Inr (map (range_piece (nat start) (nat end) fst_b lst bb) [fst fst_b..<Suc (fst lst)])
      | _ \<Rightarrow> Inl APR_EINVAL)"

section \<open>The filter\<close>

text \<open>\<open>BYTERANGE_FMT\<close>.\<close>

fun dec_digits :: "nat \<Rightarrow> string" where
  "dec_digits n = (if n < 10 then [char_of (n + 48)] else dec_digits (n div 10) @ [char_of (n mod 10 + 48)])"

declare dec_digits.simps [simp del]

definition dec :: "int \<Rightarrow> string" where
  "dec n = (if n < 0 then CHR ''-'' # dec_digits (nat (- n)) else dec_digits (nat n))"

definition BYTERANGE_FMT :: "int \<Rightarrow> int \<Rightarrow> int \<Rightarrow> string" where
  "BYTERANGE_FMT start end clength = dec start @ ''-'' @ dec end @ ''/'' @ dec clength"

text \<open>
  \<open>ap_byterange_filter\<close> on a brigade that ends in an end-of-stream bucket and has no bucket of unknown
  length: the brigade is passed on as it is, or answered with status 416, or with status 206, the
  \<open>Content-Range\<close> header field for a single range and the bytes of the body. \<open>bound_head\<close> and \<open>bound_end\<close> are the
  boundary lines of a multipart body. A range whose copy fails is left out. A limit below zero is no limit.
\<close>

datatype byterange_result = Passed | Status_416 | Partial "string option" string

fun byterange_send :: "string \<Rightarrow> bool \<Rightarrow> int \<Rightarrow> string list \<Rightarrow> (int \<times> int) list \<Rightarrow> string option \<times> bool \<times> string" where
  "byterange_send bound_head multi clength bb [] = (None, False, [])"
| "byterange_send bound_head multi clength bb ((start, end) # idxs) =
     (case byterange_send bound_head multi clength bb idxs of (cr, found, body) \<Rightarrow>
        (case copy_brigade_range bb start end of
           Inl rv \<Rightarrow> (cr, found, body)
         | Inr tmpbb \<Rightarrow>
             if \<not> multi
             then (if cr = None then Some (''bytes '' @ BYTERANGE_FMT start end clength) else cr, True, concat tmpbb @ body)
             else (cr, True, bound_head @ BYTERANGE_FMT start end clength @ [CHR 0x0D, CHR 0x0A, CHR 0x0D, CHR 0x0A] @
                     concat tmpbb @ body)))"

definition over_limit :: "int \<Rightarrow> int \<Rightarrow> bool" where
  "over_limit max_n n \<longleftrightarrow> max_n \<ge> 0 \<and> n > max_n"

definition ap_byterange_filter :: "(string \<Rightarrow> (int \<times> string) option) \<Rightarrow> range_request \<Rightarrow> int \<Rightarrow> int \<Rightarrow> int \<Rightarrow>
    string \<Rightarrow> string \<Rightarrow> string list \<Rightarrow> byterange_result" where
  "ap_byterange_filter strtoff r max_ranges max_overlaps max_reversals bound_head bound_end bb =
     (let clength = int (length (concat bb))
      in if clength \<le> 0 then Passed
         else case ap_set_byterange strtoff r clength of (n, st) \<Rightarrow>
           if n = 0 \<or> over_limit max_ranges n \<or> over_limit max_overlaps (overlaps st)
              \<or> over_limit max_reversals (reversals st)
           then Passed
           else if n < 0 then Status_416
           else case byterange_send bound_head (n > 1) clength bb (indexes st) of (cr, found, body) \<Rightarrow>
             if \<not> found then Status_416
             else Partial cr (body @ (if n > 1 then bound_end else [])))"

section \<open>The bytes of the merged ranges\<close>

definition range_bytes :: "(int \<times> int) list \<Rightarrow> int set" where
  "range_bytes rs = (\<Union>(s, e)\<in>set rs. {s..e})"

definition st_bytes :: "br_state \<Rightarrow> int set" where
  "st_bytes st = range_bytes (indexes st) \<union> (if in_merge st then {ostart st..oend st} else {})"

definition range_total :: "(int \<times> int) list \<Rightarrow> int" where
  "range_total rs = sum_list (map (\<lambda>(s, e). e - s + 1) rs)"

definition br_inv :: "int \<Rightarrow> br_state \<Rightarrow> bool" where
  "br_inv clength st \<longleftrightarrow>
     list_all (\<lambda>(s, e). 0 \<le> s \<and> s \<le> e \<and> e < clength) (indexes st) \<and>
     (in_merge st \<longrightarrow> 0 \<le> ostart st \<and> ostart st \<le> oend st \<and> oend st < clength) \<and>
     num_ranges st = int (length (indexes st)) \<and> sum_lengths st = range_total (indexes st) \<and>
     (\<not> in_merge st \<longrightarrow> indexes st = [])"

lemma range_lists:
  "range_bytes (rs @ rs') = range_bytes rs \<union> range_bytes rs'" "range_total (rs @ rs') = range_total rs + range_total rs'"
  "range_bytes [] = {}" "range_total [] = 0" "range_bytes ((s, e) # rs) = {s..e} \<union> range_bytes rs"
  "range_total ((s, e) # rs) = (e - s + 1) + range_total rs"
  by (auto simp: range_bytes_def range_total_def)

lemma push_inv:
  "br_inv clength st \<Longrightarrow> in_merge st \<Longrightarrow> 0 \<le> s \<Longrightarrow> s \<le> e \<Longrightarrow> e < clength \<Longrightarrow>
   br_inv clength (push_range st\<lparr>ostart := s, oend := e\<rparr>)"
  by (simp add: br_inv_def push_range_def range_lists)

lemma merge_range_correct:
  assumes "br_inv clength st" "0 \<le> s" "s \<le> e" "e < clength"
  shows "br_inv clength (merge_range s e st)" "st_bytes (merge_range s e st) = st_bytes st \<union> {s..e}"
proof -
  show "br_inv clength (merge_range s e st)"
  proof (cases "in_merge st")
    case True
    then show ?thesis using assms by (auto simp: br_inv_def merge_range_def Let_def push_range_def range_lists)
  qed (use assms in \<open>simp add: br_inv_def merge_range_def\<close>)
  show "st_bytes (merge_range s e st) = st_bytes st \<union> {s..e}"
  proof (cases "in_merge st")
    case True
    then have "ostart st \<le> oend st" using assms(1) by (simp add: br_inv_def)
    then show ?thesis using True assms(3)
      by (auto simp: st_bytes_def merge_range_def Let_def push_range_def range_lists)
  qed (use assms(1) in \<open>auto simp: st_bytes_def merge_range_def br_inv_def range_lists\<close>)
qed

text \<open>What \<open>apr_strtoff\<close> promises: a number without a minus sign is not negative.\<close>

definition strtoff_nonneg :: "(string \<Rightarrow> (int \<times> string) option) \<Rightarrow> bool" where
  "strtoff_nonneg strtoff \<longleftrightarrow> (\<forall>s n r. CHR ''-'' \<notin> set s \<longrightarrow> strtoff s = Some (n, r) \<longrightarrow> 0 \<le> n)"

text \<open>The bytes of the content that a list of range specifications asks for.\<close>

fun requested :: "(string \<Rightarrow> (int \<times> string) option) \<Rightarrow> int \<Rightarrow> string list \<Rightarrow> int set" where
  "requested strtoff clength [] = {}"
| "requested strtoff clength (w # ws) =
     (case parse_range strtoff clength w of
        Bad_Spec \<Rightarrow> {}
      | From_Zero \<Rightarrow> {0..<clength}
      | Spec s e \<Rightarrow> ({s..e} \<inter> {0..<clength}) \<union> requested strtoff clength ws)"

lemma no_dash_before: "c_strchr cur c = Some i \<Longrightarrow> c \<noteq> NUL \<Longrightarrow> c \<notin> set (take i cur)"
  by (auto simp: c_strchr_def takeWhile_eq_take [symmetric] dest: set_takeWhileD split: if_splits)

lemma parse_range_Spec:
  assumes "strtoff_nonneg strtoff" "0 < clength" "parse_range strtoff clength cur = Spec s e"
  shows "0 \<le> e \<and> (s \<le> e \<or> clength \<le> s)"
proof -
  obtain dash where d: "c_strchr cur (CHR ''-'') = Some dash" using assms(3) by (auto simp: parse_range_def split: option.splits)
  have nn: "0 \<le> n" if "range_number strtoff (take dash cur) = Some n" for n
    using assms(1) that no_dash_before [OF d] by (auto simp: strtoff_nonneg_def range_number_def split: option.splits if_splits)
  show ?thesis
    using assms(2,3) d by (auto simp: parse_range_def split: option.splits if_splits dest!: nn)
qed

lemma add_range_correct:
  assumes "br_inv clength st" "0 < clength" "0 \<le> e \<and> (s \<le> e \<or> clength \<le> s)"
  shows "br_inv clength (add_range clength s e st)"
    "st_bytes (add_range clength s e st) = st_bytes st \<union> ({s..e} \<inter> {0..<clength})"
proof -
  have unsat: "br_inv clength (st\<lparr>unsatisfiable := True\<rparr>)" "st_bytes (st\<lparr>unsatisfiable := True\<rparr>) = st_bytes st"
    using assms(1) by (simp_all add: br_inv_def st_bytes_def)
  let ?s = "if s < 0 then 0 else s" and ?e = "if e \<ge> clength then clength - 1 else e"
  have eq: "add_range clength s e st = (if ?s \<ge> clength then st\<lparr>unsatisfiable := True\<rparr> else merge_range ?s ?e st)"
    by (simp add: add_range_def Let_def)
  have "br_inv clength (add_range clength s e st) \<and>
    st_bytes (add_range clength s e st) = st_bytes st \<union> ({s..e} \<inter> {0..<clength})"
  proof (cases "?s \<ge> clength")
    case True
    then have "{s..e} \<inter> {0..<clength} = {}" using assms(2) by (auto split: if_splits)
    then show ?thesis using True unsat eq by simp
  next
    case False
    then have v: "0 \<le> ?s" "?s \<le> ?e" "?e < clength" using assms(2,3) by (auto split: if_splits)
    have "{?s..?e} = {s..e} \<inter> {0..<clength}" by auto
    then show ?thesis using False eq merge_range_correct [OF assms(1) v] by simp
  qed
  then show "br_inv clength (add_range clength s e st)"
    "st_bytes (add_range clength s e st) = st_bytes st \<union> ({s..e} \<inter> {0..<clength})" by auto
qed

lemma br_loop_correct:
  assumes "strtoff_nonneg strtoff" "0 < clength"
  shows "br_inv clength st \<Longrightarrow> st_bytes st \<subseteq> {0..<clength} \<Longrightarrow> br_loop strtoff clength ws st = Some st' \<Longrightarrow>
    br_inv clength st' \<and> st_bytes st' = st_bytes st \<union> requested strtoff clength ws"
proof (induction ws arbitrary: st)
  case (Cons w ws)
  show ?case
  proof (cases "parse_range strtoff clength w")
    case From_Zero
    have "{0..clength - 1} = {0..<clength}" by auto
    then show ?thesis
      using From_Zero Cons.prems assms(2) by (auto simp: br_inv_def st_bytes_def range_lists)
  next
    case (Spec s e)
    note v = parse_range_Spec [OF assms Spec]
    note a = add_range_correct [OF Cons.prems(1) assms(2) v]
    have "br_loop strtoff clength ws (add_range clength s e st) = Some st'" using Cons.prems(3) Spec by simp
    moreover have "st_bytes (add_range clength s e st) \<subseteq> {0..<clength}" using Cons.prems(2) a(2) by auto
    ultimately show ?thesis using Cons.IH [OF a(1)] a(2) Spec by auto
  qed (use Cons.prems in simp)
qed simp

text \<open>What is left after the loop.\<close>

lemma final_push:
  assumes "br_inv clength st" "in_merge st"
  shows "range_bytes (indexes (push_range st)) = st_bytes st"
    "list_all (\<lambda>(s, e). 0 \<le> s \<and> s \<le> e \<and> e < clength) (indexes (push_range st))"
    "num_ranges (push_range st) = int (length (indexes (push_range st)))"
    "sum_lengths (push_range st) = range_total (indexes (push_range st))"
  using assms by (auto simp: br_inv_def push_range_def st_bytes_def range_lists)

section \<open>The bytes that are copied\<close>

lemma range_scan_last:
  "range_scan s e pos i (Some f) bb = (Some f, lst) \<Longrightarrow> pos \<le> e \<Longrightarrow>
   (if e < pos + length (concat bb)
    then \<exists>j < length bb. lst = Some (i + j, pos + length (concat (take j bb))) \<and>
      pos + length (concat (take j bb)) \<le> e \<and> e < pos + length (concat (take j bb)) + length (bb ! j)
    else lst = None)"
proof (induction bb arbitrary: pos i)
  case (Cons b bb)
  show ?case
  proof (cases "length b + pos > e")
    case True
    then show ?thesis using Cons.prems by (auto intro!: exI [of _ 0])
  next
    case False
    then have "range_scan s e (pos + length b) (i + 1) (Some f) bb = (Some f, lst)" "pos + length b \<le> e"
      using Cons.prems by auto
    note IH = Cons.IH [OF this]
    show ?thesis
    proof (cases "e < pos + length (concat (b # bb))")
      case True
      then obtain j where "j < length bb" "lst = Some (i + 1 + j, pos + length b + length (concat (take j bb)))"
          "pos + length b + length (concat (take j bb)) \<le> e"
          "e < pos + length b + length (concat (take j bb)) + length (bb ! j)"
        using IH by (auto split: if_splits)
      then show ?thesis using True by (intro if_P [THEN iffD2] exI [of _ "Suc j"]) auto
    next
      case False
      then show ?thesis using IH by simp
    qed
  qed
qed simp

lemma range_scan_fst: "fst (range_scan s e pos i (Some f) bb) = Some f"
  by (induction bb arbitrary: pos i) (auto simp: Let_def)

text \<open>The offset of a bucket, and the buckets in which a range begins and ends.\<close>

definition offset :: "string list \<Rightarrow> nat \<Rightarrow> nat" where
  "offset bb j = length (concat (take j bb))"

definition within :: "string list \<Rightarrow> nat \<Rightarrow> nat \<Rightarrow> nat \<Rightarrow> bool" where
  "within bb pos j x \<longleftrightarrow> j < length bb \<and> pos + offset bb j \<le> x \<and> x < pos + offset bb j + length (bb ! j)"

lemma offset_Cons: "offset (b # bb) (Suc j) = length b + offset bb j" "offset bb 0 = 0"
  by (simp_all add: offset_def)

lemma within_Suc: "within (b # bb) pos (Suc j) x \<longleftrightarrow> within bb (pos + length b) j x"
  by (simp add: within_def offset_Cons add.assoc)

lemma range_scan_first:
  assumes "s \<le> e"
  shows "pos \<le> s \<Longrightarrow> e < pos + length (concat bb) \<Longrightarrow>
    \<exists>j k. j \<le> k \<and> within bb pos j s \<and> within bb pos k e \<and>
      range_scan s e pos i None bb = (Some (i + j, pos + offset bb j), Some (i + k, pos + offset bb k))"
proof (induction bb arbitrary: pos i)
  case (Cons b bb)
  show ?case
  proof (cases "length b + pos > s")
    case first: True
    show ?thesis
    proof (cases "length b + pos > e")
      case True
      then show ?thesis using first Cons.prems assms
        by (intro exI [of _ 0]) (simp add: within_def offset_Cons)
    next
      case False
      obtain lst where r: "range_scan s e (pos + length b) (i + 1) (Some (i, pos)) bb = (Some (i, pos), lst)"
        using range_scan_fst [of s e "pos + length b" "i + 1" "(i, pos)" bb]
        by (cases "range_scan s e (pos + length b) (i + 1) (Some (i, pos)) bb") auto
      then obtain k where "within bb (pos + length b) k e" "lst = Some (i + 1 + k, pos + length b + offset bb k)"
        using range_scan_last [OF r] False Cons.prems(2) by (auto simp: within_def offset_def)
      then show ?thesis using first False r Cons.prems(1)
        by (intro exI [of _ 0] exI [of _ "Suc k"]) (auto simp: within_Suc offset_Cons within_def [of "b # bb" _ 0])
    qed
  next
    case False
    then have "pos + length b \<le> s" "e < (pos + length b) + length (concat bb)" using Cons.prems by auto
    from Cons.IH [OF this, of "i + 1"] obtain j k where "j \<le> k" "within bb (pos + length b) j s" "within bb (pos + length b) k e"
      "range_scan s e (pos + length b) (i + 1) None bb =
         (Some (i + 1 + j, pos + length b + offset bb j), Some (i + 1 + k, pos + length b + offset bb k))" by blast
    then show ?thesis using False assms
      by (intro exI [of _ "Suc j"] exI [of _ "Suc k"]) (simp add: within_Suc offset_Cons add.assoc)
  qed
qed (use assms in simp)

lemma range_scan_none: "pos \<le> s \<Longrightarrow> s \<le> e \<Longrightarrow> pos + length (concat bb) \<le> e \<Longrightarrow> snd (range_scan s e pos i f bb) = None"
proof (induction bb arbitrary: pos i f)
  case (Cons b bb)
  have "snd (range_scan s e p n g bb) = None" if "p + length (concat bb) \<le> e" for p n g
    using that by (induction bb arbitrary: p n g) (auto simp: Let_def)
  then show ?case using Cons.prems by (simp add: Let_def)
qed simp

lemma slice_append:
  assumes "length A \<le> s" "s \<le> length A + length X" "length A + length X \<le> n" "n \<le> length A + length X + length Y"
  shows "take (n - s) (drop s (A @ X @ Y @ C)) = drop (s - length A) X @ take (n - length A - length X) Y"
  using assms by (simp add: add.commute)

lemma bucket_split: "j < length bb \<Longrightarrow> concat bb = concat (take j bb) @ bb ! j @ concat (drop (Suc j) bb)"
  by (metis concat.simps(2) concat_append id_take_nth_drop)

lemma range_pieces:
  assumes "s \<le> e" "j \<le> k" "within bb 0 j s" "within bb 0 k e"
  shows "concat (map (range_piece s e (j, offset bb j) (k, offset bb k) bb) [j..<Suc k]) =
    take (Suc e - s) (drop s (concat bb))"
proof -
  let ?p = "range_piece s e (j, offset bb j) (k, offset bb k) bb"
  have oj: "length (concat (take j bb)) = offset bb j" and ok: "length (concat (take k bb)) = offset bb k"
    by (simp_all add: offset_def)
  have jk: "j < length bb" "k < length bb" "offset bb j \<le> s" "s < offset bb j + length (bb ! j)"
    "offset bb k \<le> e" "e < offset bb k + length (bb ! k)" using assms(3,4) by (auto simp: within_def)
  show ?thesis
  proof (cases "j = k")
    case True
    have "concat bb = concat (take j bb) @ [] @ (bb ! j) @ concat (drop (Suc j) bb)"
      using bucket_split [OF jk(1)] by simp
    moreover have "take (Suc e - s) (drop s (concat (take j bb) @ (bb ! j) @ concat (drop (Suc j) bb))) =
        take (Suc e - s) (drop (s - offset bb j) (bb ! j))"
      using jk assms(1) True oj by simp
    moreover have "?p j = take (Suc e - s) (drop (s - offset bb j) (bb ! j))"
      using True jk by (auto simp: range_piece_def Let_def)
    ultimately show ?thesis using True by simp
  next
    case False
    then have lt: "j < k" using assms(2) by simp
    let ?M = "concat (drop (Suc j) (take k bb))"
    have "concat (take k bb) = concat (take j bb) @ (bb ! j) @ ?M"
      using bucket_split [of j "take k bb"] lt jk by (simp add: min_absorb1)
    then have whole: "concat bb = concat (take j bb) @ (bb ! j @ ?M) @ (bb ! k) @ concat (drop (Suc k) bb)"
      and len: "offset bb j + length (bb ! j @ ?M) = offset bb k"
      using bucket_split [OF jk(2)] oj ok by auto
    have "map ?p [Suc j..<k] = drop (Suc j) (take k bb)"
      using jk by (intro nth_equalityI) (auto simp: range_piece_def Let_def)
    moreover have "[j..<Suc k] = j # [Suc j..<k] @ [k]" using lt by (simp add: upt_conv_Cons)
    moreover have "?p j = drop (s - offset bb j) (bb ! j)" using lt jk by (auto simp: range_piece_def Let_def)
    moreover have "?p k = take (Suc e - offset bb k) (bb ! k)" using lt jk by (auto simp: range_piece_def Let_def)
    ultimately have l: "concat (map ?p [j..<Suc k]) =
        (drop (s - offset bb j) (bb ! j) @ ?M) @ take (Suc e - offset bb k) (bb ! k)" by simp
    have "take (Suc e - s) (drop s (concat bb)) =
        drop (s - offset bb j) (bb ! j @ ?M) @ take (Suc e - offset bb j - length (bb ! j @ ?M)) (bb ! k)"
      unfolding whole oj [symmetric]
      using jk len oj by (intro slice_append) simp_all
    also have "drop (s - offset bb j) (bb ! j @ ?M) = drop (s - offset bb j) (bb ! j) @ ?M"
      using jk by simp
    also have "Suc e - offset bb j - length (bb ! j @ ?M) = Suc e - offset bb k" using len by simp
    finally show ?thesis using l by simp
  qed
qed

section \<open>Properties\<close>


lemma example_range: "parse_range (\<lambda>s. Some (if s = ''1'' then 1 else 4, [])) 10 ''1-4'' = Spec 1 4"
  by (simp add: parse_range_def c_strchr_def range_number_def)


text \<open>
  \<open>copy_brigade_range\<close> copies exactly the bytes of a range. For a range within the content of the brigade, in
  whatever buckets that comes, the copy is the slice of the content from \<open>start\<close> to \<open>end\<close> inclusive; a
  range that ends behind the content is refused.
\<close>

theorem copy_brigade_range_exact:
  assumes "0 \<le> start" "start \<le> end"
  shows "if end < int (length (concat bb))
    then \<exists>out. copy_brigade_range bb start end = Inr out \<and>
      concat out = take (nat (end - start + 1)) (drop (nat start) (concat bb))
    else copy_brigade_range bb start end = Inl APR_EINVAL"
proof (cases "end < int (length (concat bb))")
  case True
  have se: "nat start \<le> nat end" "nat end < 0 + length (concat bb)" using assms True by auto
  obtain j k where jk: "j \<le> k" "within bb 0 j (nat start)" "within bb 0 k (nat end)"
      "range_scan (nat start) (nat end) 0 0 None bb = (Some (j, offset bb j), Some (k, offset bb k))"
    using range_scan_first [OF se(1) _ se(2), of 0] by auto
  have "Suc (nat end) - nat start = nat (end - start + 1)" using assms by auto
  then show ?thesis
    using True assms jk(4) range_pieces [OF se(1) jk(1-3)] by (simp add: copy_brigade_range_def)
next
  case False
  then have "snd (range_scan (nat start) (nat end) 0 0 None bb) = None"
    using assms by (intro range_scan_none) auto
  then show ?thesis using False assms
    by (auto simp: copy_brigade_range_def split: option.splits prod.splits)
qed

theorem copy_brigade_range_exact_witness:
  "copy_brigade_range [''ab'', ''cde''] 1 3 = Inr [''b'', ''cd''] \<and>
   (\<exists>out. copy_brigade_range [''ab'', ''cde''] 1 3 = Inr out \<and> concat out = ''bcd'')"
  using copy_brigade_range_exact [of 1 3 "[''ab'', ''cde'']"]
  by (simp add: copy_brigade_range_def range_piece_def numeral_eq_Suc upt_rec)

end
