(* ===== verification/Fd_Queue.thy ===== *)
theory Fd_Queue
  imports Ring
begin

text \<open>
  The connection queues of the two threaded MPMs: \<open>fd_queue_t\<close> of
  \<^verbatim>\<open>server/mpm/worker/fdqueue.c\<close>, a bounded ring buffer, and the one of
  \<^verbatim>\<open>server/mpm/event/fdqueue.c\<close>, the same ring beside a list of timer events that is served
  first. Both are proved to be first-in first-out queues (locale \<open>bounded_fifo\<close>).

  Each operation runs between the lock and the unlock of \<open>one_big_mutex\<close>, so it is one atomic
  function of the queue; the results of the two mutex calls are arguments. An operation that
  reaches \<open>apr_thread_cond_wait\<close> is split there: the first half ends in \<open>PopWait\<close> and the second
  half runs when the thread has woken up with the mutex. The assertions of \<open>AP_DEBUG_ASSERT\<close> are
  not compiled into a release build and are not part of the operations: that they hold is a
  theorem of \<open>Worker_Mpm\<close>. The counters are \<open>unsigned int\<close> below the capacity, which is an \<open>int\<close>,
  so they never wrap around and are modelled as natural numbers.
\<close>

section \<open>The ring of the worker MPM\<close>

record 'e fd_queue =
  data :: "'e option list"
  nelts :: nat
  bounds :: nat
  q_in :: nat
  q_out :: nat
  terminated :: bool

definition ap_queue_full :: "('e, 'z) fd_queue_scheme \<Rightarrow> bool" where
  "ap_queue_full q \<longleftrightarrow> nelts q = bounds q"

definition ap_queue_empty :: "('e, 'z) fd_queue_scheme \<Rightarrow> bool" where
  "ap_queue_empty q \<longleftrightarrow> nelts q = 0"

text \<open>
  \<open>ap_queue_init\<close> on a queue that the caller has zeroed: the mutex and the condition variable are
  created first, then every slot is set to NULL.
\<close>

definition ap_queue_init :: "apr_status \<Rightarrow> apr_status \<Rightarrow> nat \<Rightarrow> apr_status + 'e fd_queue" where
  "ap_queue_init mutex_rv cond_rv capacity =
     (if mutex_rv \<noteq> APR_SUCCESS then Inl mutex_rv
      else if cond_rv \<noteq> APR_SUCCESS then Inl cond_rv
      else Inr \<lparr>data = replicate capacity None, nelts = 0, bounds = capacity,
                q_in = 0, q_out = 0, terminated = False\<rparr>)"

definition enqueue :: "'e \<Rightarrow> ('e, 'z) fd_queue_scheme \<Rightarrow> ('e, 'z) fd_queue_scheme" where
  "enqueue e q =
     (let slot = q_in q;
          i = q_in q + 1;
          i = (if i \<ge> bounds q then i - bounds q else i)
      in q\<lparr>data := (data q)[slot := Some e], q_in := i, nelts := nelts q + 1\<rparr>)"

definition dequeue :: "('e, 'z) fd_queue_scheme \<Rightarrow> 'e option \<times> ('e, 'z) fd_queue_scheme" where
  "dequeue q =
     (let elem = (if q_out q < length (data q) then data q ! q_out q else None);
          i = q_out q + 1;
          i = (if i \<ge> bounds q then i - bounds q else i)
      in (elem, q\<lparr>q_out := i, nelts := nelts q - 1\<rparr>))"

definition ap_queue_push ::
  "apr_status \<Rightarrow> apr_status \<Rightarrow> ('e, 'z) fd_queue_scheme \<Rightarrow> 'e \<Rightarrow> apr_status \<times> ('e, 'z) fd_queue_scheme" where
  "ap_queue_push lock_rv unlock_rv q e =
     (if lock_rv \<noteq> APR_SUCCESS then (lock_rv, q)
      else (if unlock_rv \<noteq> APR_SUCCESS then unlock_rv else APR_SUCCESS, enqueue e q))"

datatype 'e pop_result = PopWait | PopFail apr_status | PopElem "'e option"

definition ap_queue_pop_resume ::
  "apr_status \<Rightarrow> ('e, 'z) fd_queue_scheme \<Rightarrow> 'e pop_result \<times> ('e, 'z) fd_queue_scheme" where
  "ap_queue_pop_resume unlock_rv q =
     (if ap_queue_empty q then
        (PopFail (if unlock_rv \<noteq> APR_SUCCESS then unlock_rv
                  else if terminated q then APR_EOF else APR_EINTR), q)
      else (case dequeue q of (e, q') \<Rightarrow>
              (if unlock_rv \<noteq> APR_SUCCESS then PopFail unlock_rv else PopElem e, q')))"

definition ap_queue_pop ::
  "apr_status \<Rightarrow> apr_status \<Rightarrow> ('e, 'z) fd_queue_scheme \<Rightarrow> 'e pop_result \<times> ('e, 'z) fd_queue_scheme" where
  "ap_queue_pop lock_rv unlock_rv q =
     (if lock_rv \<noteq> APR_SUCCESS then (PopFail lock_rv, q)
      else if ap_queue_empty q \<and> \<not> terminated q then (PopWait, q)
      else ap_queue_pop_resume unlock_rv q)"

text \<open>\<open>ap_queue_interrupt_all\<close> only wakes the waiters; \<open>ap_queue_term\<close> also sets the flag.\<close>

definition ap_queue_interrupt_all ::
  "apr_status \<Rightarrow> apr_status \<Rightarrow> ('e, 'z) fd_queue_scheme \<Rightarrow> apr_status \<times> ('e, 'z) fd_queue_scheme" where
  "ap_queue_interrupt_all lock_rv unlock_rv q =
     (if lock_rv \<noteq> APR_SUCCESS then (lock_rv, q) else (unlock_rv, q))"

definition ap_queue_term ::
  "apr_status \<Rightarrow> apr_status \<Rightarrow> apr_status \<Rightarrow> apr_status \<Rightarrow> ('e, 'z) fd_queue_scheme
     \<Rightarrow> apr_status \<times> ('e, 'z) fd_queue_scheme" where
  "ap_queue_term lock_rv unlock_rv lock2_rv unlock2_rv q =
     (if lock_rv \<noteq> APR_SUCCESS then (lock_rv, q)
      else let q' = q\<lparr>terminated := True\<rparr>
           in if unlock_rv \<noteq> APR_SUCCESS then (unlock_rv, q')
              else ap_queue_interrupt_all lock2_rv unlock2_rv q')"

section \<open>The queue of the event MPM\<close>

record ('e, 't) event_queue = "'e fd_queue" +
  timers :: "'t list"

definition event_queue_empty :: "('e, 't) event_queue \<Rightarrow> bool" where
  "event_queue_empty q \<longleftrightarrow> nelts q = 0 \<and> timers q = []"

definition event_queue_init :: "apr_status \<Rightarrow> apr_status \<Rightarrow> nat \<Rightarrow> apr_status + ('e, 't) event_queue" where
  "event_queue_init mutex_rv cond_rv capacity =
     (if mutex_rv \<noteq> APR_SUCCESS then Inl mutex_rv
      else if cond_rv \<noteq> APR_SUCCESS then Inl cond_rv
      else Inr \<lparr>data = replicate capacity None, nelts = 0, bounds = capacity,
                q_in = 0, q_out = 0, terminated = False, timers = []\<rparr>)"

definition event_queue_push ::
  "apr_status \<Rightarrow> apr_status \<Rightarrow> ('e, 't) event_queue \<Rightarrow> 'e \<Rightarrow> apr_status \<times> ('e, 't) event_queue" where
  "event_queue_push lock_rv unlock_rv q e =
     (if lock_rv \<noteq> APR_SUCCESS then (lock_rv, q)
      else (if unlock_rv \<noteq> APR_SUCCESS then unlock_rv else APR_SUCCESS, enqueue e q))"

definition ap_queue_push_timer ::
  "apr_status \<Rightarrow> apr_status \<Rightarrow> ('e, 't) event_queue \<Rightarrow> 't \<Rightarrow> apr_status \<times> ('e, 't) event_queue" where
  "ap_queue_push_timer lock_rv unlock_rv q te =
     (if lock_rv \<noteq> APR_SUCCESS then (lock_rv, q)
      else (if unlock_rv \<noteq> APR_SUCCESS then unlock_rv else APR_SUCCESS,
            q\<lparr>timers := timers q @ [te]\<rparr>))"

datatype ('e, 't) something = SomeTimer 't | SomeConn "'e option" | SomeWait | SomeFail apr_status

definition ap_queue_pop_something_resume ::
  "apr_status \<Rightarrow> ('e, 't) event_queue \<Rightarrow> ('e, 't) something \<times> ('e, 't) event_queue" where
  "ap_queue_pop_something_resume unlock_rv q =
     (if event_queue_empty q then
        (SomeFail (if unlock_rv \<noteq> APR_SUCCESS then unlock_rv
                   else if terminated q then APR_EOF else APR_EINTR), q)
      else case timers q of
        te # ts \<Rightarrow> (if unlock_rv \<noteq> APR_SUCCESS then SomeFail unlock_rv else SomeTimer te,
                    q\<lparr>timers := ts\<rparr>)
      | [] \<Rightarrow> (case dequeue q of (e, q') \<Rightarrow>
                (if unlock_rv \<noteq> APR_SUCCESS then SomeFail unlock_rv else SomeConn e, q')))"

definition ap_queue_pop_something ::
  "apr_status \<Rightarrow> apr_status \<Rightarrow> ('e, 't) event_queue \<Rightarrow> ('e, 't) something \<times> ('e, 't) event_queue" where
  "ap_queue_pop_something lock_rv unlock_rv q =
     (if lock_rv \<noteq> APR_SUCCESS then (SomeFail lock_rv, q)
      else if event_queue_empty q \<and> \<not> terminated q then (SomeWait, q)
      else ap_queue_pop_something_resume unlock_rv q)"

section \<open>The ring as a list\<close>

definition queue_inv :: "('e, 'z) fd_queue_scheme \<Rightarrow> bool" where
  "queue_inv q \<longleftrightarrow> 0 < bounds q \<and> length (data q) = bounds q \<and> nelts q \<le> bounds q \<and>
     q_out q < bounds q \<and> q_in q = (q_out q + nelts q) mod bounds q \<and>
     (\<forall>k < nelts q. data q ! ((q_out q + k) mod bounds q) \<noteq> None)"

text \<open>The elements from the slot \<open>out\<close> on, in the order in which they leave.\<close>

definition contents :: "('e, 'z) fd_queue_scheme \<Rightarrow> 'e list" where
  "contents q = map (\<lambda>k. the (data q ! ((q_out q + k) mod bounds q))) [0..<nelts q]"

lemma length_contents [simp]: "length (contents q) = nelts q"
  by (simp add: contents_def)

lemma wrap_mod: "(i::nat) < b \<Longrightarrow> (if i + 1 \<ge> b then i + 1 - b else i + 1) = (i + 1) mod b"
  by (cases "i + 1 = b") auto

lemma enqueue_simps:
  assumes "queue_inv q"
  shows "enqueue e q = q\<lparr>data := (data q)[q_in q := Some e], q_in := (q_in q + 1) mod bounds q,
      nelts := nelts q + 1\<rparr>"
proof -
  have "q_in q < bounds q" using assms by (simp add: queue_inv_def)
  then show ?thesis by (simp only: enqueue_def Let_def wrap_mod)
qed

lemma dequeue_simps:
  assumes "queue_inv q"
  shows "dequeue q = (data q ! q_out q, q\<lparr>q_out := (q_out q + 1) mod bounds q, nelts := nelts q - 1\<rparr>)"
proof -
  have "q_out q < bounds q" "length (data q) = bounds q" using assms by (simp_all add: queue_inv_def)
  then show ?thesis by (simp only: dequeue_def Let_def wrap_mod if_True)
qed

lemma enqueue_slot:
  assumes "queue_inv q" "\<not> ap_queue_full q" "k \<le> nelts q"
  shows "(data q)[q_in q := Some e] ! ((q_out q + k) mod bounds q) =
    (if k = nelts q then Some e else data q ! ((q_out q + k) mod bounds q))"
proof -
  have n: "nelts q < bounds q" using assms by (simp add: queue_inv_def ap_queue_full_def)
  have "(q_out q + k) mod bounds q \<noteq> q_in q" if "k < nelts q"
    using that ring_slot [OF that n] assms(1) by (simp add: queue_inv_def)
  then show ?thesis using assms n by (auto simp: queue_inv_def)
qed

lemma enqueue_inv:
  assumes "queue_inv q" "\<not> ap_queue_full q"
  shows "queue_inv (enqueue e q)"
proof -
  have "(q_in q + 1) mod bounds q = (q_out q + (nelts q + 1)) mod bounds q"
    using assms by (simp add: queue_inv_def mod_simps)
  moreover have "nelts q + 1 \<le> bounds q" using assms by (simp add: queue_inv_def ap_queue_full_def)
  ultimately show ?thesis
    using assms enqueue_slot [OF assms, of _ e]
    by (auto simp: enqueue_simps queue_inv_def less_Suc_eq_le)
qed

lemma contents_enqueue:
  assumes "queue_inv q" "\<not> ap_queue_full q"
  shows "contents (enqueue e q) = contents q @ [e]"
proof -
  have "contents (enqueue e q) =
     map (\<lambda>k. the ((data q)[q_in q := Some e] ! ((q_out q + k) mod bounds q))) [0..<nelts q] @
     [the ((data q)[q_in q := Some e] ! ((q_out q + nelts q) mod bounds q))]"
    using assms by (simp add: contents_def enqueue_simps)
  also have "\<dots> = contents q @ [e]"
    using enqueue_slot [OF assms, of _ e] by (simp add: contents_def)
  finally show ?thesis .
qed

lemma dequeue_inv:
  assumes "queue_inv q" "nelts q \<noteq> 0"
  shows "queue_inv (snd (dequeue q))"
proof -
  obtain n where n: "nelts q = Suc n" using assms(2) by (cases "nelts q") auto
  have "((q_out q + 1) mod bounds q + k) mod bounds q = (q_out q + Suc k) mod bounds q" for k
    by (simp add: mod_simps)
  moreover have "data q ! ((q_out q + Suc k) mod bounds q) \<noteq> None" if "k < n" for k
    using assms(1) n that unfolding queue_inv_def by (metis Suc_less_eq)
  ultimately show ?thesis using assms n by (auto simp: dequeue_simps queue_inv_def)
qed

lemma contents_dequeue:
  assumes "queue_inv q" "nelts q \<noteq> 0"
  shows "contents q = the (fst (dequeue q)) # contents (snd (dequeue q))"
    and "fst (dequeue q) = Some (hd (contents q))"
proof -
  have shift: "((q_out q + 1) mod bounds q + k) mod bounds q = (q_out q + Suc k) mod bounds q" for k
    by (simp add: mod_simps)
  have "contents q = map (\<lambda>k. the (data q ! ((q_out q + k) mod bounds q))) (0 # map Suc [0..<nelts q - 1])"
    using assms(2) by (simp add: contents_def map_Suc_upt upt_conv_Cons)
  then show c: "contents q = the (fst (dequeue q)) # contents (snd (dequeue q))"
    using assms shift by (simp add: contents_def dequeue_simps queue_inv_def o_def)
  have "data q ! (q_out q mod bounds q) \<noteq> None" using assms by (auto simp: queue_inv_def)
  then show "fst (dequeue q) = Some (hd (contents q))"
    using assms c by (simp add: dequeue_simps queue_inv_def)
qed

section \<open>First in, first out\<close>

text \<open>
  The contract the MPMs rely on: a bounded queue with a list of contents, to which \<open>push\<close> appends
  while there is room and from which \<open>pop\<close> takes the head.
\<close>

locale bounded_fifo =
  fixes inv :: "'q \<Rightarrow> bool"
    and cap :: "'q \<Rightarrow> nat"
    and list :: "'q \<Rightarrow> 'e list"
    and push :: "'q \<Rightarrow> 'e \<Rightarrow> 'q"
    and pop :: "'q \<Rightarrow> 'e option \<times> 'q"
  assumes push_inv: "inv q \<Longrightarrow> length (list q) < cap q \<Longrightarrow> inv (push q e) \<and> cap (push q e) = cap q"
    and push_list: "inv q \<Longrightarrow> length (list q) < cap q \<Longrightarrow> list (push q e) = list q @ [e]"
    and pop_inv: "inv q \<Longrightarrow> inv (snd (pop q)) \<and> cap (snd (pop q)) = cap q"
    and pop_list: "inv q \<Longrightarrow> (fst (pop q), list (snd (pop q))) =
      (case list q of [] \<Rightarrow> (None, []) | e # es \<Rightarrow> (Some e, es))"
begin

definition push_all :: "'q \<Rightarrow> 'e list \<Rightarrow> 'q" where
  "push_all q es = foldl push q es"

fun pop_all :: "nat \<Rightarrow> 'q \<Rightarrow> 'e list" where
  "pop_all 0 q = []"
| "pop_all (Suc n) q = (case pop q of (None, q') \<Rightarrow> [] | (Some e, q') \<Rightarrow> e # pop_all n q')"

lemma push_all:
  "inv q \<Longrightarrow> length (list q) + length es \<le> cap q \<Longrightarrow>
   inv (push_all q es) \<and> list (push_all q es) = list q @ es"
  by (induction es arbitrary: q) (auto simp: push_all_def push_inv push_list)

lemma pop_all: "inv q \<Longrightarrow> length (list q) \<le> n \<Longrightarrow> pop_all n q = list q"
proof (induction n arbitrary: q)
  case 0
  then show ?case by simp
next
  case (Suc n)
  have e: "(fst (pop q), list (snd (pop q))) = (case list q of [] \<Rightarrow> (None, []) | e # es \<Rightarrow> (Some e, es))"
    using Suc.prems(1) by (rule pop_list)
  show ?case
  proof (cases "list q")
    case Nil
    with e show ?thesis by (cases "pop q") auto
  next
    case (Cons x xs)
    with e have "pop q = (Some x, snd (pop q))" "list (snd (pop q)) = xs"
      by (auto simp: prod_eq_iff)
    moreover have "inv (snd (pop q))" using pop_inv [OF Suc.prems(1)] by blast
    ultimately have "pop_all n (snd (pop q)) = xs" using Suc.IH Suc.prems(2) Cons by simp
    with \<open>pop q = (Some x, snd (pop q))\<close> Cons show ?thesis by (metis case_prod_conv option.simps(5) pop_all.simps(2))
  qed
qed

lemma fifo:
  "inv q \<Longrightarrow> length (list q) + length es \<le> cap q \<Longrightarrow>
   pop_all (length (list q) + length es) (push_all q es) = list q @ es"
  using push_all [of q es] pop_all [of "push_all q es"] by simp

end

text \<open>The two queues as clients call them when the mutex calls succeed.\<close>

definition worker_push :: "'e fd_queue \<Rightarrow> 'e \<Rightarrow> 'e fd_queue" where
  "worker_push q e = snd (ap_queue_push APR_SUCCESS APR_SUCCESS q e)"

definition worker_pop :: "'e fd_queue \<Rightarrow> 'e option \<times> 'e fd_queue" where
  "worker_pop q = (case ap_queue_pop APR_SUCCESS APR_SUCCESS q of
     (PopElem e, q') \<Rightarrow> (e, q') | (_, q') \<Rightarrow> (None, q'))"

definition event_push :: "('e, 't) event_queue \<Rightarrow> 'e \<Rightarrow> ('e, 't) event_queue" where
  "event_push q e = snd (event_queue_push APR_SUCCESS APR_SUCCESS q e)"

definition event_pop :: "('e, 't) event_queue \<Rightarrow> 'e option \<times> ('e, 't) event_queue" where
  "event_pop q = (case ap_queue_pop_something APR_SUCCESS APR_SUCCESS q of
     (SomeConn e, q') \<Rightarrow> (e, q') | (_, q') \<Rightarrow> (None, q'))"

lemma full_contents: "queue_inv q \<Longrightarrow> length (contents q) < bounds q \<longleftrightarrow> \<not> ap_queue_full q"
  by (auto simp: queue_inv_def ap_queue_full_def)

lemma not_fullI: "nelts q < bounds q \<Longrightarrow> \<not> ap_queue_full q"
  by (simp add: ap_queue_full_def)

lemma contents_Cons: "contents q = e # es \<Longrightarrow> 0 < nelts q"
  using length_contents [of q] by simp

lemma contents_Nil [simp]: "contents q = [] \<longleftrightarrow> nelts q = 0"
  by (simp add: contents_def)

lemma frame_simps [simp]:
  "bounds (enqueue e q) = bounds q" "bounds (snd (dequeue q)) = bounds q"
  "terminated (enqueue e q) = terminated q" "terminated (snd (dequeue q)) = terminated q"
  "nelts (enqueue e q) = Suc (nelts q)" "nelts (snd (dequeue q)) = nelts q - 1"
  by (simp_all add: enqueue_def dequeue_def Let_def)

lemma timers_frame [simp]: "timers (enqueue e q) = timers q" "timers (snd (dequeue q)) = timers q"
  by (simp_all add: enqueue_def dequeue_def Let_def)

lemma dequeue_contents_case:
  assumes "queue_inv q" "nelts q \<noteq> 0"
  shows "(fst (dequeue q), contents (snd (dequeue q))) =
    (case contents q of [] \<Rightarrow> (None, []) | e # es \<Rightarrow> (Some e, es))"
  using contents_dequeue [OF assms] assms(2) by (cases "contents q") auto

lemma worker_pop_eq: "worker_pop q = (if nelts q = 0 then (None, q) else dequeue q)"
  by (auto simp: worker_pop_def ap_queue_pop_def ap_queue_pop_resume_def ap_queue_empty_def
      split: prod.splits)

lemma event_pop_eq:
  "timers q = [] \<Longrightarrow> event_pop q = (if nelts q = 0 then (None, q) else dequeue q)"
  by (auto simp: event_pop_def ap_queue_pop_something_def ap_queue_pop_something_resume_def
      event_queue_empty_def split: prod.splits)

interpretation worker_fifo: bounded_fifo queue_inv bounds contents worker_push worker_pop
  by unfold_locales
     (auto simp: worker_push_def ap_queue_push_def not_fullI enqueue_inv contents_enqueue contents_Cons
        worker_pop_eq dequeue_inv dequeue_contents_case split: list.split)

interpretation event_fifo: bounded_fifo "\<lambda>q. queue_inv q \<and> timers q = []" bounds contents event_push event_pop
  by unfold_locales
     (auto simp: event_push_def event_queue_push_def not_fullI enqueue_inv contents_enqueue contents_Cons
        event_pop_eq dequeue_inv dequeue_contents_case split: list.split)

text \<open>Popping a number of times, as far as there is something to pop.\<close>

fun drain :: "('q \<Rightarrow> 'e option \<times> 'q) \<Rightarrow> nat \<Rightarrow> 'q \<Rightarrow> 'e list" where
  "drain pop 0 q = []"
| "drain pop (Suc n) q = (case pop q of (None, q') \<Rightarrow> [] | (Some e, q') \<Rightarrow> e # drain pop n q')"

lemma drain_worker: "drain worker_pop n q = worker_fifo.pop_all n q"
  by (induction n arbitrary: q) (auto split: prod.splits option.splits)

lemma drain_event: "drain event_pop n q = event_fifo.pop_all n q"
  by (induction n arbitrary: q) (auto split: prod.splits option.splits)

section \<open>Properties\<close>

text \<open>
  C25: the worker MPM's connection queue is a first-in first-out queue. On a well-formed queue a
  push that finds room succeeds and appends; a pop returns the oldest connection, or, on an empty
  queue, blocks, or reports end of file once the queue has been terminated; well-formedness is
  kept. Connections pushed into a freshly initialised queue, up to its capacity, are popped in
  the order in which they were pushed.
\<close>

theorem fd_queue_fifo:
  assumes "queue_inv q"
  shows "(\<not> ap_queue_full q \<longrightarrow>
      (\<exists>q'. ap_queue_push APR_SUCCESS APR_SUCCESS q e = (APR_SUCCESS, q') \<and> queue_inv q' \<and>
        contents q' = contents q @ [e])) \<and>
    (case contents q of
       [] \<Rightarrow> ap_queue_pop APR_SUCCESS APR_SUCCESS q =
          (if terminated q then PopFail APR_EOF else PopWait, q)
     | c # cs \<Rightarrow> (\<exists>q'. ap_queue_pop APR_SUCCESS APR_SUCCESS q = (PopElem (Some c), q') \<and>
          queue_inv q' \<and> contents q' = cs)) \<and>
    (ap_queue_init APR_SUCCESS APR_SUCCESS n = Inr q \<longrightarrow> length es \<le> n \<longrightarrow>
      drain worker_pop n (foldl worker_push q es) = es)"
proof (intro conjI impI)
  assume "\<not> ap_queue_full q"
  then show "\<exists>q'. ap_queue_push APR_SUCCESS APR_SUCCESS q e = (APR_SUCCESS, q') \<and> queue_inv q' \<and>
      contents q' = contents q @ [e]"
    using assms by (simp add: ap_queue_push_def enqueue_inv contents_enqueue)
next
  show "case contents q of
       [] \<Rightarrow> ap_queue_pop APR_SUCCESS APR_SUCCESS q =
          (if terminated q then PopFail APR_EOF else PopWait, q)
     | c # cs \<Rightarrow> (\<exists>q'. ap_queue_pop APR_SUCCESS APR_SUCCESS q = (PopElem (Some c), q') \<and>
          queue_inv q' \<and> contents q' = cs)"
  proof (cases "contents q")
    case Nil
    then have "nelts q = 0" by simp
    then show ?thesis unfolding Nil
      by (simp add: ap_queue_pop_def ap_queue_pop_resume_def ap_queue_empty_def)
  next
    case (Cons c cs)
    then have n: "nelts q \<noteq> 0" using contents_Cons [of q] by simp
    obtain q' where "dequeue q = (Some c, q')" "contents q' = cs"
      using contents_dequeue [OF assms n] Cons by (cases "dequeue q") auto
    then show ?thesis
      using dequeue_inv [OF assms n] n Cons
      by (simp add: ap_queue_pop_def ap_queue_pop_resume_def ap_queue_empty_def)
  qed
next
  assume "ap_queue_init APR_SUCCESS APR_SUCCESS n = Inr q" "length es \<le> n"
  then have "contents q = []" "bounds q = n" by (auto simp: ap_queue_init_def)
  with \<open>length es \<le> n\<close> show "drain worker_pop n (foldl worker_push q es) = es"
    using worker_fifo.push_all [OF assms, of es] worker_fifo.pop_all [of "worker_fifo.push_all q es" n]
    by (simp add: drain_worker worker_fifo.push_all_def)
qed

definition demo_queue :: "nat fd_queue" where
  "demo_queue = \<lparr>data = [Some 3, None], nelts = 1, bounds = 2, q_in = 1, q_out = 0, terminated = False\<rparr>"

theorem fd_queue_fifo_witness:
  "queue_inv demo_queue \<and> contents demo_queue = [3] \<and> \<not> ap_queue_full demo_queue \<and>
   (\<exists>q'. ap_queue_push APR_SUCCESS APR_SUCCESS demo_queue 7 = (APR_SUCCESS, q') \<and> contents q' = [3, 7])"
proof -
  have i: "queue_inv demo_queue" by (simp add: demo_queue_def queue_inv_def)
  have c: "contents demo_queue = [3]" by (simp add: demo_queue_def contents_def)
  have f: "\<not> ap_queue_full demo_queue" by (simp add: demo_queue_def ap_queue_full_def)
  show ?thesis using i c f fd_queue_fifo [OF i, of 7] by auto
qed

text \<open>
  The event MPM's queue serves timers before connections. A pop from a well-formed queue
  returns the oldest timer when there is one and leaves the connections alone, and otherwise the
  oldest connection; the connections alone are first-in first-out.
\<close>

theorem event_queue_timers_first:
  assumes "queue_inv q"
  shows "(case timers q of
       te # ts \<Rightarrow> ap_queue_pop_something APR_SUCCESS APR_SUCCESS q = (SomeTimer te, q\<lparr>timers := ts\<rparr>)
     | [] \<Rightarrow> (case contents q of
         [] \<Rightarrow> ap_queue_pop_something APR_SUCCESS APR_SUCCESS q =
            (if terminated q then SomeFail APR_EOF else SomeWait, q)
       | c # cs \<Rightarrow> (\<exists>q'. ap_queue_pop_something APR_SUCCESS APR_SUCCESS q = (SomeConn (Some c), q') \<and>
            queue_inv q' \<and> contents q' = cs \<and> timers q' = []))) \<and>
    (timers q = [] \<longrightarrow> nelts q + length es \<le> bounds q \<longrightarrow>
      drain event_pop (nelts q + length es) (foldl event_push q es) = contents q @ es)"
proof (intro conjI impI)
  show "case timers q of
       te # ts \<Rightarrow> ap_queue_pop_something APR_SUCCESS APR_SUCCESS q = (SomeTimer te, q\<lparr>timers := ts\<rparr>)
     | [] \<Rightarrow> (case contents q of
         [] \<Rightarrow> ap_queue_pop_something APR_SUCCESS APR_SUCCESS q =
            (if terminated q then SomeFail APR_EOF else SomeWait, q)
       | c # cs \<Rightarrow> (\<exists>q'. ap_queue_pop_something APR_SUCCESS APR_SUCCESS q = (SomeConn (Some c), q') \<and>
            queue_inv q' \<and> contents q' = cs \<and> timers q' = []))"
  proof (cases "timers q")
    case (Cons te ts)
    then show ?thesis
      by (simp add: ap_queue_pop_something_def ap_queue_pop_something_resume_def event_queue_empty_def)
  next
    case t: Nil
    show ?thesis
    proof (cases "contents q")
      case Nil
      then have "nelts q = 0" by simp
      with t show ?thesis unfolding Nil
        by (simp add: ap_queue_pop_something_def ap_queue_pop_something_resume_def event_queue_empty_def)
    next
      case (Cons c cs)
      then have n: "nelts q \<noteq> 0" using contents_Cons [of q] by simp
      obtain q' where "dequeue q = (Some c, q')" "contents q' = cs"
        using contents_dequeue [OF assms n] Cons by (cases "dequeue q") auto
      then show ?thesis
        using dequeue_inv [OF assms n] n Cons t timers_frame(2) [of q]
        by (simp add: ap_queue_pop_something_def ap_queue_pop_something_resume_def event_queue_empty_def)
    qed
  qed
next
  assume "timers q = []" "nelts q + length es \<le> bounds q"
  then show "drain event_pop (nelts q + length es) (foldl event_push q es) = contents q @ es"
    using assms event_fifo.fifo [of q es] by (simp add: drain_event event_fifo.push_all_def)
qed

definition demo_event_queue :: "(nat, nat) event_queue" where
  "demo_event_queue = \<lparr>data = [Some 3, None], nelts = 1, bounds = 2, q_in = 1, q_out = 0,
     terminated = False, timers = [9]\<rparr>"

theorem event_queue_timers_first_witness:
  "queue_inv demo_event_queue \<and> ap_queue_pop_something APR_SUCCESS APR_SUCCESS demo_event_queue =
     (SomeTimer 9, demo_event_queue\<lparr>timers := []\<rparr>)"
proof -
  have i: "queue_inv demo_event_queue" by (simp add: demo_event_queue_def queue_inv_def)
  have "timers demo_event_queue = [9]" by (simp add: demo_event_queue_def)
  then show ?thesis using i event_queue_timers_first [OF i] by simp
qed

end
