(* ===== verification/Worker_Mpm.thy ===== *)
theory Worker_Mpm
  imports Fd_Queue
begin

text \<open>
  One child process of the worker MPM: the listener thread and the worker threads of
  \<^verbatim>\<open>server/mpm/worker/worker.c\<close> over the queue of \<open>Fd_Queue\<close> and the idle-worker count
  \<open>fd_queue_info_t\<close> of \<^verbatim>\<open>server/mpm/worker/fdqueue.c\<close>.

  Every step of the relation \<open>mpm_step\<close> is one atomic action of one thread: a compare-and-swap on the
  idle count, a critical section of a mutex, or the arrival of a connection. A thread that reaches
  a condition variable gives up the mutex and stops in a state of its own until it is signalled,
  interrupted by a broadcast, or woken for no reason. The mutex calls are taken to succeed; the
  pools that are recycled beside the idle count carry no connection and are left out.
\<close>

section \<open>State\<close>

text \<open>
  Where the listener is: at the top of its loop without (\<open>LNeed\<close>) or with (\<open>LHave\<close>) a reserved
  worker; inside \<open>ap_queue_info_wait_for_idler\<close> with \<open>idlers_mutex\<close> held, about to test the count
  (\<open>LCheck\<close>) or having found it zero and about to sleep (\<open>LSleep\<close>); asleep on \<open>wait_for_idler\<close>
  with the mutex released (\<open>LBlocked\<close>); out of its loop (\<open>LExit\<close>); and past \<open>ap_queue_term\<close>
  (\<open>LDone\<close>).
\<close>

datatype listener_pc = LNeed | LCheck | LSleep | LBlocked | LHave | LExit | LDone

text \<open>
  Where a worker is: not idle at the top of its loop (\<open>WStart\<close>), in \<open>ap_queue_info_set_idle\<close> between
  the increment and the signal (\<open>WSignal\<close>), idle and about to pop (\<open>WIdle\<close>), asleep on \<open>not_empty\<close>
  (\<open>WWait\<close>), woken up but not yet back in the critical section (\<open>WWoken\<close>), serving a connection
  (\<open>WBusy\<close>), or gone (\<open>WExit\<close>).
\<close>

datatype 'c worker_pc = WStart | WSignal | WIdle | WWait | WWoken | WBusy 'c | WExit

record 'c mpm =
  queue :: "'c fd_queue"
  idlers :: nat
  info_terminated :: bool
  listener_may_exit :: bool
  workers_may_exit :: bool
  listener :: listener_pc
  workers :: "'c worker_pc list"
  accepted :: "'c list"
  taken :: "'c list"

text \<open>\<open>start_threads\<close>: a queue with one slot per thread, no idle worker announced yet.\<close>

definition mpm_init :: "nat \<Rightarrow> 'c mpm" where
  "mpm_init threads =
     \<lparr>queue = projr (ap_queue_init APR_SUCCESS APR_SUCCESS threads), idlers = 0,
      info_terminated = False, listener_may_exit = False, workers_may_exit = False, listener = LNeed,
      workers = replicate threads WStart, accepted = [], taken = []\<rparr>"

section \<open>Operations on the idle count\<close>

text \<open>
  \<open>ap_queue_info_set_idle\<close>, first part: the increment. The worker that finds the count zero goes
  on to signal the listener.
\<close>

definition set_idle_incr :: "nat \<Rightarrow> 'c mpm \<Rightarrow> 'c mpm" where
  "set_idle_incr i s =
     (let prev_idlers = idlers s
      in s\<lparr>idlers := prev_idlers + 1,
           workers := (workers s)[i := (if prev_idlers = 0 then WSignal else WIdle)]\<rparr>)"

text \<open>Second part: \<open>apr_thread_cond_signal\<close> under \<open>idlers_mutex\<close> wakes the listener if it sleeps.\<close>

definition set_idle_signal :: "nat \<Rightarrow> 'c mpm \<Rightarrow> 'c mpm" where
  "set_idle_signal i s =
     s\<lparr>listener := (if listener s = LBlocked then LCheck else listener s),
       workers := (workers s)[i := WIdle]\<rparr>"

text \<open>
  \<open>ap_queue_info_wait_for_idler\<close> once the count is not zero: decrement it, then report end of file
  if the queue information has been terminated.
\<close>

definition wait_for_idler_take :: "'c mpm \<Rightarrow> 'c mpm" where
  "wait_for_idler_take s =
     s\<lparr>idlers := idlers s - 1, listener := (if info_terminated s then LExit else LHave)\<rparr>"

section \<open>Operations on the queue\<close>

text \<open>
  \<open>ap_queue_push\<close> by the listener; \<open>apr_thread_cond_signal\<close> wakes one of the sleeping workers, any
  one, if there is one.
\<close>

definition listener_push :: "'c \<Rightarrow> 'c mpm \<Rightarrow> 'c mpm" where
  "listener_push c s =
     (case ap_queue_push APR_SUCCESS APR_SUCCESS (queue s) c of (rv, q) \<Rightarrow>
        s\<lparr>queue := q, accepted := accepted s @ [c],
          listener := (if rv = APR_SUCCESS then LNeed else LHave)\<rparr>)"

definition wake :: "nat \<Rightarrow> 'c mpm \<Rightarrow> 'c mpm" where
  "wake j s = s\<lparr>workers := (workers s)[j := WWoken]\<rparr>"

text \<open>What the worker does with the result of \<open>ap_queue_pop\<close>.\<close>

definition after_pop :: "nat \<Rightarrow> 'c pop_result \<times> 'c fd_queue \<Rightarrow> 'c mpm \<Rightarrow> 'c mpm" where
  "after_pop i res s =
     (case res of
        (PopWait, q) \<Rightarrow> s\<lparr>queue := q, workers := (workers s)[i := WWait]\<rparr>
      | (PopElem (Some c), q) \<Rightarrow>
          s\<lparr>queue := q, taken := taken s @ [c], workers := (workers s)[i := WBusy c]\<rparr>
      | (PopElem None, q) \<Rightarrow> s\<lparr>queue := q, workers := (workers s)[i := WExit]\<rparr>
      | (PopFail rv, q) \<Rightarrow>
          s\<lparr>queue := q, workers := (workers s)[i := (if rv = APR_EOF then WExit else WIdle)]\<rparr>)"

text \<open>\<open>apr_thread_cond_broadcast(queue->not_empty)\<close>.\<close>

definition wake_all :: "'c mpm \<Rightarrow> 'c mpm" where
  "wake_all s = s\<lparr>workers := map (\<lambda>w. if w = WWait then WWoken else w) (workers s)\<rparr>"

text \<open>The listener's way out: \<open>ap_queue_term\<close>, which ends in a broadcast.\<close>

definition listener_term :: "'c mpm \<Rightarrow> 'c mpm" where
  "listener_term s =
     wake_all (s\<lparr>queue := snd (ap_queue_term APR_SUCCESS APR_SUCCESS APR_SUCCESS APR_SUCCESS (queue s)),
                 listener := LDone\<rparr>)"

text \<open>
  \<open>wakeup_listener\<close>: the flag and \<open>ap_queue_info_term\<close>, whose broadcast wakes the listener. The
  ungraceful part of \<open>signal_threads\<close>: the workers' flag and \<open>ap_queue_interrupt_all\<close>.
\<close>

definition wakeup_listener :: "'c mpm \<Rightarrow> 'c mpm" where
  "wakeup_listener s =
     s\<lparr>listener_may_exit := True, info_terminated := True,
       listener := (if listener s = LBlocked then LCheck else listener s)\<rparr>"

definition stop_workers :: "'c mpm \<Rightarrow> 'c mpm" where
  "stop_workers s = wake_all (s\<lparr>workers_may_exit := True\<rparr>)"

section \<open>Steps\<close>

definition mutex_free :: "'c mpm \<Rightarrow> bool" where
  "mutex_free s \<longleftrightarrow> listener s \<noteq> LCheck \<and> listener s \<noteq> LSleep"

inductive mpm_step :: "'c mpm \<Rightarrow> 'c mpm \<Rightarrow> bool" where
  set_idle: "i < length (workers s) \<Longrightarrow> workers s ! i = WStart \<Longrightarrow> mpm_step s (set_idle_incr i s)"
| signal: "i < length (workers s) \<Longrightarrow> workers s ! i = WSignal \<Longrightarrow> mutex_free s \<Longrightarrow>
     mpm_step s (set_idle_signal i s)"
| reserve: "listener s = LNeed \<or> listener s = LCheck \<Longrightarrow> idlers s \<noteq> 0 \<Longrightarrow>
     mpm_step s (wait_for_idler_take s)"
| see_zero: "listener s = LNeed \<Longrightarrow> idlers s = 0 \<Longrightarrow> mpm_step s (s\<lparr>listener := LCheck\<rparr>)"
| still_zero: "listener s = LCheck \<Longrightarrow> idlers s = 0 \<Longrightarrow> mpm_step s (s\<lparr>listener := LSleep\<rparr>)"
| sleep: "listener s = LSleep \<Longrightarrow> mpm_step s (s\<lparr>listener := LBlocked\<rparr>)"
| spurious_listener: "listener s = LBlocked \<Longrightarrow> mpm_step s (s\<lparr>listener := LCheck\<rparr>)"
| push_signal: "listener s = LHave \<Longrightarrow> j < length (workers s) \<Longrightarrow> workers s ! j = WWait \<Longrightarrow>
     mpm_step s (wake j (listener_push c s))"
| push_nobody: "listener s = LHave \<Longrightarrow> WWait \<notin> set (workers s) \<Longrightarrow> mpm_step s (listener_push c s)"
| accept_failed: "listener s = LHave \<Longrightarrow> mpm_step s s"
| pop: "i < length (workers s) \<Longrightarrow> workers s ! i = WIdle \<Longrightarrow>
     mpm_step s (after_pop i (ap_queue_pop APR_SUCCESS APR_SUCCESS (queue s)) s)"
| spurious_worker: "i < length (workers s) \<Longrightarrow> workers s ! i = WWait \<Longrightarrow> mpm_step s (wake i s)"
| resume: "i < length (workers s) \<Longrightarrow> workers s ! i = WWoken \<Longrightarrow>
     mpm_step s (after_pop i (ap_queue_pop_resume APR_SUCCESS (queue s)) s)"
| served: "i < length (workers s) \<Longrightarrow> workers s ! i = WBusy c \<Longrightarrow>
     mpm_step s (s\<lparr>workers := (workers s)[i := WStart]\<rparr>)"
| leave_loop: "listener s = LNeed \<and> listener_may_exit s \<or> listener s = LHave \<Longrightarrow>
     mpm_step s (s\<lparr>listener := LExit\<rparr>)"
| listener_end: "listener s = LExit \<Longrightarrow> mpm_step s (listener_term s)"
| stop_listener: "mutex_free s \<Longrightarrow> mpm_step s (wakeup_listener s)"
| stop_all: "listener_may_exit s \<Longrightarrow> mpm_step s (stop_workers s)"
| worker_exit: "workers_may_exit s \<Longrightarrow> i < length (workers s) \<Longrightarrow>
     workers s ! i = WStart \<or> workers s ! i = WIdle \<Longrightarrow>
     mpm_step s (s\<lparr>workers := (workers s)[i := WExit]\<rparr>)"

inductive mpm_reachable :: "nat \<Rightarrow> 'c mpm \<Rightarrow> bool" for threads where
  init: "mpm_reachable threads (mpm_init threads)"
| step: "mpm_reachable threads s \<Longrightarrow> mpm_step s t \<Longrightarrow> mpm_reachable threads t"

section \<open>Invariants\<close>

text \<open>A worker that has announced itself idle and has not taken a connection since.\<close>

fun announced :: "'c worker_pc \<Rightarrow> bool" where
  "announced WStart = False"
| "announced (WBusy c) = False"
| "announced w = True"

text \<open>A worker that will look into the queue without being woken by anyone.\<close>

fun awake :: "'c worker_pc \<Rightarrow> bool" where
  "awake WIdle = True"
| "awake WWoken = True"
| "awake w = False"

definition count_workers :: "('c worker_pc \<Rightarrow> bool) \<Rightarrow> 'c mpm \<Rightarrow> nat" where
  "count_workers P s = length (filter P (workers s))"

definition reserved :: "'c mpm \<Rightarrow> nat" where
  "reserved s = (if listener s = LHave then 1 else 0)"

text \<open>The listener is inside the part of \<open>ap_queue_info_wait_for_idler\<close> that holds or waits for the mutex.\<close>

definition in_wait_for_idler :: "'c mpm \<Rightarrow> bool" where
  "in_wait_for_idler s \<longleftrightarrow> listener s = LCheck \<or> listener s = LSleep \<or> listener s = LBlocked"

definition mpm_inv :: "nat \<Rightarrow> 'c mpm \<Rightarrow> bool" where
  "mpm_inv threads s \<longleftrightarrow>
     queue_inv (queue s) \<and> bounds (queue s) = threads \<and> length (workers s) = threads \<and>
     accepted s = taken s @ contents (queue s) \<and>
     nelts (queue s) + idlers s + reserved s \<le> count_workers announced s \<and>
     (terminated (queue s) \<longrightarrow> listener s = LDone) \<and>
     (listener s = LSleep \<or> listener s = LBlocked \<longrightarrow> idlers s = 0 \<or> WSignal \<in> set (workers s)) \<and>
     (\<not> workers_may_exit s \<longrightarrow>
        (WWait \<in> set (workers s) \<longrightarrow> nelts (queue s) \<le> count_workers awake s) \<and>
        (WExit \<in> set (workers s) \<longrightarrow> terminated (queue s) \<and> nelts (queue s) = 0))"

lemma filter_update:
  assumes "i < length ws"
  shows "length (filter P (ws[i := w])) + (if P (ws ! i) then 1 else 0) =
    length (filter P ws) + (if P w then 1 else 0)"
proof -
  have "filter P ws = filter P (take i ws) @ filter P (ws ! i # drop (Suc i) ws)"
    by (metis assms filter_append id_take_nth_drop)
  moreover have "filter P (ws[i := w]) = filter P (take i ws) @ filter P (w # drop (Suc i) ws)"
    using assms by (simp add: upd_conv_take_nth_drop)
  ultimately show ?thesis by simp
qed

lemma in_set_update:
  "i < length ws \<Longrightarrow> ws ! i \<noteq> x \<Longrightarrow> x \<in> set (ws[i := w]) \<longleftrightarrow> x = w \<or> x \<in> set ws"
  by (auto simp: in_set_conv_nth nth_list_update)

lemma in_set_updateD: "x \<in> set (ws[i := w]) \<Longrightarrow> x \<noteq> w \<Longrightarrow> x \<in> set ws"
  by (meson insertE set_update_subset_insert subset_iff)

lemma count_wake_all:
  "length (filter announced (map (\<lambda>w. if w = WWait then WWoken else w) ws)) = length (filter announced ws)"
  "length (filter awake ws) \<le> length (filter awake (map (\<lambda>w. if w = WWait then WWoken else w) ws))"
  by (induction ws) auto

lemma announced_bound: "mpm_inv n s \<Longrightarrow> count_workers announced s \<le> n"
  using length_filter_le [of announced "workers s"] by (simp add: mpm_inv_def count_workers_def)

text \<open>The parts of the invariant that a change of one worker's place touches.\<close>

definition places_ok :: "nat \<Rightarrow> nat \<Rightarrow> bool \<Rightarrow> bool \<Rightarrow> bool \<Rightarrow> 'c worker_pc list \<Rightarrow> bool" where
  "places_ok load n sleeping exiting over ws \<longleftrightarrow>
     load \<le> length (filter announced ws) \<and>
     (sleeping \<longrightarrow> WSignal \<in> set ws) \<and>
     (\<not> exiting \<longrightarrow> (WWait \<in> set ws \<longrightarrow> n \<le> length (filter awake ws)) \<and> (WExit \<in> set ws \<longrightarrow> over))"

lemma mpm_inv_places:
  "mpm_inv threads s \<longleftrightarrow>
     queue_inv (queue s) \<and> bounds (queue s) = threads \<and> length (workers s) = threads \<and>
     accepted s = taken s @ contents (queue s) \<and> (terminated (queue s) \<longrightarrow> listener s = LDone) \<and>
     places_ok (nelts (queue s) + idlers s + reserved s) (nelts (queue s))
       ((listener s = LSleep \<or> listener s = LBlocked) \<and> idlers s \<noteq> 0) (workers_may_exit s)
       (terminated (queue s) \<and> nelts (queue s) = 0) (workers s)"
  by (auto simp: mpm_inv_def places_ok_def count_workers_def)

lemma places_update:
  assumes "places_ok load n sl ex ov ws" "i < length ws"
    and "load' + (if announced (ws ! i) then 1 else 0) \<le> load + (if announced w then 1 else 0)"
    and "sl' \<longrightarrow> w = WSignal \<or> sl \<and> ws ! i \<noteq> WSignal"
    and "\<not> ex' \<longrightarrow> \<not> ex \<and> (n' + (if awake (ws ! i) then 1 else 0) \<le> n + (if awake w then 1 else 0) \<or> n' = 0) \<and>
       (w = WWait \<longrightarrow> n' = 0) \<and> (w = WExit \<longrightarrow> ov') \<and> (ov \<longrightarrow> ov')"
  shows "places_ok load' n' sl' ex' ov' (ws[i := w])"
proof -
  have c: "length (filter announced (ws[i := w])) + (if announced (ws ! i) then 1 else 0) =
      length (filter announced ws) + (if announced w then 1 else 0)"
    "length (filter awake (ws[i := w])) + (if awake (ws ! i) then 1 else 0) =
      length (filter awake ws) + (if awake w then 1 else 0)"
    using filter_update [OF assms(2)] by blast+
  have "load' \<le> length (filter announced (ws[i := w]))"
    using c(1) assms(1,3) by (auto simp: places_ok_def split: if_splits)
  moreover have "WSignal \<in> set (ws[i := w])" if sl'
    using that assms(1,2,4) by (auto simp: places_ok_def in_set_update set_update_memI)
  moreover have "n' \<le> length (filter awake (ws[i := w]))" if "WWait \<in> set (ws[i := w])" "\<not> ex'"
  proof (cases "w = WWait \<or> n' = 0")
    case False
    then have "WWait \<in> set ws" using that(1) in_set_updateD by fastforce
    then show ?thesis using c(2) assms(1,5) that(2) False by (auto simp: places_ok_def split: if_splits)
  qed (use assms(5) that(2) in auto)
  moreover have ov' if "WExit \<in> set (ws[i := w])" "\<not> ex'"
  proof (cases "w = WExit")
    case False
    then have "WExit \<in> set ws" using that(1) in_set_updateD by fastforce
    then show ?thesis using assms(1,5) that(2) by (auto simp: places_ok_def)
  qed (use assms(5) that(2) in auto)
  ultimately show ?thesis by (auto simp: places_ok_def)
qed

lemma places_mono:
  assumes "places_ok load n sl ex ov ws" "load' \<le> load" "sl' \<longrightarrow> sl"
    "\<not> ex' \<longrightarrow> \<not> ex \<and> n' \<le> n \<and> (ov \<longrightarrow> ov')"
  shows "places_ok load' n' sl' ex' ov' ws"
  using assms by (auto simp: places_ok_def)

lemma inv_set_idle:
  assumes "mpm_inv n s" "i < length (workers s)" "workers s ! i = WStart"
  shows "mpm_inv n (set_idle_incr i s)"
  using assms places_update [OF _ assms(2)]
  by (auto simp: mpm_inv_places set_idle_incr_def Let_def reserved_def intro!: places_update)

lemma inv_signal:
  assumes "mpm_inv n s" "i < length (workers s)" "workers s ! i = WSignal" "mutex_free s"
  shows "mpm_inv n (set_idle_signal i s)"
  using assms by (auto simp: mpm_inv_places set_idle_signal_def reserved_def mutex_free_def
      intro!: places_update)

lemma inv_reserve:
  assumes "mpm_inv n s" "listener s = LNeed \<or> listener s = LCheck" "idlers s \<noteq> 0"
  shows "mpm_inv n (wait_for_idler_take s)"
  using assms by (auto simp: mpm_inv_places wait_for_idler_take_def reserved_def elim!: places_mono)

lemma inv_push:
  assumes "mpm_inv n s" "listener s = LHave"
  shows "queue_inv (enqueue c (queue s))" "\<not> ap_queue_full (queue s)" "\<not> terminated (queue s)"
    "contents (enqueue c (queue s)) = contents (queue s) @ [c]"
proof -
  have "nelts (queue s) < bounds (queue s)"
    using announced_bound [OF assms(1)] assms by (simp add: mpm_inv_def reserved_def)
  then show nf: "\<not> ap_queue_full (queue s)" by (rule not_fullI)
  have q: "queue_inv (queue s)" using assms by (simp add: mpm_inv_def)
  show "queue_inv (enqueue c (queue s))" "contents (enqueue c (queue s)) = contents (queue s) @ [c]"
    using q nf by (simp_all add: enqueue_inv contents_enqueue)
  show "\<not> terminated (queue s)" using assms by (auto simp: mpm_inv_def)
qed

lemma inv_push_signal:
  assumes "mpm_inv n s" "listener s = LHave" "j < length (workers s)" "workers s ! j = WWait"
  shows "mpm_inv n (wake j (listener_push c s))"
  using assms inv_push [OF assms(1,2)]
  by (auto simp: mpm_inv_places wake_def listener_push_def ap_queue_push_def reserved_def
      intro!: places_update)

lemma inv_push_nobody:
  assumes "mpm_inv n s" "listener s = LHave" "WWait \<notin> set (workers s)"
  shows "mpm_inv n (listener_push c s)"
  using assms inv_push [OF assms(1,2)]
  by (auto simp: mpm_inv_places listener_push_def ap_queue_push_def reserved_def places_ok_def)

text \<open>Taking a connection, going to sleep and leaving, from either half of \<open>ap_queue_pop\<close>.\<close>

lemma inv_take:
  assumes "mpm_inv n s" "i < length (workers s)" "workers s ! i = WIdle \<or> workers s ! i = WWoken"
    and "nelts (queue s) \<noteq> 0"
  shows "mpm_inv n (after_pop i (ap_queue_pop_resume APR_SUCCESS (queue s)) s)"
proof -
  have q: "queue_inv (queue s)" using assms by (simp add: mpm_inv_def)
  obtain c q' where d: "dequeue (queue s) = (Some c, q')" "contents (queue s) = c # contents q'"
    using contents_dequeue [OF q assms(4)] by (cases "dequeue (queue s)") auto
  have "queue_inv q'" "bounds q' = bounds (queue s)" "terminated q' = terminated (queue s)"
    "nelts q' = nelts (queue s) - 1"
    using dequeue_inv [OF q assms(4)] frame_simps(2,4,6) [of "queue s"] d by simp_all
  then show ?thesis
    using assms d
    by (auto simp: mpm_inv_places after_pop_def ap_queue_pop_resume_def ap_queue_empty_def reserved_def
        intro!: places_update)
qed

lemma inv_resume_empty:
  assumes "mpm_inv n s" "i < length (workers s)" "workers s ! i = WIdle \<or> workers s ! i = WWoken"
    and "nelts (queue s) = 0"
  shows "mpm_inv n (after_pop i (ap_queue_pop_resume APR_SUCCESS (queue s)) s)"
  using assms
  by (auto simp: mpm_inv_places after_pop_def ap_queue_pop_resume_def ap_queue_empty_def reserved_def
      intro!: places_update)

lemma inv_resume:
  "mpm_inv n s \<Longrightarrow> i < length (workers s) \<Longrightarrow> workers s ! i = WIdle \<or> workers s ! i = WWoken \<Longrightarrow>
   mpm_inv n (after_pop i (ap_queue_pop_resume APR_SUCCESS (queue s)) s)"
  using inv_take inv_resume_empty by blast

lemma inv_pop:
  assumes "mpm_inv n s" "i < length (workers s)" "workers s ! i = WIdle"
  shows "mpm_inv n (after_pop i (ap_queue_pop APR_SUCCESS APR_SUCCESS (queue s)) s)"
proof (cases "nelts (queue s) = 0 \<and> \<not> terminated (queue s)")
  case True
  then show ?thesis
    using assms
    by (auto simp: mpm_inv_places after_pop_def ap_queue_pop_def ap_queue_empty_def reserved_def
        intro!: places_update)
next
  case False
  then have "ap_queue_pop APR_SUCCESS APR_SUCCESS (queue s) = ap_queue_pop_resume APR_SUCCESS (queue s)"
    by (auto simp: ap_queue_pop_def ap_queue_empty_def)
  then show ?thesis using inv_resume [OF assms(1,2)] assms(3) by simp
qed

lemma inv_move:
  assumes "mpm_inv n s" "i < length (workers s)"
    and "workers s ! i = WWait \<and> w = WWoken \<or> (\<exists>c. workers s ! i = WBusy c) \<and> w = WStart \<or>
      workers_may_exit s \<and> (workers s ! i = WStart \<or> workers s ! i = WIdle) \<and> w = WExit"
  shows "mpm_inv n (s\<lparr>workers := (workers s)[i := w]\<rparr>)"
  using assms by (auto simp: mpm_inv_places reserved_def intro!: places_update)

lemma inv_listener:
  assumes "mpm_inv n s" and "l \<noteq> LHave" and "listener s \<noteq> LDone" and "l = LSleep \<longrightarrow> idlers s = 0"
    and "l = LBlocked \<longrightarrow> listener s = LSleep"
  shows "mpm_inv n (s\<lparr>listener := l\<rparr>)"
  using assms by (auto simp: mpm_inv_places reserved_def elim!: places_mono)

lemma wake_all_mem:
  "w \<in> set (map (\<lambda>w. if w = WWait then WWoken else w) ws) \<Longrightarrow> w \<noteq> WWoken \<Longrightarrow> w \<in> set ws \<and> w \<noteq> WWait"
  "w \<in> set ws \<Longrightarrow> w \<noteq> WWait \<Longrightarrow> w \<in> set (map (\<lambda>w. if w = WWait then WWoken else w) ws)"
  by (auto split: if_splits)

lemma places_wake_all:
  assumes "places_ok load n sl ex ov ws" "load' \<le> load" "sl' \<longrightarrow> sl" "\<not> ex' \<longrightarrow> \<not> ex \<and> (ov \<longrightarrow> ov')"
  shows "places_ok load' n' sl' ex' ov' (map (\<lambda>w. if w = WWait then WWoken else w) ws)" (is "places_ok _ _ _ _ _ ?ws")
proof -
  have "load' \<le> length (filter announced ?ws)"
    using assms(1,2) unfolding places_ok_def count_wake_all(1) by linarith
  moreover have "sl' \<longrightarrow> WSignal \<in> set ?ws"
    using assms(1,3) wake_all_mem(2) unfolding places_ok_def by blast
  moreover have "WWait \<notin> set ?ws" using wake_all_mem(1) by blast
  moreover have "\<not> ex' \<longrightarrow> WExit \<in> set ?ws \<longrightarrow> ov'"
    using assms(1,4) wake_all_mem(1) [of WExit ws] unfolding places_ok_def by blast
  ultimately show ?thesis unfolding places_ok_def by blast
qed

lemma inv_term:
  assumes "mpm_inv n s" "listener s = LExit"
  shows "mpm_inv n (listener_term s)"
  using assms
  by (auto simp: mpm_inv_places listener_term_def wake_all_def ap_queue_term_def ap_queue_interrupt_all_def
      reserved_def queue_inv_def contents_def elim!: places_wake_all)

lemma inv_stop:
  assumes "mpm_inv n s"
  shows "mutex_free s \<Longrightarrow> mpm_inv n (wakeup_listener s)" "mpm_inv n (stop_workers s)"
  using assms
  by (auto simp: mpm_inv_places wakeup_listener_def stop_workers_def wake_all_def reserved_def mutex_free_def
      elim!: places_mono places_wake_all)

lemma mpm_step_inv: "mpm_step s t \<Longrightarrow> mpm_inv n s \<Longrightarrow> mpm_inv n t"
proof (induction rule: mpm_step.induct)
  case (spurious_worker i s)
  then show ?case using inv_move by (auto simp: wake_def)
next
  case (served i s c)
  then show ?case using inv_move by blast
next
  case (worker_exit s i)
  then show ?case using inv_move by blast
qed (auto intro: inv_set_idle inv_signal inv_reserve inv_push_signal inv_push_nobody inv_pop inv_resume
      inv_listener inv_term inv_stop)

lemma mpm_init_inv: "0 < threads \<Longrightarrow> mpm_inv threads (mpm_init threads)"
  by (auto simp: mpm_inv_def mpm_init_def ap_queue_init_def queue_inv_def contents_def reserved_def
      count_workers_def)

lemma reachable_inv: "mpm_reachable threads s \<Longrightarrow> 0 < threads \<Longrightarrow> mpm_inv threads s"
  by (induction rule: mpm_reachable.induct) (auto intro: mpm_init_inv mpm_step_inv)

section \<open>Properties\<close>

text \<open>
  C12: the worker MPM never overruns its queue and delivers in order. In every reachable state of a
  child with at least one thread, every accepted connection has been taken by a worker or is in
  the queue, in the order of acceptance, and there are never more queued connections, announced
  idle workers and reservations together than threads. When the listener is about to push, both
  assertions of \<open>ap_queue_push\<close> hold (the queue is not terminated and not full) and the push
  succeeds and appends.
\<close>

theorem mpm_no_overrun:
  assumes "0 < threads" "mpm_reachable threads s"
  shows "accepted s = taken s @ contents (queue s) \<and>
    nelts (queue s) + idlers s + reserved s \<le> threads \<and>
    (listener s = LHave \<longrightarrow>
      \<not> terminated (queue s) \<and> \<not> ap_queue_full (queue s) \<and>
      (\<exists>q. ap_queue_push APR_SUCCESS APR_SUCCESS (queue s) c = (APR_SUCCESS, q) \<and>
        contents q = contents (queue s) @ [c]))"
proof -
  have inv: "mpm_inv threads s" using assms reachable_inv by blast
  then have "accepted s = taken s @ contents (queue s)"
    "nelts (queue s) + idlers s + reserved s \<le> threads"
    using announced_bound [OF inv] by (simp_all add: mpm_inv_def)
  then show ?thesis
    using inv_push [OF inv] by (auto simp: ap_queue_push_def)
qed

text \<open>A child with one thread up to the moment its listener has a worker for a connection.\<close>

lemma one_thread_idle: "mpm_reachable 1 (set_idle_incr 0 (mpm_init 1))"
  by (rule mpm_reachable.step [OF mpm_reachable.init], rule mpm_step.set_idle) (simp_all add: mpm_init_def)

lemma one_thread_run:
  "mpm_reachable 1 (wait_for_idler_take (set_idle_incr 0 (mpm_init 1)))"
proof -
  note one_thread_idle
  then show ?thesis
    by (rule mpm_reachable.step) (rule mpm_step.reserve, simp_all add: set_idle_incr_def mpm_init_def)
qed

theorem mpm_no_overrun_witness:
  "listener (wait_for_idler_take (set_idle_incr 0 (mpm_init 1 :: char mpm))) = LHave \<and>
   (\<exists>q. ap_queue_push APR_SUCCESS APR_SUCCESS
      (queue (wait_for_idler_take (set_idle_incr 0 (mpm_init 1)))) CHR ''x'' = (APR_SUCCESS, q) \<and>
      contents q = ''x'')"
  using mpm_no_overrun [OF _ one_thread_run, of "CHR ''x''"]
  by (simp add: set_idle_incr_def wait_for_idler_take_def mpm_init_def ap_queue_init_def contents_def)

text \<open>
  C13: no wake-up is lost. While the workers have not been told to exit, a queue with connections
  in it always has, if some worker sleeps, at least as many workers on their way to it as it
  has connections; and the listener that sleeps although a worker has become idle always has a
  worker that is about to signal it.
\<close>

theorem mpm_no_lost_wakeup:
  assumes "0 < threads" "mpm_reachable threads s"
  shows "(\<not> workers_may_exit s \<longrightarrow> WWait \<in> set (workers s) \<longrightarrow>
      length (contents (queue s)) \<le> count_workers awake s) \<and>
    (listener s = LBlocked \<longrightarrow> idlers s \<noteq> 0 \<longrightarrow> WSignal \<in> set (workers s))"
  using reachable_inv [OF assms(2,1)] by (auto simp: mpm_inv_def)

lemma one_thread_sleeps:
  "mpm_reachable 1 (after_pop 0 (PopWait, queue (mpm_init 1)) (set_idle_signal 0 (set_idle_incr 0 (mpm_init 1))))"
proof -
  note one_thread_idle
  then have "mpm_reachable 1 (set_idle_signal 0 (set_idle_incr 0 (mpm_init 1)))"
    by (rule mpm_reachable.step) (rule mpm_step.signal, simp_all add: set_idle_incr_def mpm_init_def mutex_free_def)
  then have "mpm_reachable 1 (after_pop 0 (ap_queue_pop APR_SUCCESS APR_SUCCESS
      (queue (set_idle_signal 0 (set_idle_incr 0 (mpm_init 1))))) (set_idle_signal 0 (set_idle_incr 0 (mpm_init 1))))"
    by (rule mpm_reachable.step) (rule mpm_step.pop, simp_all add: set_idle_incr_def set_idle_signal_def mpm_init_def)
  then show ?thesis
    by (simp add: set_idle_incr_def set_idle_signal_def mpm_init_def ap_queue_pop_def ap_queue_init_def
        ap_queue_empty_def)
qed

text \<open>The same child with the listener asleep while its only worker is about to signal.\<close>

lemma one_thread_race:
  "mpm_reachable 1 (set_idle_incr 0 (mpm_init 1 \<lparr>listener := LBlocked\<rparr>))"
proof -
  have "mpm_reachable 1 (mpm_init 1 \<lparr>listener := LCheck\<rparr>)"
    by (rule mpm_reachable.step [OF mpm_reachable.init], rule mpm_step.see_zero) (simp_all add: mpm_init_def)
  then have "mpm_reachable 1 (mpm_init 1 \<lparr>listener := LSleep\<rparr>)"
    using mpm_reachable.step [OF _ mpm_step.still_zero] by (force simp: mpm_init_def)
  then have "mpm_reachable 1 (mpm_init 1 \<lparr>listener := LBlocked\<rparr>)"
    using mpm_reachable.step [OF _ mpm_step.sleep] by (force simp: mpm_init_def)
  then show ?thesis
    by (rule mpm_reachable.step) (rule mpm_step.set_idle, simp_all add: mpm_init_def)
qed

theorem mpm_no_lost_wakeup_witness:
  "length (contents (queue (mpm_init 1 :: char mpm)))
     \<le> count_workers awake (after_pop 0 (PopWait, queue (mpm_init 1 :: char mpm))
          (set_idle_signal 0 (set_idle_incr 0 (mpm_init 1)))) \<and>
   idlers (set_idle_incr 0 (mpm_init 1 \<lparr>listener := LBlocked\<rparr> :: char mpm)) = 1 \<and>
   WSignal \<in> set (workers (set_idle_incr 0 (mpm_init 1 \<lparr>listener := LBlocked\<rparr> :: char mpm)))"
  using mpm_no_lost_wakeup [OF _ one_thread_sleeps] mpm_no_lost_wakeup [OF _ one_thread_race]
  by (simp add: set_idle_incr_def set_idle_signal_def after_pop_def mpm_init_def)

text \<open>
  Terminating the queue information does not unblock a listener that waits for an idle worker.
  Whatever the other threads and the main thread do, \<open>wakeup_listener\<close> included, a listener inside the
  waiting part of \<open>ap_queue_info_wait_for_idler\<close> stays there as long as the idle count stays zero.
\<close>

theorem info_term_keeps_listener_waiting:
  assumes "mpm_step s t" "in_wait_for_idler s" "idlers s = 0" "idlers t = 0"
  shows "in_wait_for_idler t"
  using assms
  by (induction rule: mpm_step.induct)
     (auto simp: in_wait_for_idler_def set_idle_incr_def set_idle_signal_def wakeup_listener_def
        stop_workers_def wake_all_def after_pop_def wake_def listener_push_def Let_def
        split: prod.splits pop_result.splits option.splits)

theorem info_term_keeps_listener_waiting_witness:
  "info_terminated (wakeup_listener (mpm_init 1 \<lparr>listener := LBlocked\<rparr> :: char mpm)) \<and>
   in_wait_for_idler (wakeup_listener (mpm_init 1 \<lparr>listener := LBlocked\<rparr> :: char mpm))"
  using info_term_keeps_listener_waiting
    [OF mpm_step.stop_listener [of "mpm_init 1 \<lparr>listener := LBlocked\<rparr> :: char mpm"]]
  by (simp add: in_wait_for_idler_def wakeup_listener_def mpm_init_def mutex_free_def)

end
