(* ===== verification/Shmcb.thy ===== *)
theory Shmcb
  imports Ring "HOL-Library.Word"
begin

text \<open>
  The shared-memory object cache of \<^verbatim>\<open>modules/cache/mod_socache_shmcb.c\<close>. The segment is a header
  and a number of subcaches; a subcache is a cyclic queue of indexes beside a cyclic buffer of
  bytes that holds, for each index in use, the id and the data of one object. The model keeps the
  two arrays of a subcache as lists, \<open>indexes\<close> and \<open>data_area\<close>; \<open>memcpy\<close> into the data area
  past its end makes the list longer, so that the length in the invariant excludes an overrun.
  \<open>unsigned int\<close> values are natural numbers with \<open>uadd\<close> and \<open>usub\<close>, the time is an \<open>int\<close>, and
  \<open>apr_time_now()\<close> is the argument \<open>now\<close>.
\<close>

section \<open>The segment\<close>

record SHMCBHeader =
  stat_stores :: "64 word"
  stat_replaced :: "64 word"
  stat_expiries :: "64 word"
  stat_scrolled :: "64 word"
  stat_retrieves_hit :: "64 word"
  stat_retrieves_miss :: "64 word"
  stat_removes_hit :: "64 word"
  stat_removes_miss :: "64 word"
  subcache_num :: nat
  index_num :: nat
  subcache_size :: nat
  subcache_data_offset :: nat
  subcache_data_size :: nat

record SHMCBIndex =
  expires :: int
  idx_data_pos :: nat
  idx_data_used :: nat
  id_len :: nat
  removed :: bool

record SHMCBSubcache =
  idx_pos :: nat
  idx_used :: nat
  data_pos :: nat
  data_used :: nat
  indexes :: "SHMCBIndex list"
  data_area :: string

record shmcb =
  header :: SHMCBHeader
  subcaches :: "SHMCBSubcache list"

definition SHMCB_INDEX :: "SHMCBSubcache \<Rightarrow> nat \<Rightarrow> SHMCBIndex" where
  "SHMCB_INDEX subcache num = indexes subcache ! num"

text \<open>\<open>SHMCB_MASK\<close>: the number of the subcache of an id, from the low bits of its first byte.\<close>

definition SHMCB_MASK :: "SHMCBHeader \<Rightarrow> string \<Rightarrow> nat" where
  "SHMCB_MASK hdr oid = and (ord (peek oid)) (subcache_num hdr - 1)"

definition SHMCB_CYCLIC_INCREMENT :: "nat \<Rightarrow> nat \<Rightarrow> nat \<Rightarrow> nat" where
  "SHMCB_CYCLIC_INCREMENT v incr m = uadd v incr mod m"

definition SHMCB_CYCLIC_SPACE :: "nat \<Rightarrow> nat \<Rightarrow> nat \<Rightarrow> nat" where
  "SHMCB_CYCLIC_SPACE v1 v2 m = (if v2 \<ge> v1 then v2 - v1 else usub (uadd v2 m) v1)"

section \<open>Copying around the end of the data area\<close>

text \<open>\<open>memcpy\<close> to an offset of an array, and \<open>n\<close> bytes of an array from an offset on.\<close>

definition memcpy_to :: "string \<Rightarrow> nat \<Rightarrow> string \<Rightarrow> string" where
  "memcpy_to dest offset src = take offset dest @ src @ drop (offset + length src) dest"

definition bytes_at :: "string \<Rightarrow> nat \<Rightarrow> nat \<Rightarrow> string" where
  "bytes_at src offset n = take n (drop offset src)"

definition shmcb_cyclic_ntoc_memcpy :: "nat \<Rightarrow> string \<Rightarrow> nat \<Rightarrow> string \<Rightarrow> string" where
  "shmcb_cyclic_ntoc_memcpy buf_size dat dest_offset src =
     (if uadd dest_offset (length src) < buf_size then memcpy_to dat dest_offset src
      else memcpy_to (memcpy_to dat dest_offset (take (buf_size - dest_offset) src)) 0
             (drop (buf_size - dest_offset) src))"

definition shmcb_cyclic_cton_memcpy :: "nat \<Rightarrow> string \<Rightarrow> nat \<Rightarrow> nat \<Rightarrow> string" where
  "shmcb_cyclic_cton_memcpy buf_size dat src_offset src_len =
     (if uadd src_offset src_len < buf_size then bytes_at dat src_offset src_len
      else bytes_at dat src_offset (buf_size - src_offset) @
           bytes_at dat 0 (usub (uadd src_len src_offset) buf_size))"

text \<open>Whether the bytes are equal, which is all the callers of \<open>shmcb_cyclic_memcmp\<close> ask.\<close>

definition shmcb_cyclic_memcmp :: "nat \<Rightarrow> string \<Rightarrow> nat \<Rightarrow> string \<Rightarrow> bool" where
  "shmcb_cyclic_memcmp buf_size dat dest_offset src =
     (if uadd dest_offset (length src) < buf_size
      then bytes_at dat dest_offset (length src) = src
      else bytes_at dat dest_offset (buf_size - dest_offset) = take (buf_size - dest_offset) src \<and>
           bytes_at dat 0 (usub (uadd (length src) dest_offset) buf_size) = drop (buf_size - dest_offset) src)"

section \<open>Operations on a subcache\<close>

text \<open>
  The loop of \<open>shmcb_subcache_expire\<close> over the \<open>k\<close> indexes still to be looked at: how many it
  passes, where it stops, and how many of those it passed had expired.
\<close>

fun expire_scan :: "SHMCBIndex list \<Rightarrow> nat \<Rightarrow> int \<Rightarrow> nat \<Rightarrow> nat \<Rightarrow> nat \<times> nat \<times> nat" where
  "expire_scan idxs num now 0 pos = (0, pos, 0)"
| "expire_scan idxs num now (Suc k) pos =
     (let idx = idxs ! pos
      in if \<not> removed idx \<and> \<not> expires idx \<le> now then (0, pos, 0)
         else case expire_scan idxs num now k (SHMCB_CYCLIC_INCREMENT pos 1 num) of
           (loop, new_idx_pos, expired) \<Rightarrow>
             (loop + 1, new_idx_pos, if removed idx then expired else expired + 1))"

definition shmcb_subcache_expire ::
  "SHMCBHeader \<Rightarrow> SHMCBSubcache \<Rightarrow> int \<Rightarrow> SHMCBHeader \<times> SHMCBSubcache" where
  "shmcb_subcache_expire hdr subcache now =
     (case expire_scan (indexes subcache) (index_num hdr) now (idx_used subcache) (idx_pos subcache) of
        (loop, new_idx_pos, expired) \<Rightarrow>
          if loop = 0 then (hdr, subcache)
          else
            (hdr\<lparr>stat_expiries := stat_expiries hdr + of_nat expired\<rparr>,
             if loop = idx_used subcache then subcache\<lparr>idx_used := 0, data_used := 0\<rparr>
             else
               let idx = SHMCB_INDEX subcache new_idx_pos;
                   diff = SHMCB_CYCLIC_SPACE (data_pos subcache) (idx_data_pos idx) (subcache_data_size hdr)
               in subcache\<lparr>idx_used := usub (idx_used subcache) loop, idx_pos := new_idx_pos,
                           data_used := usub (data_used subcache) diff, data_pos := idx_data_pos idx\<rparr>))"

text \<open>
  The loop of \<open>shmcb_subcache_store\<close> that expires by force. It takes an index off in every round and
  ends at the last one: the fuel \<open>idx_used\<close> is enough (\<open>force_expire_correct\<close> below, for any larger fuel too).
\<close>

fun force_expire ::
  "nat \<Rightarrow> nat \<Rightarrow> SHMCBIndex \<Rightarrow> SHMCBHeader \<Rightarrow> SHMCBSubcache \<Rightarrow> SHMCBHeader \<times> SHMCBSubcache" where
  "force_expire 0 total_len idx hdr subcache = (hdr, subcache)"
| "force_expire (Suc fuel) total_len idx hdr subcache =
     (let subcache = subcache\<lparr>idx_pos := SHMCB_CYCLIC_INCREMENT (idx_pos subcache) 1 (index_num hdr),
                              idx_used := usub (idx_used subcache) 1\<rparr>
      in if idx_used subcache = 0 then (hdr, subcache\<lparr>data_used := 0\<rparr>)
         else
           let idx2 = SHMCB_INDEX subcache (idx_pos subcache);
               subcache = subcache\<lparr>data_used := usub (data_used subcache)
                            (SHMCB_CYCLIC_SPACE (idx_data_pos idx) (idx_data_pos idx2) (subcache_data_size hdr)),
                            data_pos := idx_data_pos idx2\<rparr>;
               hdr = hdr\<lparr>stat_scrolled := stat_scrolled hdr + 1\<rparr>
           in if usub (subcache_data_size hdr) (data_used subcache) < total_len
              then force_expire fuel total_len idx2 hdr subcache
              else (hdr, subcache))"

text \<open>The part of \<open>shmcb_subcache_store\<close> that writes the id, the data and the index.\<close>

definition subcache_insert ::
  "SHMCBHeader \<Rightarrow> string \<Rightarrow> string \<Rightarrow> int \<Rightarrow> SHMCBSubcache \<Rightarrow> SHMCBSubcache" where
  "subcache_insert hdr dat oid expiry subcache =
     (let dsize = subcache_data_size hdr;
          id_offset = SHMCB_CYCLIC_INCREMENT (data_pos subcache) (data_used subcache) dsize;
          area = shmcb_cyclic_ntoc_memcpy dsize (data_area subcache) id_offset oid;
          used = uadd (data_used subcache) (length oid);
          data_offset = SHMCB_CYCLIC_INCREMENT (data_pos subcache) used dsize;
          area = shmcb_cyclic_ntoc_memcpy dsize area data_offset dat;
          used = uadd used (length dat);
          new_idx = SHMCB_CYCLIC_INCREMENT (idx_pos subcache) (idx_used subcache) (index_num hdr);
          idx = \<lparr>expires = expiry, idx_data_pos = id_offset, idx_data_used = uadd (length oid) (length dat),
                 id_len = length oid, removed = False\<rparr>
      in subcache\<lparr>data_area := area, data_used := used, indexes := (indexes subcache)[new_idx := idx],
                  idx_used := uadd (idx_used subcache) 1\<rparr>)"

definition shmcb_subcache_store ::
  "SHMCBHeader \<Rightarrow> SHMCBSubcache \<Rightarrow> string \<Rightarrow> string \<Rightarrow> int \<Rightarrow> int \<Rightarrow> int \<times> SHMCBHeader \<times> SHMCBSubcache" where
  "shmcb_subcache_store hdr subcache dat oid expiry now =
     (let total_len = uadd (length oid) (length dat)
      in if total_len > subcache_data_size hdr then (- 1, hdr, subcache)
         else
           let (hdr, subcache) = shmcb_subcache_expire hdr subcache now;
               (hdr, subcache) =
                 (if usub (subcache_data_size hdr) (data_used subcache) < total_len \<or>
                     idx_used subcache = index_num hdr
                  then force_expire (idx_used subcache) total_len (SHMCB_INDEX subcache (idx_pos subcache)) hdr subcache
                  else (hdr, subcache))
           in (0, hdr, subcache_insert hdr dat oid expiry subcache))"

text \<open>
  The loop that \<open>shmcb_subcache_retrieve\<close> and \<open>shmcb_subcache_remove\<close> share: the position of the first
  of \<open>k\<close> indexes that the condition accepts.
\<close>

fun index_scan :: "(SHMCBIndex \<Rightarrow> bool) \<Rightarrow> SHMCBIndex list \<Rightarrow> nat \<Rightarrow> nat \<Rightarrow> nat \<Rightarrow> nat option" where
  "index_scan P idxs num 0 pos = None"
| "index_scan P idxs num (Suc k) pos =
     (if P (idxs ! pos) then Some pos
      else index_scan P idxs num k (SHMCB_CYCLIC_INCREMENT pos 1 num))"

definition mark_removed :: "nat \<Rightarrow> SHMCBSubcache \<Rightarrow> SHMCBSubcache" where
  "mark_removed pos subcache =
     subcache\<lparr>indexes := (indexes subcache)[pos := (SHMCB_INDEX subcache pos)\<lparr>removed := True\<rparr>]\<rparr>"

definition remove_match :: "SHMCBHeader \<Rightarrow> SHMCBSubcache \<Rightarrow> string \<Rightarrow> SHMCBIndex \<Rightarrow> bool" where
  "remove_match hdr subcache oid idx \<longleftrightarrow>
     \<not> removed idx \<and> id_len idx = length oid \<and>
     shmcb_cyclic_memcmp (subcache_data_size hdr) (data_area subcache) (idx_data_pos idx) oid"

definition retrieve_match :: "SHMCBHeader \<Rightarrow> SHMCBSubcache \<Rightarrow> string \<Rightarrow> nat \<Rightarrow> SHMCBIndex \<Rightarrow> bool" where
  "retrieve_match hdr subcache oid destlen idx \<longleftrightarrow>
     \<not> removed idx \<and> id_len idx = length oid \<and> usub (idx_data_used idx) (id_len idx) \<le> destlen \<and>
     shmcb_cyclic_memcmp (subcache_data_size hdr) (data_area subcache) (idx_data_pos idx) oid"

text \<open>\<open>Some\<close> is the return value 0, with the bytes copied to \<open>dest\<close>; \<open>None\<close> is -1.\<close>

definition shmcb_subcache_retrieve ::
  "SHMCBHeader \<Rightarrow> SHMCBSubcache \<Rightarrow> string \<Rightarrow> nat \<Rightarrow> int \<Rightarrow> string option \<times> SHMCBHeader \<times> SHMCBSubcache" where
  "shmcb_subcache_retrieve hdr subcache oid destlen now =
     (case index_scan (retrieve_match hdr subcache oid destlen) (indexes subcache) (index_num hdr)
             (idx_used subcache) (idx_pos subcache) of
        None \<Rightarrow> (None, hdr, subcache)
      | Some pos \<Rightarrow>
          let idx = SHMCB_INDEX subcache pos
          in if expires idx > now then
               let data_offset = SHMCB_CYCLIC_INCREMENT (idx_data_pos idx) (id_len idx) (subcache_data_size hdr);
                   len = usub (idx_data_used idx) (id_len idx)
               in (Some (shmcb_cyclic_cton_memcpy (subcache_data_size hdr) (data_area subcache) data_offset len),
                   hdr, subcache)
             else (None, hdr\<lparr>stat_expiries := stat_expiries hdr + 1\<rparr>, mark_removed pos subcache))"

definition shmcb_subcache_remove ::
  "SHMCBHeader \<Rightarrow> SHMCBSubcache \<Rightarrow> string \<Rightarrow> int \<times> SHMCBSubcache" where
  "shmcb_subcache_remove hdr subcache oid =
     (case index_scan (remove_match hdr subcache oid) (indexes subcache) (index_num hdr)
             (idx_used subcache) (idx_pos subcache) of
        None \<Rightarrow> (- 1, subcache)
      | Some pos \<Rightarrow> (0, mark_removed pos subcache))"

text \<open>
  The loop of \<open>shmcb_subcache_iterate\<close>; \<open>iterator\<close> is the caller's function, on a state of its own.
  The buffer is kept as its length: the id and the data are copied to its beginning and behind the
  aligned id, each with a NUL, which fits the length requested (\<open>iterate_buffer_fits\<close>).
\<close>

definition APR_ALIGN_DEFAULT :: "nat \<Rightarrow> nat" where
  "APR_ALIGN_DEFAULT n = (n + 7) div 8 * 8"

definition iterate_buf_req :: "nat \<Rightarrow> nat \<Rightarrow> nat" where
  "iterate_buf_req idlen dest_len = APR_ALIGN_DEFAULT (idlen + 1) + APR_ALIGN_DEFAULT (dest_len + 1)"

definition iterate_buf_len :: "nat \<Rightarrow> nat \<Rightarrow> nat" where
  "iterate_buf_len buf_req buf_len =
     (if buf_req > buf_len then buf_req + APR_ALIGN_DEFAULT (buf_req div 2) else buf_len)"

fun iterate_scan ::
  "('u \<Rightarrow> string \<Rightarrow> string \<Rightarrow> apr_status \<times> 'u) \<Rightarrow> int \<Rightarrow> nat \<Rightarrow> nat \<Rightarrow> 'u \<Rightarrow> nat \<Rightarrow> SHMCBHeader \<Rightarrow> SHMCBSubcache
     \<Rightarrow> apr_status \<times> 'u \<times> nat \<times> SHMCBHeader \<times> SHMCBSubcache" where
  "iterate_scan iterator now 0 pos userctx buf_len hdr subcache = (APR_SUCCESS, userctx, buf_len, hdr, subcache)"
| "iterate_scan iterator now (Suc k) pos userctx buf_len hdr subcache =
     (let idx = SHMCB_INDEX subcache pos; next = SHMCB_CYCLIC_INCREMENT pos 1 (index_num hdr)
      in if removed idx then iterate_scan iterator now k next userctx buf_len hdr subcache
         else if expires idx > now then
           let dsize = subcache_data_size hdr;
               data_offset = SHMCB_CYCLIC_INCREMENT (idx_data_pos idx) (id_len idx) dsize;
               dest_len = usub (idx_data_used idx) (id_len idx);
               buf_len = iterate_buf_len (iterate_buf_req (id_len idx) dest_len) buf_len
           in case iterator userctx
                     (shmcb_cyclic_cton_memcpy dsize (data_area subcache) (idx_data_pos idx) (id_len idx))
                     (shmcb_cyclic_cton_memcpy dsize (data_area subcache) data_offset dest_len) of
                (rv, userctx) \<Rightarrow>
                  if rv \<noteq> APR_SUCCESS then (rv, userctx, buf_len, hdr, subcache)
                  else iterate_scan iterator now k next userctx buf_len hdr subcache
         else iterate_scan iterator now k next userctx buf_len
                (hdr\<lparr>stat_expiries := stat_expiries hdr + 1\<rparr>) (mark_removed pos subcache))"

definition shmcb_subcache_iterate ::
  "('u \<Rightarrow> string \<Rightarrow> string \<Rightarrow> apr_status \<times> 'u) \<Rightarrow> int \<Rightarrow> 'u \<Rightarrow> nat \<Rightarrow> SHMCBHeader \<Rightarrow> SHMCBSubcache
     \<Rightarrow> apr_status \<times> 'u \<times> nat \<times> SHMCBHeader \<times> SHMCBSubcache" where
  "shmcb_subcache_iterate iterator now userctx buf_len hdr subcache =
     iterate_scan iterator now (idx_used subcache) (idx_pos subcache) userctx buf_len hdr subcache"

lemma align_ge: "n \<le> APR_ALIGN_DEFAULT n"
proof -
  obtain m r where "n = 8 * m + r" "r < 8" by (metis mod_less_divisor mult_div_mod_eq zero_less_numeral)
  then show ?thesis by (cases "r = 0") (simp_all add: APR_ALIGN_DEFAULT_def)
qed

lemma iterate_buffer_fits:
  "idlen + 1 \<le> APR_ALIGN_DEFAULT (idlen + 1)"
  "APR_ALIGN_DEFAULT (idlen + 1) + (dest_len + 1) \<le> iterate_buf_len (iterate_buf_req idlen dest_len) buf_len"
proof -
  have "iterate_buf_req idlen dest_len \<le> iterate_buf_len (iterate_buf_req idlen dest_len) buf_len"
    by (simp add: iterate_buf_len_def)
  then show "APR_ALIGN_DEFAULT (idlen + 1) + (dest_len + 1) \<le> iterate_buf_len (iterate_buf_req idlen dest_len) buf_len"
    using align_ge [of "dest_len + 1"] unfolding iterate_buf_req_def by linarith
qed (rule align_ge)

section \<open>Operations of the cache\<close>

text \<open>
  \<open>socache_shmcb_init\<close> on a segment of the given size. The sizes of the structures are those of an LP64
  platform (\<open>8 * 8 + 5 * 4\<close>, \<open>4 * 4\<close> and \<open>8 + 3 * 4 + 1\<close> bytes, aligned to 8). The result of a division
  by zero is \<open>None\<close>. What the arrays hold at first is an argument.
\<close>

definition ALIGNED_HEADER_SIZE :: nat where "ALIGNED_HEADER_SIZE = APR_ALIGN_DEFAULT 88"
definition ALIGNED_SUBCACHE_SIZE :: nat where "ALIGNED_SUBCACHE_SIZE = APR_ALIGN_DEFAULT 16"
definition ALIGNED_INDEX_SIZE :: nat where "ALIGNED_INDEX_SIZE = APR_ALIGN_DEFAULT 24"

function choose_subcaches :: "nat \<Rightarrow> nat \<Rightarrow> nat option" where
  "choose_subcaches num_idx num_subcache =
     (if num_subcache = 0 then None
      else if num_idx div num_subcache < 2 * num_subcache then choose_subcaches num_idx (num_subcache div 2)
      else Some num_subcache)"
  by pat_completeness auto
termination by (relation "measure snd") auto

declare choose_subcaches.simps [simp del]

record shmcb_hints =
  avg_obj_size :: nat
  avg_id_len :: nat

definition shmcb_layout :: "nat \<Rightarrow> nat \<Rightarrow> nat \<Rightarrow> SHMCBHeader" where
  "shmcb_layout segsize num_subcache num_idx =
     (let size = segsize div num_subcache mod 2 ^ 32;
          size = (if size \<noteq> APR_ALIGN_DEFAULT size then usub (APR_ALIGN_DEFAULT size) (APR_ALIGN_DEFAULT 1) else size);
          offset = (ALIGNED_SUBCACHE_SIZE + num_idx * ALIGNED_INDEX_SIZE) mod 2 ^ 32
      in \<lparr>stat_stores = 0, stat_replaced = 0, stat_expiries = 0, stat_scrolled = 0, stat_retrieves_hit = 0,
          stat_retrieves_miss = 0, stat_removes_hit = 0, stat_removes_miss = 0, subcache_num = num_subcache,
          index_num = num_idx, subcache_size = size, subcache_data_offset = offset,
          subcache_data_size = usub size offset\<rparr>)"

definition empty_subcache :: "SHMCBIndex list \<Rightarrow> string \<Rightarrow> SHMCBSubcache" where
  "empty_subcache idxs area =
     \<lparr>idx_pos = 0, idx_used = 0, data_pos = 0, data_used = 0, indexes = idxs, data_area = area\<rparr>"

definition socache_shmcb_init ::
  "nat \<Rightarrow> shmcb_hints option \<Rightarrow> SHMCBIndex \<Rightarrow> char \<Rightarrow> (apr_status + shmcb) option" where
  "socache_shmcb_init shm_segsize hints junk_index junk_byte =
     (if shm_segsize < 5 * ALIGNED_HEADER_SIZE then Some (Inl APR_ENOSPC)
      else
        let segsize = shm_segsize - ALIGNED_HEADER_SIZE;
            obj_size = (case hints of None \<Rightarrow> 150 | Some h \<Rightarrow> if avg_obj_size h \<noteq> 0 then avg_obj_size h else 150);
            idlen = (case hints of None \<Rightarrow> 30 | Some h \<Rightarrow> if avg_id_len h \<noteq> 0 then avg_id_len h else 30);
            num_idx = segsize div (obj_size + idlen) mod 2 ^ 32
        in case choose_subcaches num_idx 256 of
             None \<Rightarrow> None
           | Some num_subcache \<Rightarrow>
               let num_idx = num_idx div num_subcache; hdr = shmcb_layout segsize num_subcache num_idx
               in if num_idx < 5 then Some (Inl APR_ENOSPC)
                  else Some (Inr \<lparr>header = hdr, subcaches = replicate num_subcache
                         (empty_subcache (replicate num_idx junk_index)
                            (replicate (subcache_data_size hdr) junk_byte))\<rparr>))"

definition subcache_at :: "shmcb \<Rightarrow> string \<Rightarrow> SHMCBSubcache" where
  "subcache_at c oid = subcaches c ! SHMCB_MASK (header c) oid"

definition put_subcache :: "string \<Rightarrow> SHMCBHeader \<Rightarrow> SHMCBSubcache \<Rightarrow> shmcb \<Rightarrow> shmcb" where
  "put_subcache oid hdr subcache c =
     c\<lparr>header := hdr, subcaches := (subcaches c)[SHMCB_MASK (header c) oid := subcache]\<rparr>"

definition socache_shmcb_store :: "string \<Rightarrow> int \<Rightarrow> string \<Rightarrow> int \<Rightarrow> shmcb \<Rightarrow> apr_status \<times> shmcb" where
  "socache_shmcb_store oid expiry encoded now c =
     (if length oid < 4 then (APR_EINVAL, c)
      else
        case shmcb_subcache_remove (header c) (subcache_at c oid) oid of (tryreplace, sc) \<Rightarrow>
        (case shmcb_subcache_store (header c) sc encoded oid expiry now of (rv, hdr, sc) \<Rightarrow>
           if rv \<noteq> 0 then (APR_ENOSPC, put_subcache oid hdr sc c)
           else (APR_SUCCESS,
                 put_subcache oid
                   (if tryreplace = 0 then hdr\<lparr>stat_replaced := stat_replaced hdr + 1\<rparr>
                    else hdr\<lparr>stat_stores := stat_stores hdr + 1\<rparr>) sc c)))"

text \<open>\<open>Some\<close> is \<open>APR_SUCCESS\<close> with the bytes in \<open>dest\<close>, \<open>None\<close> is \<open>APR_NOTFOUND\<close>.\<close>

definition socache_shmcb_retrieve :: "string \<Rightarrow> nat \<Rightarrow> int \<Rightarrow> shmcb \<Rightarrow> string option \<times> shmcb" where
  "socache_shmcb_retrieve oid destlen now c =
     (case shmcb_subcache_retrieve (header c) (subcache_at c oid) oid destlen now of (rv, hdr, sc) \<Rightarrow>
        (rv, put_subcache oid
               (if rv \<noteq> None then hdr\<lparr>stat_retrieves_hit := stat_retrieves_hit hdr + 1\<rparr>
                else hdr\<lparr>stat_retrieves_miss := stat_retrieves_miss hdr + 1\<rparr>) sc c))"

definition socache_shmcb_remove :: "string \<Rightarrow> shmcb \<Rightarrow> apr_status \<times> shmcb" where
  "socache_shmcb_remove oid c =
     (if length oid < 4 then (APR_EINVAL, c)
      else
        case shmcb_subcache_remove (header c) (subcache_at c oid) oid of (rv, sc) \<Rightarrow>
          let hdr = header c
          in if rv = 0 then (APR_SUCCESS, put_subcache oid (hdr\<lparr>stat_removes_hit := stat_removes_hit hdr + 1\<rparr>) sc c)
             else (APR_NOTFOUND, put_subcache oid (hdr\<lparr>stat_removes_miss := stat_removes_miss hdr + 1\<rparr>) sc c))"

text \<open>The loop of \<open>socache_shmcb_iterate\<close> over the subcaches, and the one of \<open>socache_shmcb_status\<close>, which expires them.\<close>

fun iterate_subcaches ::
  "('u \<Rightarrow> string \<Rightarrow> string \<Rightarrow> apr_status \<times> 'u) \<Rightarrow> int \<Rightarrow> 'u \<Rightarrow> nat \<Rightarrow> SHMCBHeader \<Rightarrow> SHMCBSubcache list
     \<Rightarrow> apr_status \<times> 'u \<times> SHMCBHeader \<times> SHMCBSubcache list" where
  "iterate_subcaches iterator now userctx buf_len hdr [] = (APR_SUCCESS, userctx, hdr, [])"
| "iterate_subcaches iterator now userctx buf_len hdr (sc # scs) =
     (case shmcb_subcache_iterate iterator now userctx buf_len hdr sc of (rv, userctx, buf_len, hdr, sc) \<Rightarrow>
        if rv \<noteq> APR_SUCCESS then (rv, userctx, hdr, sc # scs)
        else (case iterate_subcaches iterator now userctx buf_len hdr scs of (rv, userctx, hdr, scs) \<Rightarrow>
                (rv, userctx, hdr, sc # scs)))"

definition socache_shmcb_iterate ::
  "('u \<Rightarrow> string \<Rightarrow> string \<Rightarrow> apr_status \<times> 'u) \<Rightarrow> int \<Rightarrow> 'u \<Rightarrow> shmcb \<Rightarrow> apr_status \<times> 'u \<times> shmcb" where
  "socache_shmcb_iterate iterator now userctx c =
     (case iterate_subcaches iterator now userctx 0 (header c) (subcaches c) of (rv, userctx, hdr, scs) \<Rightarrow>
        (rv, userctx, c\<lparr>header := hdr, subcaches := scs\<rparr>))"

fun expire_subcaches :: "int \<Rightarrow> SHMCBHeader \<Rightarrow> SHMCBSubcache list \<Rightarrow> SHMCBHeader \<times> SHMCBSubcache list" where
  "expire_subcaches now hdr [] = (hdr, [])"
| "expire_subcaches now hdr (sc # scs) =
     (case shmcb_subcache_expire hdr sc now of (hdr, sc) \<Rightarrow>
      (case expire_subcaches now hdr scs of (hdr, scs) \<Rightarrow> (hdr, sc # scs)))"

definition socache_shmcb_status :: "int \<Rightarrow> shmcb \<Rightarrow> nat \<times> nat \<times> shmcb" where
  "socache_shmcb_status now c =
     (case expire_subcaches now (header c) (subcaches c) of (hdr, scs) \<Rightarrow>
        (sum_list (map idx_used scs) mod 2 ^ 32, sum_list (map data_used scs) mod 2 ^ 32,
         c\<lparr>header := hdr, subcaches := scs\<rparr>))"

section \<open>The invariant of a subcache and the entries it holds\<close>

definition header_wf :: "SHMCBHeader \<Rightarrow> bool" where
  "header_wf hdr \<longleftrightarrow> 0 < index_num hdr \<and> index_num hdr \<le> 2 ^ 31 \<and>
     0 < subcache_data_size hdr \<and> subcache_data_size hdr \<le> 2 ^ 31"

definition in_use :: "SHMCBSubcache \<Rightarrow> SHMCBIndex list" where
  "in_use sc = ring (indexes sc) (idx_pos sc) (idx_used sc)"

definition area_used :: "SHMCBIndex list \<Rightarrow> nat" where
  "area_used is = sum_list (map idx_data_used is)"

text \<open>The objects lie one behind the other in the data area, from \<open>p\<close> on.\<close>

fun chained :: "nat \<Rightarrow> nat \<Rightarrow> SHMCBIndex list \<Rightarrow> bool" where
  "chained d p [] = True"
| "chained d p (i # is) \<longleftrightarrow>
     idx_data_pos i = p mod d \<and> 0 < id_len i \<and> id_len i \<le> idx_data_used i \<and> chained d (p + idx_data_used i) is"

definition subcache_wf :: "SHMCBHeader \<Rightarrow> SHMCBSubcache \<Rightarrow> bool" where
  "subcache_wf hdr sc \<longleftrightarrow>
     length (indexes sc) = index_num hdr \<and> length (data_area sc) = subcache_data_size hdr \<and>
     idx_pos sc < index_num hdr \<and> idx_used sc \<le> index_num hdr \<and>
     data_pos sc < subcache_data_size hdr \<and> data_used sc \<le> subcache_data_size hdr \<and>
     data_used sc = area_used (in_use sc) \<and> chained (subcache_data_size hdr) (data_pos sc) (in_use sc)"

record entry =
  e_id :: string
  e_data :: string
  e_expires :: int
  e_removed :: bool

definition entry_of :: "string \<Rightarrow> SHMCBIndex \<Rightarrow> entry" where
  "entry_of area i =
     \<lparr>e_id = ring area (idx_data_pos i) (id_len i),
      e_data = ring area (idx_data_pos i + id_len i) (idx_data_used i - id_len i),
      e_expires = expires i, e_removed = removed i\<rparr>"

definition entries :: "SHMCBSubcache \<Rightarrow> entry list" where
  "entries sc = map (entry_of (data_area sc)) (in_use sc)"

text \<open>What the operations do to the entries.\<close>

definition reclaimable :: "int \<Rightarrow> entry \<Rightarrow> bool" where
  "reclaimable now e \<longleftrightarrow> e_removed e \<or> e_expires e \<le> now"

definition entry_size :: "entry \<Rightarrow> nat" where
  "entry_size e = length (e_id e) + length (e_data e)"

fun make_room :: "('a \<Rightarrow> nat) \<Rightarrow> nat \<Rightarrow> 'a list \<Rightarrow> 'a list" where
  "make_room f room [] = []"
| "make_room f room (x # xs) = (if sum_list (map f (x # xs)) \<le> room then x # xs else make_room f room xs)"

fun mark_first :: "(entry \<Rightarrow> bool) \<Rightarrow> entry list \<Rightarrow> entry list" where
  "mark_first P [] = []"
| "mark_first P (e # es) = (if P e then e\<lparr>e_removed := True\<rparr> # es else e # mark_first P es)"

section \<open>Cyclic arithmetic and copies\<close>

lemma cyclic_increment: "v + i < 2 ^ 32 \<Longrightarrow> SHMCB_CYCLIC_INCREMENT v i m = (v + i) mod m"
  by (simp add: SHMCB_CYCLIC_INCREMENT_def uadd_exact)

lemma cyclic_space:
  assumes "p < m" "k < m" "m \<le> 2 ^ 31"
  shows "SHMCB_CYCLIC_SPACE p ((p + k) mod m) m = k"
proof (cases "p + k < m")
  case True
  then show ?thesis by (simp add: SHMCB_CYCLIC_SPACE_def)
next
  case False
  then have wrap: "(p + k) mod m = p + k - m" using assms by (simp add: mod_if)
  have "uadd (p + k - m) m = p + k" using False assms by (subst uadd_exact) auto
  moreover have "usub (p + k) p = k" using assms by (subst usub_exact) auto
  ultimately show ?thesis using assms False by (simp add: SHMCB_CYCLIC_SPACE_def wrap)
qed

lemma cton_memcpy:
  assumes "length area = d" "p < d" "n \<le> d" "d \<le> 2 ^ 31"
  shows "shmcb_cyclic_cton_memcpy d area p n = ring area p n"
proof -
  have u: "uadd p n = p + n" "uadd n p = n + p" using assms by (auto intro!: uadd_exact)
  show ?thesis
  proof (cases "p + n < d")
    case True
    then show ?thesis using assms by (simp add: shmcb_cyclic_cton_memcpy_def u bytes_at_def ring_straight)
  next
    case False
    have "usub (n + p) d = n + p - d" using False assms by (intro usub_exact) auto
    then show ?thesis using False assms
      by (simp add: shmcb_cyclic_cton_memcpy_def u bytes_at_def ring_wrapped add.commute)
  qed
qed

lemma cyclic_memcmp:
  assumes "length area = d" "p < d" "length s \<le> d" "d \<le> 2 ^ 31"
  shows "shmcb_cyclic_memcmp d area p s \<longleftrightarrow> ring area p (length s) = s"
proof (cases "uadd p (length s) < d")
  case True
  then show ?thesis using cton_memcpy [OF assms]
    by (simp add: shmcb_cyclic_memcmp_def shmcb_cyclic_cton_memcpy_def)
next
  case False
  let ?a = "bytes_at area p (d - p)" and ?b = "bytes_at area 0 (usub (uadd (length s) p) d)"
  have u: "uadd p (length s) = p + length s" using assms by (auto intro!: uadd_exact)
  have "length ?a = length (take (d - p) s)" using assms False by (simp add: bytes_at_def u)
  then have "?a @ ?b = take (d - p) s @ drop (d - p) s \<longleftrightarrow> ?a = take (d - p) s \<and> ?b = drop (d - p) s"
    by (rule append_eq_append_conv [OF disjI1])
  then show ?thesis using cton_memcpy [OF assms] False
    by (simp add: shmcb_cyclic_memcmp_def shmcb_cyclic_cton_memcpy_def)
qed

lemma ntoc_memcpy:
  assumes "length area = d" "p < d" "length s \<le> d" "d \<le> 2 ^ 31"
  shows "shmcb_cyclic_ntoc_memcpy d area p s = ring_write area p s"
proof -
  have u: "uadd p (length s) = p + length s" using assms by (auto intro!: uadd_exact)
  show ?thesis
  proof (cases "p + length s < d")
    case True
    then show ?thesis using assms by (simp add: shmcb_cyclic_ntoc_memcpy_def u memcpy_to_def ring_write_straight)
  next
    case False
    let ?a = "take (d - p) s" and ?b = "drop (d - p) s"
    have la: "length ?a = d - p" using False assms by simp
    have a: "memcpy_to area p ?a = ring_write area p ?a"
      unfolding memcpy_to_def by (rule ring_write_straight [symmetric]) (use assms la in linarith)
    have "memcpy_to (ring_write area p ?a) 0 ?b = ring_write (ring_write area p ?a) 0 ?b"
      unfolding memcpy_to_def by (rule ring_write_straight [symmetric]) (use assms in simp)
    also have "\<dots> = ring_write (ring_write area p ?a) (p + length ?a) ?b"
      using ring_write_mod [of "ring_write area p ?a" d ?b] assms la by simp
    also have "\<dots> = ring_write area p s" by (subst ring_write_cat) simp
    finally show ?thesis using False by (simp add: shmcb_cyclic_ntoc_memcpy_def u a)
  qed
qed

section \<open>The queue of indexes\<close>

lemma header_wfD:
  assumes "header_wf hdr"
  shows "0 < index_num hdr" "index_num hdr \<le> 2 ^ 31" "0 < subcache_data_size hdr" "subcache_data_size hdr \<le> 2 ^ 31"
  using assms by (simp_all add: header_wf_def)

lemma length_in_use [simp]: "length (in_use sc) = idx_used sc"
  by (simp add: in_use_def)

lemma area_used_simps [simp]:
  "area_used [] = 0" "area_used (i # is) = idx_data_used i + area_used is"
  "area_used (is @ js) = area_used is + area_used js"
  by (simp_all add: area_used_def)

lemma chained_append:
  "chained d p (is @ js) \<longleftrightarrow> chained d p is \<and> chained d (p + area_used is) js"
  by (induction "is" arbitrary: p) (simp_all add: add.assoc)

lemma chained_mod: "chained d (p mod d) is = chained d p is"
proof (induction "is" arbitrary: p)
  case (Cons i "is")
  have "chained d (p mod d + idx_data_used i) is = chained d (p + idx_data_used i) is"
    using Cons [of "p mod d + idx_data_used i"] Cons [of "p + idx_data_used i"] by (simp add: mod_add_left_eq)
  then show ?case by simp
qed simp

lemma chained_used_pos: "chained d p is \<Longrightarrow> is \<noteq> [] \<Longrightarrow> 0 < area_used is"
  by (cases "is") auto

lemma next_index:
  assumes "header_wf hdr" "pos < index_num hdr"
  shows "SHMCB_CYCLIC_INCREMENT pos 1 (index_num hdr) = Suc pos mod index_num hdr"
  using header_wfD(2) [OF assms(1)] assms(2) by (simp add: cyclic_increment)

text \<open>
  Taking \<open>m\<close> indexes off the front, all of them or up to the one at which the data area then begins.
\<close>

lemma drop_front:
  assumes h: "header_wf hdr" and w: "subcache_wf hdr sc" and m: "m < idx_used sc"
  defines "i \<equiv> in_use sc ! m"
  shows "indexes sc ! ((idx_pos sc + m) mod index_num hdr) = i"
    and "SHMCB_CYCLIC_SPACE (data_pos sc) (idx_data_pos i) (subcache_data_size hdr) = area_used (take m (in_use sc))"
    and "usub (data_used sc) (area_used (take m (in_use sc))) = area_used (drop m (in_use sc))"
    and "idx_data_pos i < subcache_data_size hdr"
    and "chained (subcache_data_size hdr) (idx_data_pos i) (drop m (in_use sc))"
proof -
  let ?d = "subcache_data_size hdr" and ?S = "area_used (take m (in_use sc))"
  note wd = w [unfolded subcache_wf_def]
  show nth: "indexes sc ! ((idx_pos sc + m) mod index_num hdr) = i"
    using wd m by (simp add: i_def in_use_def ring_nth)
  have split: "in_use sc = take m (in_use sc) @ i # drop (Suc m) (in_use sc)"
    using m by (simp add: i_def id_take_nth_drop)
  have dm: "drop m (in_use sc) = i # drop (Suc m) (in_use sc)"
    using m by (simp add: i_def Cons_nth_drop_Suc)
  have "chained ?d (data_pos sc) (take m (in_use sc) @ drop m (in_use sc))" using wd by simp
  then have ch: "chained ?d (data_pos sc + ?S) (drop m (in_use sc))" by (simp only: chained_append)
  then have pos: "idx_data_pos i = (data_pos sc + ?S) mod ?d" by (simp add: dm)
  have used: "data_used sc = ?S + area_used (drop m (in_use sc))"
    using wd area_used_simps(3) [of "take m (in_use sc)" "drop m (in_use sc)"] by simp
  have "0 < area_used (drop m (in_use sc))" using ch by (simp add: dm)
  then have S: "?S < ?d" using used wd by linarith
  show "SHMCB_CYCLIC_SPACE (data_pos sc) (idx_data_pos i) ?d = ?S"
    unfolding pos using wd S header_wfD(4) [OF h] by (intro cyclic_space) auto
  show "usub (data_used sc) ?S = area_used (drop m (in_use sc))"
    using used wd header_wfD(4) [OF h] by (subst usub_exact) auto
  show "idx_data_pos i < ?d" unfolding pos using header_wfD(3) [OF h] by simp
  show "chained ?d (idx_data_pos i) (drop m (in_use sc))" unfolding pos using ch by (simp add: chained_mod)
qed

lemma drop_front_wf:
  assumes h: "header_wf hdr" and w: "subcache_wf hdr sc" and m: "m < idx_used sc"
  defines "i \<equiv> in_use sc ! m"
  defines "sc' \<equiv> sc\<lparr>idx_pos := (idx_pos sc + m) mod index_num hdr, idx_used := idx_used sc - m,
                   data_used := area_used (drop m (in_use sc)), data_pos := idx_data_pos i\<rparr>"
  shows "in_use sc' = drop m (in_use sc)" "subcache_wf hdr sc'"
proof -
  note wd = w [unfolded subcache_wf_def]
  show u: "in_use sc' = drop m (in_use sc)"
    using wd m ring_mod [of "indexes sc" "idx_pos sc + m"] by (simp add: in_use_def sc'_def ring_drop)
  have "area_used (drop m (in_use sc)) \<le> data_used sc"
    using wd area_used_simps(3) [of "take m (in_use sc)" "drop m (in_use sc)"] by simp
  then show "subcache_wf hdr sc'"
    using drop_front(4,5) [OF h w m] wd header_wfD(1) [OF h] u
    by (auto simp: subcache_wf_def sc'_def i_def)
qed

lemma entries_frame:
  "in_use sc' = xs \<Longrightarrow> data_area sc' = data_area sc \<Longrightarrow> entries sc' = map (entry_of (data_area sc)) xs"
  by (simp add: entries_def)

lemma empty_wf: "subcache_wf hdr sc \<Longrightarrow> subcache_wf hdr (sc\<lparr>idx_used := 0, data_used := 0\<rparr>)"
  by (simp add: subcache_wf_def in_use_def)

section \<open>Reclaiming\<close>

definition dead :: "int \<Rightarrow> SHMCBIndex \<Rightarrow> bool" where
  "dead now i \<longleftrightarrow> removed i \<or> expires i \<le> now"

lemma expire_scan_correct:
  assumes "header_wf hdr" "length idxs = index_num hdr" "pos < index_num hdr"
  shows "fst (expire_scan idxs (index_num hdr) now k pos) = length (takeWhile (dead now) (ring idxs pos k))"
    and "fst (snd (expire_scan idxs (index_num hdr) now k pos)) =
           (pos + length (takeWhile (dead now) (ring idxs pos k))) mod index_num hdr"
  using assms(3)
proof (induction k arbitrary: pos)
  case (Suc k)
  case 1
  let ?p = "Suc pos mod index_num hdr"
  have p: "?p < index_num hdr" using header_wfD(1) [OF assms(1)] by simp
  have r: "ring idxs (Suc pos) k = ring idxs ?p k" using assms(2) ring_mod [of idxs "Suc pos" k] by simp
  show ?case using Suc.IH(1) [OF p] 1 assms next_index [OF assms(1) 1]
    by (simp add: ring_Suc r dead_def Let_def split_beta)
next
  case (Suc k)
  case 2
  let ?p = "Suc pos mod index_num hdr"
  have p: "?p < index_num hdr" using header_wfD(1) [OF assms(1)] by simp
  have r: "ring idxs (Suc pos) k = ring idxs ?p k" using assms(2) ring_mod [of idxs "Suc pos" k] by simp
  show ?case using Suc.IH(2) [OF p] 2 assms next_index [OF assms(1) 2]
    by (simp add: ring_Suc r dead_def Let_def split_beta mod_add_left_eq)
qed simp_all

lemma expire_correct:
  fixes now
  assumes h: "header_wf hdr" and w: "subcache_wf hdr sc"
  defines "sc' \<equiv> snd (shmcb_subcache_expire hdr sc now)"
  shows "subcache_wf hdr sc'" "in_use sc' = dropWhile (dead now) (in_use sc)"
    "data_area sc' = data_area sc" "indexes sc' = indexes sc"
proof -
  let ?tw = "takeWhile (dead now) (in_use sc)"
  let ?scan = "expire_scan (indexes sc) (index_num hdr) now (idx_used sc) (idx_pos sc)"
  have "fst ?scan = length ?tw" "fst (snd ?scan) = (idx_pos sc + length ?tw) mod index_num hdr"
    using w expire_scan_correct [OF h, of "indexes sc" "idx_pos sc" now "idx_used sc"]
    by (simp_all add: in_use_def subcache_wf_def)
  then obtain expired where scan: "?scan = (length ?tw, (idx_pos sc + length ?tw) mod index_num hdr, expired)"
    by (cases ?scan) auto
  have dw: "dropWhile (dead now) (in_use sc) = drop (length ?tw) (in_use sc)" by (rule dropWhile_eq_drop)
  have le: "length ?tw \<le> idx_used sc" using length_takeWhile_le [of "dead now" "in_use sc"] by simp
  consider "length ?tw = 0" | "length ?tw \<noteq> 0" "length ?tw = idx_used sc" | "length ?tw \<noteq> 0" "length ?tw < idx_used sc"
    using le by linarith
  then have "subcache_wf hdr sc' \<and> in_use sc' = dropWhile (dead now) (in_use sc) \<and>
    data_area sc' = data_area sc \<and> indexes sc' = indexes sc"
  proof cases
    case 1
    then show ?thesis using w by (simp add: sc'_def shmcb_subcache_expire_def scan dw del: length_0_conv)
  next
    case 2
    then have "sc' = sc\<lparr>idx_used := 0, data_used := 0\<rparr>" by (simp add: sc'_def shmcb_subcache_expire_def scan)
    moreover have "in_use (sc\<lparr>idx_used := 0, data_used := 0\<rparr>) = []" by (simp add: in_use_def)
    ultimately show ?thesis using empty_wf [OF w] 2 by (simp add: dw)
  next
    case 3
    have "usub (idx_used sc) (length ?tw) = idx_used sc - length ?tw"
      using 3 w header_wfD(2) [OF h] by (intro usub_exact) (auto simp: subcache_wf_def)
    then have "sc' = sc\<lparr>idx_pos := (idx_pos sc + length ?tw) mod index_num hdr, idx_used := idx_used sc - length ?tw,
        data_used := area_used (drop (length ?tw) (in_use sc)), data_pos := idx_data_pos (in_use sc ! length ?tw)\<rparr>"
      using 3 drop_front(1-3) [OF h w 3(2)]
      by (simp add: sc'_def shmcb_subcache_expire_def scan SHMCB_INDEX_def Let_def)
    then show ?thesis using drop_front_wf [OF h w 3(2)] by (simp add: dw)
  qed
  then show "subcache_wf hdr sc'" "in_use sc' = dropWhile (dead now) (in_use sc)"
    "data_area sc' = data_area sc" "indexes sc' = indexes sc" by simp_all
qed

text \<open>The operations change only the statistics of the header.\<close>

definition shape :: "SHMCBHeader \<Rightarrow> nat \<times> nat \<times> nat" where
  "shape hdr = (subcache_num hdr, index_num hdr, subcache_data_size hdr)"

lemma shape_stats [simp]:
  "shape (hdr\<lparr>stat_stores := a\<rparr>) = shape hdr" "shape (hdr\<lparr>stat_replaced := a\<rparr>) = shape hdr"
  "shape (hdr\<lparr>stat_expiries := a\<rparr>) = shape hdr" "shape (hdr\<lparr>stat_scrolled := a\<rparr>) = shape hdr"
  "shape (hdr\<lparr>stat_retrieves_hit := a\<rparr>) = shape hdr" "shape (hdr\<lparr>stat_retrieves_miss := a\<rparr>) = shape hdr"
  "shape (hdr\<lparr>stat_removes_hit := a\<rparr>) = shape hdr" "shape (hdr\<lparr>stat_removes_miss := a\<rparr>) = shape hdr"
  by (simp_all add: shape_def)

lemma shapeD:
  assumes "shape hdr' = shape hdr"
  shows "subcache_num hdr' = subcache_num hdr" "index_num hdr' = index_num hdr"
    "subcache_data_size hdr' = subcache_data_size hdr"
    "header_wf hdr' = header_wf hdr" "subcache_wf hdr' sc = subcache_wf hdr sc" "SHMCB_MASK hdr' oid = SHMCB_MASK hdr oid"
  using assms by (simp_all add: shape_def header_wf_def subcache_wf_def SHMCB_MASK_def)

lemma shape_expire [simp]: "shape (fst (shmcb_subcache_expire hdr sc now)) = shape hdr"
  by (simp add: shmcb_subcache_expire_def split_beta)

lemma shape_force_expire [simp]: "shape (fst (force_expire fuel total_len idx hdr sc)) = shape hdr"
  by (induction fuel total_len idx hdr sc rule: force_expire.induct) (simp_all add: Let_def)

lemma make_room_map:
  "list_all (\<lambda>x. f (g x) = f' x) xs \<Longrightarrow> make_room f room (map g xs) = map g (make_room f' room xs)"
proof (induction xs)
  case (Cons x xs)
  then have "map f (map g xs) = map f' xs" by (simp add: list_all_iff)
  then show ?case using Cons by (simp del: map_map)
qed simp

lemma make_room_fits: "0 < length xs \<Longrightarrow> length (make_room f room (tl xs)) < length xs"
proof -
  have "length (make_room f room ys) \<le> length ys" for ys by (induction ys) auto
  then show "0 < length xs \<Longrightarrow> length (make_room f room (tl xs)) < length xs"
    using le_less_trans [of _ "length (tl xs)" "length xs"] by (cases xs) (simp_all add: less_Suc_eq_le)
qed

lemma make_room_sum: "sum_list (map f (make_room f room xs)) \<le> room"
  by (induction xs) auto

lemma make_room_id: "sum_list (map f xs) \<le> room \<Longrightarrow> make_room f room xs = xs"
  by (cases xs) auto

lemma make_room_tl:
  "xs \<noteq> [] \<Longrightarrow> \<not> sum_list (map f xs) \<le> room \<Longrightarrow> make_room f room xs = make_room f room (tl xs)"
  by (cases xs) auto

lemma force_expire_correct:
  assumes "header_wf hdr" "subcache_wf hdr sc" "0 < idx_used sc" "idx_used sc \<le> fuel"
    "total_len \<le> subcache_data_size hdr"
  defines "sc' \<equiv> snd (force_expire fuel total_len (in_use sc ! 0) hdr sc)"
  shows "subcache_wf hdr sc' \<and> data_area sc' = data_area sc \<and>
    in_use sc' = make_room idx_data_used (subcache_data_size hdr - total_len) (tl (in_use sc))"
  using assms(1-5) unfolding sc'_def
proof (induction fuel arbitrary: hdr sc)
  case (Suc fuel)
  note h = Suc.prems(1) and w = Suc.prems(2)
  let ?d = "subcache_data_size hdr" and ?n = "index_num hdr"
  note wd = w [unfolded subcache_wf_def]
  have inc: "SHMCB_CYCLIC_INCREMENT (idx_pos sc) (Suc 0) ?n = Suc (idx_pos sc) mod ?n"
    using wd next_index [OF h] by simp
  have dec: "usub (idx_used sc) (Suc 0) = idx_used sc - Suc 0"
    using wd header_wfD(2) [OF h] Suc.prems(3) by (intro usub_exact) auto
  show ?case
  proof (cases "idx_used sc = 1")
    case True
    then have tl: "tl (in_use sc) = []" using length_in_use [of sc] by (cases "in_use sc") auto
    have "subcache_wf hdr (sc\<lparr>idx_pos := Suc (idx_pos sc) mod ?n, idx_used := 0, data_used := 0\<rparr>)"
      using wd header_wfD(1) [OF h] by (simp add: subcache_wf_def in_use_def)
    moreover have "in_use (sc\<lparr>idx_pos := Suc (idx_pos sc) mod ?n, idx_used := 0, data_used := 0\<rparr>) = []"
      by (simp add: in_use_def)
    ultimately show ?thesis using True dec by (simp add: Let_def inc tl)
  next
    case False
    then have m: "1 < idx_used sc" using Suc.prems(3) by linarith
    let ?i = "in_use sc ! 1"
    define sc1 where "sc1 = sc\<lparr>idx_pos := (idx_pos sc + 1) mod ?n, idx_used := idx_used sc - 1,
                   data_used := area_used (drop 1 (in_use sc)), data_pos := idx_data_pos ?i\<rparr>"
    have w1: "in_use sc1 = drop 1 (in_use sc)" "subcache_wf hdr sc1"
      using drop_front_wf [OF h w m] by (simp_all only: sc1_def)
    have first: "idx_data_pos (in_use sc ! 0) = data_pos sc"
      using wd m length_in_use [of sc] by (cases "in_use sc") auto
    let ?h1 = "hdr\<lparr>stat_scrolled := stat_scrolled hdr + 1\<rparr>"
    have step: "force_expire (Suc fuel) total_len (in_use sc ! 0) hdr sc =
        (if usub ?d (data_used sc1) < total_len then force_expire fuel total_len ?i ?h1 sc1 else (?h1, sc1))"
      using drop_front(1-3) [OF h w m] m
      by (simp add: Let_def dec inc SHMCB_INDEX_def sc1_def first)
    have u: "usub ?d (data_used sc1) = ?d - data_used sc1"
      using w1(2) header_wfD(4) [OF h] by (intro usub_exact) (auto simp: subcache_wf_def)
    have tl: "tl (in_use sc) = in_use sc1" by (simp add: w1(1) drop_Suc)
    have ne: "in_use sc1 = ?i # tl (in_use sc1)" using m Cons_nth_drop_Suc [of 1 "in_use sc"] by (simp add: w1(1) drop_Suc)
    have room: "data_used sc1 = sum_list (map idx_data_used (in_use sc1))"
      using w1(2) by (simp add: subcache_wf_def area_used_def)
    show ?thesis
    proof (cases "?d - data_used sc1 < total_len")
      case True
      have "make_room idx_data_used (?d - total_len) (in_use sc1) = make_room idx_data_used (?d - total_len) (tl (in_use sc1))"
        using True Suc.prems(5) w1(2) room ne by (intro make_room_tl) (auto simp: subcache_wf_def)
      moreover have "in_use sc1 ! 0 = ?i" by (subst ne) simp
      moreover have "data_area sc1 = data_area sc" "idx_used sc1 = idx_used sc - 1" by (simp_all add: sc1_def)
      ultimately show ?thesis
        using Suc.IH [of ?h1 sc1] Suc.prems(4,5) w1(2) h m True
        by (simp add: step u tl shapeD [OF shape_stats(4)] del: force_expire.simps)
    next
      case False
      have "make_room idx_data_used (?d - total_len) (in_use sc1) = in_use sc1"
        using False Suc.prems(5) w1(2) room by (intro make_room_id) (auto simp: subcache_wf_def)
      moreover have "data_area sc1 = data_area sc" by (simp add: sc1_def)
      ultimately show ?thesis using False w1(2) by (simp add: step u tl del: force_expire.simps)
    qed
  qed
qed simp

section \<open>Inserting\<close>

text \<open>The entries depend on the used part of the data area only.\<close>

lemma entry_of_cong:
  assumes "length a = d" "length b = d" "idx_data_pos i = p mod d" "id_len i \<le> idx_data_used i"
    "ring a p (idx_data_used i) = ring b p (idx_data_used i)"
  shows "entry_of a i = entry_of b i"
proof -
  have pos: "ring x (p mod d) n = ring x p n" "ring x (p mod d + m) n = ring x (p + m) n" if "length x = d" for x :: string and m n
    using ring_mod [of x p n] ring_mod [of x "p mod d + m" n] ring_mod [of x "p + m" n] that
    by (simp_all add: mod_add_left_eq)
  have "ring a p (id_len i) = ring b p (id_len i)"
    using ring_take [OF assms(4), of a p] ring_take [OF assms(4), of b p] assms(5) by simp
  moreover have "ring a (p + id_len i) (idx_data_used i - id_len i) = ring b (p + id_len i) (idx_data_used i - id_len i)"
    using ring_drop [OF assms(4), of a p] ring_drop [OF assms(4), of b p] assms(5) by simp
  ultimately show ?thesis using assms(1-3) by (simp add: entry_of_def pos)
qed

lemma entries_of_cong:
  assumes "length a = d" "length b = d"
  shows "chained d p is \<Longrightarrow> ring a p (area_used is) = ring b p (area_used is) \<Longrightarrow>
    map (entry_of a) is = map (entry_of b) is"
proof (induction "is" arbitrary: p)
  case (Cons i "is")
  then have "ring a p (idx_data_used i) = ring b p (idx_data_used i)"
    and "ring a (p + idx_data_used i) (area_used is) = ring b (p + idx_data_used i) (area_used is)"
    by (simp_all add: ring_add)
  moreover have "chained d (p + idx_data_used i) is" "entry_of a i = entry_of b i"
    using Cons.prems calculation(1) entry_of_cong [OF assms, of i p] by simp_all
  ultimately show ?case using Cons.IH [of "p + idx_data_used i"] by simp
qed simp

lemma insert_correct:
  fixes expiry
  assumes h: "header_wf hdr" and w: "subcache_wf hdr sc" and i: "idx_used sc < index_num hdr"
    and room: "data_used sc + length oid + length dat \<le> subcache_data_size hdr" and ne: "oid \<noteq> []"
  defines "sc' \<equiv> subcache_insert hdr dat oid expiry sc"
  shows "subcache_wf hdr sc'"
    and "entries sc' = entries sc @ [\<lparr>e_id = oid, e_data = dat, e_expires = expiry, e_removed = False\<rparr>]"
proof -
  let ?d = "subcache_data_size hdr" and ?n = "index_num hdr"
  let ?stop = "data_pos sc + data_used sc"
  note wd = w [unfolded subcache_wf_def] and d = header_wfD [OF h]
  define area where "area = ring_write (data_area sc) ?stop (oid @ dat)"
  define idx where "idx = \<lparr>expires = expiry, idx_data_pos = ?stop mod ?d, idx_data_used = length oid + length dat,
                 id_len = length oid, removed = False\<rparr>"
  have len: "length area = ?d" using wd by (simp add: area_def)
  have offs: "SHMCB_CYCLIC_INCREMENT (data_pos sc) (data_used sc) ?d = ?stop mod ?d"
    "SHMCB_CYCLIC_INCREMENT (data_pos sc) (data_used sc + length oid) ?d = (?stop + length oid) mod ?d"
    "SHMCB_CYCLIC_INCREMENT (idx_pos sc) (idx_used sc) ?n = (idx_pos sc + idx_used sc) mod ?n"
    using wd d room by (subst cyclic_increment; simp add: add.assoc)+
  have u: "uadd (data_used sc) (length oid) = data_used sc + length oid"
    "uadd (data_used sc + length oid) (length dat) = data_used sc + length oid + length dat"
    "uadd (length oid) (length dat) = length oid + length dat" "uadd (idx_used sc) 1 = idx_used sc + 1"
    using wd d room by (subst uadd_exact; simp)+
  have n1: "shmcb_cyclic_ntoc_memcpy ?d (data_area sc) (?stop mod ?d) oid = ring_write (data_area sc) ?stop oid"
    using wd d room ring_write_mod [of "data_area sc" ?stop oid] by (subst ntoc_memcpy) auto
  have n2: "shmcb_cyclic_ntoc_memcpy ?d (ring_write (data_area sc) ?stop oid) ((?stop + length oid) mod ?d) dat = area"
    using wd d room ring_write_mod [of "ring_write (data_area sc) ?stop oid" "?stop + length oid" dat]
    by (subst ntoc_memcpy) (auto simp: area_def ring_write_cat)
  have sc': "sc' = sc\<lparr>data_area := area, data_used := data_used sc + length oid + length dat,
      indexes := (indexes sc)[(idx_pos sc + idx_used sc) mod ?n := idx], idx_used := idx_used sc + 1\<rparr>"
    by (simp only: sc'_def subcache_insert_def Let_def offs u n1 n2 idx_def)
  have use: "in_use sc' = in_use sc @ [idx]"
    using wd i ring_snoc [of "idx_used sc" "indexes sc" "idx_pos sc" idx] by (simp add: sc' in_use_def)
  have "chained ?d (data_pos sc) (in_use sc @ [idx])"
    using wd ne by (simp add: chained_append idx_def)
  then show "subcache_wf hdr sc'"
    using wd i room len use by (simp add: subcache_wf_def sc' idx_def)
  have "ring area (data_pos sc) (area_used (in_use sc)) = ring (data_area sc) (data_pos sc) (area_used (in_use sc))"
    unfolding area_def using wd room by (intro ring_write_before) auto
  then have old: "map (entry_of area) (in_use sc) = map (entry_of (data_area sc)) (in_use sc)"
    using wd len entries_of_cong [of area ?d "data_area sc"] by blast
  have all: "ring area ?stop (length oid + length dat) = oid @ dat"
    using ring_write_same [of "oid @ dat" "data_area sc" ?stop] wd room by (simp add: area_def)
  then have "ring area ?stop (length oid) = oid" "ring area (?stop + length oid) (length dat) = dat"
    by (simp_all add: ring_add)
  then have "entry_of area idx = \<lparr>e_id = oid, e_data = dat, e_expires = expiry, e_removed = False\<rparr>"
    using ring_mod [of area ?stop] ring_mod [of area "?stop + length oid"] ring_mod [of area "?stop mod ?d + length oid"] len
    by (simp add: entry_of_def idx_def mod_add_left_eq)
  then show "entries sc' = entries sc @ [\<lparr>e_id = oid, e_data = dat, e_expires = expiry, e_removed = False\<rparr>]"
    by (simp only: entries_def use) (simp add: sc' old)
qed

section \<open>The operations on the entries\<close>

lemma chained_mem: "chained d p is \<Longrightarrow> i \<in> set is \<Longrightarrow> 0 < d \<Longrightarrow> idx_data_pos i < d \<and> 0 < id_len i \<and> id_len i \<le> idx_data_used i"
  by (induction "is" arbitrary: p) auto

lemma used_mem: "i \<in> set is \<Longrightarrow> idx_data_used i \<le> area_used is"
  unfolding area_used_def by (intro member_le_sum_list) auto

lemma in_use_bounds:
  assumes "header_wf hdr" "subcache_wf hdr sc" "i \<in> set (in_use sc)"
  shows "idx_data_pos i < subcache_data_size hdr" "0 < id_len i" "id_len i \<le> idx_data_used i"
    "idx_data_used i \<le> subcache_data_size hdr"
  using assms chained_mem [of _ _ "in_use sc" i] used_mem [of i "in_use sc"] header_wfD(3) [OF assms(1)]
  by (fastforce simp: subcache_wf_def)+

lemma entry_simps [simp]:
  "e_expires (entry_of a i) = expires i" "e_removed (entry_of a i) = removed i"
  "length (e_id (entry_of a i)) = id_len i" "length (e_data (entry_of a i)) = idx_data_used i - id_len i"
  "entry_of a (i\<lparr>removed := True\<rparr>) = (entry_of a i)\<lparr>e_removed := True\<rparr>"
  by (simp_all add: entry_of_def)

lemma entry_size_of: "id_len i \<le> idx_data_used i \<Longrightarrow> entry_size (entry_of a i) = idx_data_used i"
  by (simp add: entry_size_def)

text \<open>
  What a store keeps of the entries: none that can be reclaimed at the front, not all if every index is
  in use, and the newest ones that leave room for the object.
\<close>

definition kept :: "SHMCBHeader \<Rightarrow> nat \<Rightarrow> int \<Rightarrow> entry list \<Rightarrow> entry list" where
  "kept hdr len now es =
     (let es = dropWhile (reclaimable now) es
      in make_room entry_size (subcache_data_size hdr - len) (if length es = index_num hdr then tl es else es))"

lemma entries_expire:
  assumes "header_wf hdr" "subcache_wf hdr sc"
  shows "entries (snd (shmcb_subcache_expire hdr sc now)) = dropWhile (reclaimable now) (entries sc)"
  using expire_correct(2,3) [OF assms]
  by (simp add: entries_def dropWhile_map comp_def reclaimable_def dead_def [abs_def])

lemma entries_force_expire:
  assumes "header_wf hdr" "subcache_wf hdr sc" "0 < idx_used sc" "total_len \<le> subcache_data_size hdr"
  shows "entries (snd (force_expire (idx_used sc) total_len (SHMCB_INDEX sc (idx_pos sc)) hdr sc)) =
    make_room entry_size (subcache_data_size hdr - total_len) (tl (entries sc))"
proof -
  have "SHMCB_INDEX sc (idx_pos sc) = in_use sc ! 0"
    using assms(2,3) by (simp add: SHMCB_INDEX_def in_use_def ring_nth subcache_wf_def)
  moreover have "list_all (\<lambda>i. entry_size (entry_of (data_area sc) i) = idx_data_used i) (tl (in_use sc))"
    using in_use_bounds(3) [OF assms(1,2)] list.set_sel(2) [of "in_use sc"] assms(3)
    by (cases "in_use sc") (auto simp: list_all_iff entry_size_of)
  ultimately show ?thesis using force_expire_correct [OF assms(1-3) order_refl assms(4)]
    by (simp add: entries_def make_room_map flip: map_tl)
qed

text \<open>The result of making room, before the object is inserted.\<close>

lemma make_space_correct:
  assumes h: "header_wf hdr" and w: "subcache_wf hdr sc" and len: "len \<le> subcache_data_size hdr"
  defines "full \<equiv> usub (subcache_data_size hdr) (data_used sc) < len \<or> idx_used sc = index_num hdr"
  defines "sc' \<equiv> (if full then snd (force_expire (idx_used sc) len (SHMCB_INDEX sc (idx_pos sc)) hdr sc) else sc)"
  shows "subcache_wf hdr sc'" "idx_used sc' < index_num hdr" "data_used sc' + len \<le> subcache_data_size hdr"
    "entries sc' = make_room entry_size (subcache_data_size hdr - len)
       (if length (entries sc) = index_num hdr then tl (entries sc) else entries sc)"
proof -
  let ?d = "subcache_data_size hdr"
  note wd = w [unfolded subcache_wf_def] and d = header_wfD [OF h]
  have u: "usub ?d (data_used sc) = ?d - data_used sc" using wd d by (intro usub_exact) auto
  have full: "full \<longleftrightarrow> ?d - data_used sc < len \<or> idx_used sc = index_num hdr" by (simp add: full_def u)
  have sz: "sum_list (map entry_size (entries sc)) = data_used sc"
    using wd in_use_bounds(3) [OF h w] by (auto simp: entries_def area_used_def entry_size_of comp_def intro!: arg_cong [where f = sum_list])
  have len_e: "length (entries sc) = idx_used sc" by (simp add: entries_def)
  have "subcache_wf hdr sc' \<and> idx_used sc' < index_num hdr \<and> data_used sc' + len \<le> ?d \<and>
    entries sc' = make_room entry_size (?d - len) (if length (entries sc) = index_num hdr then tl (entries sc) else entries sc)"
  proof (cases full)
    case False
    then have "data_used sc + len \<le> ?d" "idx_used sc < index_num hdr"
      using wd len full by auto
    moreover from this have "make_room entry_size (?d - len) (entries sc) = entries sc"
      by (intro make_room_id) (simp add: sz)
    ultimately show ?thesis
      using False w by (simp add: sc'_def len_e)
  next
    case True
    have pos: "0 < idx_used sc"
    proof (rule ccontr)
      assume "\<not> 0 < idx_used sc"
      then have "idx_used sc = 0" "data_used sc = 0" using wd by (auto simp: in_use_def)
      then show False using True len d full by auto
    qed
    have "SHMCB_INDEX sc (idx_pos sc) = in_use sc ! 0"
      using wd pos by (simp add: SHMCB_INDEX_def in_use_def ring_nth)
    then have fe: "subcache_wf hdr sc'" "in_use sc' = make_room idx_data_used (?d - len) (tl (in_use sc))"
      using force_expire_correct [OF h w pos order_refl len] True by (simp_all add: sc'_def)
    have en: "entries sc' = make_room entry_size (?d - len) (tl (entries sc))"
      using entries_force_expire [OF h w pos len] True by (simp add: sc'_def)
    have "idx_used sc' < idx_used sc"
      using make_room_fits [of "in_use sc" idx_data_used "?d - len"] fe(2) pos length_in_use [of sc'] by simp
    moreover have "data_used sc' \<le> ?d - len"
      using fe make_room_sum [of idx_data_used "?d - len" "tl (in_use sc)"] by (simp add: subcache_wf_def area_used_def)
    moreover have "make_room entry_size (?d - len) (entries sc) = make_room entry_size (?d - len) (tl (entries sc))"
      if "idx_used sc \<noteq> index_num hdr"
      using that True [unfolded full] pos len wd by (intro make_room_tl) (auto simp: sz len_e simp flip: length_0_conv)
    ultimately show ?thesis
      using fe(1) en wd len by (auto simp: len_e)
  qed
  then show "subcache_wf hdr sc'" "idx_used sc' < index_num hdr" "data_used sc' + len \<le> ?d"
    "entries sc' = make_room entry_size (?d - len) (if length (entries sc) = index_num hdr then tl (entries sc) else entries sc)"
    by simp_all
qed

lemma store_correct:
  fixes expiry now
  assumes h: "header_wf hdr" and w: "subcache_wf hdr sc" and ne: "oid \<noteq> []"
    and len: "length oid + length dat < 2 ^ 32"
  defines "res \<equiv> shmcb_subcache_store hdr sc dat oid expiry now"
  shows "shape (fst (snd res)) = shape hdr" "subcache_wf hdr (snd (snd res))"
    "length oid + length dat > subcache_data_size hdr \<Longrightarrow> fst res = - 1 \<and> snd (snd res) = sc"
    "length oid + length dat \<le> subcache_data_size hdr \<Longrightarrow>
       fst res = 0 \<and> entries (snd (snd res)) = kept hdr (length oid + length dat) now (entries sc) @
         [\<lparr>e_id = oid, e_data = dat, e_expires = expiry, e_removed = False\<rparr>]"
proof -
  let ?d = "subcache_data_size hdr" and ?len = "length oid + length dat"
  let ?ex = "shmcb_subcache_expire hdr sc now"
  define h1 sc1 where "h1 = fst ?ex" and "sc1 = snd ?ex"
  have total: "uadd (length oid) (length dat) = ?len" by (rule uadd_exact [OF len])
  have s1: "shape h1 = shape hdr" by (simp add: h1_def)
  note s1D = shapeD [OF s1]
  have w1: "subcache_wf h1 sc1" using expire_correct(1) [OF h w] by (simp add: s1D sc1_def)
  have e1: "entries sc1 = dropWhile (reclaimable now) (entries sc)"
    using entries_expire [OF h w] by (simp add: sc1_def)
  let ?full = "usub ?d (data_used sc1) < ?len \<or> idx_used sc1 = index_num h1"
  let ?fe = "force_expire (idx_used sc1) ?len (SHMCB_INDEX sc1 (idx_pos sc1)) h1 sc1"
  define h2 sc2 where "h2 = (if ?full then fst ?fe else h1)" and "sc2 = (if ?full then snd ?fe else sc1)"
  have s2: "shape h2 = shape hdr" by (simp add: h2_def s1)
  have res: "res = (if ?len > ?d then (- 1, hdr, sc) else (0, h2, subcache_insert h2 dat oid expiry sc2))"
    by (auto simp: res_def shmcb_subcache_store_def Let_def total split_beta h1_def sc1_def h2_def sc2_def shapeD [OF shape_expire])
  have room: "subcache_wf h2 sc2" "idx_used sc2 < index_num h2" "data_used sc2 + length oid + length dat \<le> subcache_data_size h2"
    "entries sc2 = kept hdr ?len now (entries sc)" if "?len \<le> ?d"
    using make_space_correct [OF h [folded s1D(4)] w1, of ?len] that
    by (simp_all add: s1D shapeD [OF s2] sc2_def kept_def e1 Let_def)
  note ins = insert_correct [OF h [folded shapeD(4) [OF s2]] room(1-3) ne]
  show "shape (fst (snd res)) = shape hdr" by (simp add: res s2)
  show "subcache_wf hdr (snd (snd res))" using ins(1) w by (simp add: res shapeD [OF s2])
  show "?len > ?d \<Longrightarrow> fst res = - 1 \<and> snd (snd res) = sc" by (simp add: res)
  show "?len \<le> ?d \<Longrightarrow> fst res = 0 \<and> entries (snd (snd res)) = kept hdr ?len now (entries sc) @
         [\<lparr>e_id = oid, e_data = dat, e_expires = expiry, e_removed = False\<rparr>]"
    using ins(2) room(4) by (simp add: res)
qed

text \<open>The loops that look for an entry.\<close>

definition first_index :: "('a \<Rightarrow> bool) \<Rightarrow> 'a list \<Rightarrow> nat option" where
  "first_index P xs = (if \<exists>x\<in>set xs. P x then Some (length (takeWhile (\<lambda>x. \<not> P x) xs)) else None)"

lemma first_index_simps [simp]:
  "first_index P [] = None"
  "first_index P (x # xs) = (if P x then Some 0 else map_option Suc (first_index P xs))"
  by (auto simp: first_index_def)

lemma first_index_bound: "first_index P xs = Some m \<Longrightarrow> m < length xs \<and> P (xs ! m)"
  by (induction xs arbitrary: m) (auto split: if_splits)

lemma first_index_cong: "list_all (\<lambda>x. P x = Q x) xs \<Longrightarrow> first_index P xs = first_index Q xs"
  by (induction xs) auto

lemma first_index_map: "first_index P (map f xs) = first_index (P \<circ> f) xs"
  by (induction xs) auto

lemma first_index_find: "find P xs = map_option (\<lambda>m. xs ! m) (first_index P xs)"
  by (induction xs) (auto simp: option.map_comp comp_def)

lemma first_index_mark:
  "mark_first P es = (case first_index P es of None \<Rightarrow> es | Some m \<Rightarrow> es[m := (es ! m)\<lparr>e_removed := True\<rparr>])"
  by (induction es) (auto split: option.splits)

lemma index_scan_correct:
  assumes "header_wf hdr" "length idxs = index_num hdr" "pos < index_num hdr"
  shows "index_scan P idxs (index_num hdr) k pos =
    map_option (\<lambda>m. (pos + m) mod index_num hdr) (first_index P (ring idxs pos k))"
  using assms(3)
proof (induction k arbitrary: pos)
  case (Suc k)
  let ?p = "Suc pos mod index_num hdr"
  have p: "?p < index_num hdr" using header_wfD(1) [OF assms(1)] by simp
  have r: "ring idxs (Suc pos) k = ring idxs ?p k" using assms(2) ring_mod [of idxs "Suc pos" k] by simp
  show ?case using Suc.IH [OF p] Suc.prems assms next_index [OF assms(1) Suc.prems]
    by (simp add: ring_Suc r option.map_comp comp_def mod_add_left_eq)
qed simp

lemma scan_in_use:
  assumes "header_wf hdr" "subcache_wf hdr sc"
  shows "index_scan P (indexes sc) (index_num hdr) (idx_used sc) (idx_pos sc) =
    map_option (\<lambda>m. (idx_pos sc + m) mod index_num hdr) (first_index P (in_use sc))"
  using assms index_scan_correct [OF assms(1), of "indexes sc" "idx_pos sc"] by (simp add: in_use_def subcache_wf_def)

lemma mark_correct:
  assumes w: "subcache_wf hdr sc" and m: "m < idx_used sc"
  defines "sc' \<equiv> mark_removed ((idx_pos sc + m) mod index_num hdr) sc"
  shows "subcache_wf hdr sc'" "entries sc' = (entries sc)[m := (entries sc ! m)\<lparr>e_removed := True\<rparr>]"
proof -
  note wd = w [unfolded subcache_wf_def]
  have nth: "SHMCB_INDEX sc ((idx_pos sc + m) mod index_num hdr) = in_use sc ! m"
    using wd m by (simp add: SHMCB_INDEX_def in_use_def ring_nth)
  then have use: "in_use sc' = (in_use sc)[m := (in_use sc ! m)\<lparr>removed := True\<rparr>]"
    using wd m ring_list_update [of m "idx_used sc" "indexes sc" "idx_pos sc"]
    by (simp add: sc'_def mark_removed_def in_use_def)
  have "chained d p (is[m := (is ! m)\<lparr>removed := True\<rparr>]) = chained d p is" if "m < length is" for d p "is"
    using that by (induction "is" arbitrary: p m) (auto split: nat.split)
  moreover have "area_used (is[m := (is ! m)\<lparr>removed := True\<rparr>]) = area_used is" if "m < length is" for "is"
    using that by (induction "is" arbitrary: m) (auto split: nat.split)
  ultimately show "subcache_wf hdr sc'" using wd m use
    by (simp add: subcache_wf_def) (simp add: sc'_def mark_removed_def)
  show "entries sc' = (entries sc)[m := (entries sc ! m)\<lparr>e_removed := True\<rparr>]"
    using m by (simp add: entries_def use map_update) (simp add: sc'_def mark_removed_def)
qed

definition live :: "string \<Rightarrow> entry \<Rightarrow> bool" where
  "live oid e \<longleftrightarrow> \<not> e_removed e \<and> e_id e = oid"

lemma entry_id_eq:
  assumes "header_wf hdr" "subcache_wf hdr sc" "i \<in> set (in_use sc)"
  shows "id_len i = length oid \<and> shmcb_cyclic_memcmp (subcache_data_size hdr) (data_area sc) (idx_data_pos i) oid \<longleftrightarrow>
    e_id (entry_of (data_area sc) i) = oid"
proof (cases "id_len i = length oid")
  case True
  then show ?thesis using in_use_bounds [OF assms] header_wfD(4) [OF assms(1)] assms(2)
    by (subst cyclic_memcmp) (auto simp: subcache_wf_def entry_of_def)
next
  case False
  then show ?thesis by (metis entry_simps(3))
qed

lemma remove_match_live:
  assumes "header_wf hdr" "subcache_wf hdr sc"
  shows "first_index (remove_match hdr sc oid) (in_use sc) = first_index (live oid) (entries sc)"
  unfolding entries_def first_index_map
  by (rule first_index_cong) (use entry_id_eq [OF assms] in \<open>auto simp: list_all_iff remove_match_def live_def\<close>)

lemma retrieve_match_live:
  assumes "header_wf hdr" "subcache_wf hdr sc"
  shows "first_index (retrieve_match hdr sc oid destlen) (in_use sc) =
    first_index (\<lambda>e. live oid e \<and> length (e_data e) \<le> destlen) (entries sc)"
proof -
  have "usub (idx_data_used i) (id_len i) = idx_data_used i - id_len i" if "i \<in> set (in_use sc)" for i
    using in_use_bounds [OF assms that] header_wfD(4) [OF assms(1)] by (intro usub_exact) auto
  then show ?thesis unfolding entries_def first_index_map
    by (intro first_index_cong) (use entry_id_eq [OF assms] in \<open>auto simp: list_all_iff retrieve_match_def live_def\<close>)
qed

lemma remove_correct:
  fixes oid
  assumes h: "header_wf hdr" and w: "subcache_wf hdr sc"
  defines "res \<equiv> shmcb_subcache_remove hdr sc oid"
  shows "subcache_wf hdr (snd res)" "entries (snd res) = mark_first (live oid) (entries sc)"
    "fst res = (if find (live oid) (entries sc) = None then - 1 else 0)"
proof -
  note scan = scan_in_use [OF h w, of "remove_match hdr sc oid"]
  show "subcache_wf hdr (snd res)" "entries (snd res) = mark_first (live oid) (entries sc)"
    "fst res = (if find (live oid) (entries sc) = None then - 1 else 0)"
    using mark_correct [OF w] first_index_bound [of "live oid" "entries sc"] w
    by (auto simp: res_def shmcb_subcache_remove_def scan remove_match_live [OF h w] first_index_mark first_index_find
        entries_def split: option.split)
qed

lemma retrieve_correct:
  fixes oid destlen now
  assumes h: "header_wf hdr" and w: "subcache_wf hdr sc"
  defines "res \<equiv> shmcb_subcache_retrieve hdr sc oid destlen now"
  defines "hit \<equiv> (\<lambda>e. live oid e \<and> length (e_data e) \<le> destlen)"
  shows "shape (fst (snd res)) = shape hdr" "subcache_wf hdr (snd (snd res))"
    "find hit (entries sc) = None \<Longrightarrow> fst res = None \<and> snd (snd res) = sc"
    "find hit (entries sc) = Some e \<Longrightarrow> now < e_expires e \<Longrightarrow> fst res = Some (e_data e) \<and> snd (snd res) = sc"
    "find hit (entries sc) = Some e \<Longrightarrow> e_expires e \<le> now \<Longrightarrow>
       fst res = None \<and> entries (snd (snd res)) = mark_first hit (entries sc)"
proof -
  let ?d = "subcache_data_size hdr"
  note scan = scan_in_use [OF h w, of "retrieve_match hdr sc oid destlen", unfolded retrieve_match_live [OF h w], folded hit_def]
  note wd = w [unfolded subcache_wf_def] and d = header_wfD [OF h]
  have copy: "shmcb_cyclic_cton_memcpy ?d (data_area sc) (SHMCB_CYCLIC_INCREMENT (idx_data_pos i) (id_len i) ?d)
      (usub (idx_data_used i) (id_len i)) = e_data (entry_of (data_area sc) i)" if "i \<in> set (in_use sc)" for i
  proof -
    note b = in_use_bounds [OF h w that]
    have "usub (idx_data_used i) (id_len i) = idx_data_used i - id_len i" using b d by (intro usub_exact) auto
    moreover have "SHMCB_CYCLIC_INCREMENT (idx_data_pos i) (id_len i) ?d = (idx_data_pos i + id_len i) mod ?d"
      using b d by (intro cyclic_increment) auto
    ultimately show ?thesis using b d wd ring_mod [of "data_area sc" "idx_data_pos i + id_len i"]
      by (simp add: cton_memcpy entry_of_def)
  qed
  have res: "res = (case first_index hit (entries sc) of None \<Rightarrow> (None, hdr, sc)
     | Some m \<Rightarrow> if now < e_expires (entries sc ! m) then (Some (e_data (entries sc ! m)), hdr, sc)
        else (None, hdr\<lparr>stat_expiries := stat_expiries hdr + 1\<rparr>, mark_removed ((idx_pos sc + m) mod index_num hdr) sc))"
  proof (cases "first_index hit (entries sc)")
    case None
    then show ?thesis by (simp add: res_def shmcb_subcache_retrieve_def scan)
  next
    case (Some m)
    then have m: "m < idx_used sc" using first_index_bound [of hit "entries sc" m] by (simp add: entries_def)
    then have "SHMCB_INDEX sc ((idx_pos sc + m) mod index_num hdr) = in_use sc ! m"
      using wd by (simp add: SHMCB_INDEX_def in_use_def ring_nth)
    then show ?thesis using Some m copy [of "in_use sc ! m"]
      by (simp add: res_def shmcb_subcache_retrieve_def scan Let_def entries_def)
  qed
  have bound: "m < idx_used sc" if "first_index hit (entries sc) = Some m" for m
    using first_index_bound [OF that] by (simp add: entries_def)
  show "shape (fst (snd res)) = shape hdr" by (simp add: res split: option.split)
  show "subcache_wf hdr (snd (snd res))" using w mark_correct(1) [OF w bound] by (simp add: res split: option.split)
  show "find hit (entries sc) = None \<Longrightarrow> fst res = None \<and> snd (snd res) = sc"
    by (simp add: res first_index_find)
  show "find hit (entries sc) = Some e \<Longrightarrow> now < e_expires e \<Longrightarrow> fst res = Some (e_data e) \<and> snd (snd res) = sc"
    by (auto simp: res first_index_find)
  show "find hit (entries sc) = Some e \<Longrightarrow> e_expires e \<le> now \<Longrightarrow>
       fst res = None \<and> entries (snd (snd res)) = mark_first hit (entries sc)"
    using mark_correct(2) [OF w bound] by (auto simp: res first_index_find first_index_mark)
qed

end
