(* ===== verification/Socache.thy ===== *)
theory Socache
  imports Shmcb
begin

text \<open>
  The contract of the object caches that \<^verbatim>\<open>include/ap_socache.h\<close> describes, as a locale, and the
  shared-memory cache of \<open>Shmcb\<close> as an instance of it. In the locale: whatever the cache
  forgets, it never returns an object that was replaced, removed or has expired.
\<close>

section \<open>The contract of an object cache\<close>

text \<open>
  What the users of a provider (\<open>ap_socache_provider_t\<close>) rely on. \<open>stored\<close> is what the cache holds
  for an id, with the time it expires. The cache may forget an object at any operation, but
  it never holds one that was replaced or removed.
\<close>

datatype cache_op = Store string int string int | Retrieve string nat int | Remove string | Status int

locale object_cache =
  fixes inv :: "'s \<Rightarrow> bool"
    and stored :: "'s \<Rightarrow> string \<Rightarrow> (string \<times> int) option"
    and store :: "string \<Rightarrow> int \<Rightarrow> string \<Rightarrow> int \<Rightarrow> 's \<Rightarrow> apr_status \<times> 's"
    and retrieve :: "string \<Rightarrow> nat \<Rightarrow> int \<Rightarrow> 's \<Rightarrow> string option \<times> 's"
    and remove :: "string \<Rightarrow> 's \<Rightarrow> apr_status \<times> 's"
    and status :: "int \<Rightarrow> 's \<Rightarrow> 's"
    and valid :: "string \<Rightarrow> bool"
    and fits :: "string \<Rightarrow> string \<Rightarrow> bool"
  assumes store_inv: "inv s \<Longrightarrow> fits k d \<Longrightarrow> inv (snd (store k x d now s))"
    and store_self: "inv s \<Longrightarrow> fits k d \<Longrightarrow> valid k \<Longrightarrow>
      stored (snd (store k x d now s)) k = (if fst (store k x d now s) = APR_SUCCESS then Some (d, x) else None)"
    and store_invalid: "inv s \<Longrightarrow> \<not> valid k \<Longrightarrow> snd (store k x d now s) = s"
    and store_other: "inv s \<Longrightarrow> fits k d \<Longrightarrow> j \<noteq> k \<Longrightarrow> stored (snd (store k x d now s)) j \<in> {stored s j, None}"
    and retrieve_inv: "inv s \<Longrightarrow> inv (snd (retrieve k n now s))"
    and retrieve_result: "inv s \<Longrightarrow> fst (retrieve k n now s) =
      (case stored s k of None \<Rightarrow> None | Some (d, x) \<Rightarrow> if length d \<le> n \<and> now < x then Some d else None)"
    and retrieve_state: "inv s \<Longrightarrow> stored (snd (retrieve k n now s)) j \<in> {stored s j, None}"
    and remove_inv: "inv s \<Longrightarrow> inv (snd (remove k s))"
    and remove_self: "inv s \<Longrightarrow> valid k \<Longrightarrow> stored (snd (remove k s)) k = None"
    and remove_invalid: "inv s \<Longrightarrow> \<not> valid k \<Longrightarrow> snd (remove k s) = s"
    and remove_other: "inv s \<Longrightarrow> j \<noteq> k \<Longrightarrow> stored (snd (remove k s)) j = stored s j"
    and status_inv: "inv s \<Longrightarrow> inv (status now s)"
    and status_state: "inv s \<Longrightarrow> stored (status now s) j \<in> {stored s j, None}"
begin

primrec perform :: "cache_op \<Rightarrow> 's \<Rightarrow> 's" where
  "perform (Store k x d now) s = snd (store k x d now s)"
| "perform (Retrieve k n now) s = snd (retrieve k n now s)"
| "perform (Remove k) s = snd (remove k s)"
| "perform (Status now) s = status now s"

primrec op_fits :: "cache_op \<Rightarrow> bool" where
  "op_fits (Store k x d now) = fits k d"
| "op_fits (Retrieve k n now) = True"
| "op_fits (Remove k) = True"
| "op_fits (Status now) = True"

primrec intended :: "cache_op \<Rightarrow> (string \<Rightarrow> (string \<times> int) option) \<Rightarrow> string \<Rightarrow> (string \<times> int) option" where
  "intended (Store k x d now) m = (if valid k then m(k \<mapsto> (d, x)) else m)"
| "intended (Retrieve k n now) m = m"
| "intended (Remove k) m = (if valid k then m(k := None) else m)"
| "intended (Status now) m = m"

definition holds_part :: "(string \<Rightarrow> (string \<times> int) option) \<Rightarrow> 's \<Rightarrow> bool" where
  "holds_part m s \<longleftrightarrow> inv s \<and> (\<forall>k. stored s k \<in> {m k, None})"

lemma holds_part_forget:
  assumes "holds_part m s" "inv s'" "\<And>j. stored s' j \<in> {stored s j, None}"
  shows "holds_part m s'"
  unfolding holds_part_def
proof (intro conjI allI)
  fix k
  have "stored s k \<in> {m k, None}" using assms(1) unfolding holds_part_def by blast
  then show "stored s' k \<in> {m k, None}" using assms(3) [of k] by auto
qed (rule assms(2))

lemma perform_holds_part:
  assumes "holds_part m s" "op_fits op"
  shows "holds_part (intended op m) (perform op s)"
proof -
  have part: "stored s j \<in> {m j, None}" for j using assms(1) unfolding holds_part_def by blast
  have inv: "inv s" using assms(1) by (simp add: holds_part_def)
  show ?thesis
  proof (cases op)
    case (Store k x d now)
    have "stored (snd (store k x d now s)) j \<in> {(m(k \<mapsto> (d, x))) j, None}" if "valid k" for j
    proof (cases "j = k")
      case True
      then show ?thesis using store_self [OF inv _ that, of d x now] assms(2) by (simp add: Store)
    next
      case False
      then show ?thesis using store_other [OF inv _ False, of d x now] part [of j] assms(2) by (auto simp: Store)
    qed
    moreover have "snd (store k x d now s) = s" if "\<not> valid k"
      using assms store_invalid [OF _ that] by (simp add: holds_part_def)
    ultimately show ?thesis using assms store_inv [of s k d] by (auto simp: holds_part_def Store)
  next
    case (Retrieve k n now)
    then show ?thesis using holds_part_forget [OF assms(1) retrieve_inv [OF inv] retrieve_state [OF inv]] by simp
  next
    case (Remove k)
    have "stored (snd (remove k s)) j \<in> {(m(k := None)) j, None}" if "valid k" for j
      using assms remove_self [of s k] remove_other [of s j k] that by (cases "j = k") (auto simp: holds_part_def)
    moreover have "snd (remove k s) = s" if "\<not> valid k"
      using assms remove_invalid [OF _ that] by (simp add: holds_part_def)
    ultimately show ?thesis using assms remove_inv [of s k] by (auto simp: holds_part_def Remove)
  next
    case (Status now)
    then show ?thesis using holds_part_forget [OF assms(1) status_inv [OF inv] status_state [OF inv]] by simp
  qed
qed

lemma fold_holds_part:
  "holds_part m s \<Longrightarrow> list_all op_fits ops \<Longrightarrow> holds_part (fold intended ops m) (fold perform ops s)"
  by (induction ops arbitrary: m s) (simp_all add: perform_holds_part)

text \<open>A retrieve returns what the last store for the id has stored, if nothing removed it since.\<close>

lemma coherent:
  assumes "inv s" "stored s = (\<lambda>k. None)" "list_all op_fits ops"
    and "fst (retrieve k n now (fold perform ops s)) = Some d"
  shows "\<exists>x. fold intended ops (\<lambda>k. None) k = Some (d, x) \<and> now < x"
proof -
  have h: "holds_part (fold intended ops (\<lambda>k. None)) (fold perform ops s)"
    using assms by (intro fold_holds_part) (simp_all add: holds_part_def)
  then have "stored (fold perform ops s) k \<in> {fold intended ops (\<lambda>k. None) k, None}"
    unfolding holds_part_def by blast
  moreover obtain x where "stored (fold perform ops s) k = Some (d, x)" "now < x"
    using assms(4) h retrieve_result [of "fold perform ops s" k n now]
    by (auto simp: holds_part_def split: option.splits if_splits)
  ultimately show ?thesis by (metis insertE option.distinct(1) singletonD)
qed

text \<open>A store that succeeded is followed by a hit, until the object expires.\<close>

lemma hit_after_store:
  assumes "inv s" "fits k d" "valid k" "fst (store k x d now s) = APR_SUCCESS" "length d \<le> n" "now' < x"
  shows "fst (retrieve k n now' (snd (store k x d now s))) = Some d"
  using assms store_inv [of s k d x now] store_self [of s k d x now]
    retrieve_result [of "snd (store k x d now s)" k n now'] by simp

end

section \<open>The shared-memory cache as an object cache\<close>

definition ids :: "entry list \<Rightarrow> string list" where
  "ids es = map e_id (filter (\<lambda>e. \<not> e_removed e) es)"

definition shmcb_inv :: "shmcb \<Rightarrow> bool" where
  "shmcb_inv c \<longleftrightarrow> header_wf (header c) \<and> 0 < subcache_num (header c) \<and>
     length (subcaches c) = subcache_num (header c) \<and>
     list_all (\<lambda>sc. subcache_wf (header c) sc \<and> distinct (ids (entries sc))) (subcaches c)"

definition cached :: "shmcb \<Rightarrow> string \<Rightarrow> (string \<times> int) option" where
  "cached c oid = map_option (\<lambda>e. (e_data e, e_expires e)) (find (live oid) (entries (subcache_at c oid)))"

definition usable_id :: "string \<Rightarrow> bool" where
  "usable_id oid \<longleftrightarrow> 4 \<le> length oid"

definition object_fits :: "string \<Rightarrow> string \<Rightarrow> bool" where
  "object_fits oid dat \<longleftrightarrow> length oid + length dat < 2 ^ 32"

lemma ids_Cons [simp]: "ids [] = []" "ids (e # es) = (if e_removed e then ids es else e_id e # ids es)"
  by (simp_all add: ids_def)

lemma mem_ids: "oid \<in> set (ids es) \<longleftrightarrow> (\<exists>e\<in>set es. live oid e)"
  by (auto simp: ids_def live_def)

lemma find_live_None: "find (live oid) es = None \<longleftrightarrow> oid \<notin> set (ids es)"
  by (auto simp: find_None_iff mem_ids)

lemma find_live_unique:
  "distinct (ids es) \<Longrightarrow> e \<in> set es \<Longrightarrow> live oid e \<Longrightarrow> find (live oid) es = Some e"
  by (induction es) (auto simp: ids_def live_def split: if_splits)

lemma find_SomeD: "find P xs = Some x \<Longrightarrow> x \<in> set xs \<and> P x"
  by (auto simp: find_Some_iff)

lemma find_live_hit:
  "distinct (ids es) \<Longrightarrow> find (\<lambda>e. live oid e \<and> Q e) es =
     (case find (live oid) es of None \<Rightarrow> None | Some e \<Rightarrow> if Q e then Some e else None)"
proof (induction es)
  case (Cons e es)
  have "find (\<lambda>e. live oid e \<and> Q e) es = None" if "live oid e"
    using that Cons.prems mem_ids [of oid es] by (auto simp: find_None_iff live_def)
  then show ?case using Cons by (auto split: if_splits)
qed simp

lemma find_live_suffix:
  assumes "distinct (ids es)"
  shows "find (live oid) (drop n es) \<in> {find (live oid) es, None}"
proof (cases "find (live oid) (drop n es)")
  case (Some e)
  then have "e \<in> set es" "live oid e" by (auto dest: find_SomeD in_set_dropD)
  then show ?thesis using find_live_unique [OF assms] Some by auto
qed simp

lemma ids_drop: "distinct (ids es) \<Longrightarrow> distinct (ids (drop n es))" "set (ids (drop n es)) \<subseteq> set (ids es)"
proof -
  have "ids es = ids (take n es) @ ids (drop n es)"
    by (metis append_take_drop_id filter_append ids_def map_append)
  then show "distinct (ids es) \<Longrightarrow> distinct (ids (drop n es))" "set (ids (drop n es)) \<subseteq> set (ids es)" by auto
qed

lemma kept_drop: "\<exists>n. kept hdr len now es = drop n es"
proof -
  have room: "\<exists>n. make_room f r xs = drop n xs" for f r and xs :: "entry list"
  proof (induction xs)
    case (Cons x xs)
    then obtain n where n: "make_room f r xs = drop n xs" by blast
    show ?case
    proof (cases "sum_list (map f (x # xs)) \<le> r")
      case True
      then have "make_room f r (x # xs) = drop 0 (x # xs)" by simp
      then show ?thesis by blast
    next
      case False
      then have "make_room f r (x # xs) = drop (Suc n) (x # xs)" by (simp add: n)
      then show ?thesis by blast
    qed
  qed simp
  let ?es = "dropWhile (reclaimable now) es"
  obtain a where a: "?es = drop a es" by (metis dropWhile_eq_drop)
  obtain b where b: "(if length ?es = index_num hdr then tl ?es else ?es) = drop b ?es"
    by (metis drop_0 drop_Suc)
  obtain d where "kept hdr len now es = drop d (drop b ?es)"
    using room unfolding kept_def Let_def b by metis
  then show ?thesis by (auto simp: a)
qed

lemma mark_first_ids:
  assumes "distinct (ids es)"
  shows "distinct (ids (mark_first (\<lambda>e. live oid e \<and> Q e) es))"
    and "set (ids (mark_first (\<lambda>e. live oid e \<and> Q e) es)) \<subseteq> set (ids es)"
  using assms
proof (induction es)
  case (Cons e es)
  case 1
  then show ?case using Cons by (auto simp: ids_def live_def split: if_splits)
next
  case (Cons e es)
  case 2
  then show ?case using Cons by (auto simp: ids_def live_def split: if_splits)
qed (simp_all add: ids_def)

lemma find_mark_other:
  "j \<noteq> oid \<Longrightarrow> find (live j) (mark_first (\<lambda>e. live oid e \<and> Q e) es) = find (live j) es"
  by (induction es) (auto simp: live_def)

lemma find_mark_self:
  assumes "distinct (ids es)"
  shows "find (live oid) (mark_first (live oid) es) = None"
  using assms
proof (induction es)
  case (Cons e es)
  have "find (live oid) es = None" if "live oid e"
    using that Cons.prems mem_ids [of oid es] by (auto simp: find_None_iff live_def)
  moreover have "\<not> live oid (e\<lparr>e_removed := True\<rparr>)" by (simp add: live_def)
  ultimately show ?case using Cons by (simp split: if_splits)
qed simp

text \<open>The subcache of an id, read and written.\<close>

lemma mask_less: "0 < subcache_num hdr \<Longrightarrow> SHMCB_MASK hdr oid < subcache_num hdr"
proof -
  assume "0 < subcache_num hdr"
  moreover have "int (SHMCB_MASK hdr oid) \<le> int (subcache_num hdr - 1)"
    unfolding SHMCB_MASK_def of_nat_and_eq by (rule AND_upper2) simp_all
  ultimately show ?thesis by linarith
qed

lemma shmcb_invD:
  assumes "shmcb_inv c"
  shows "header_wf (header c)" "subcache_wf (header c) (subcache_at c oid)"
    "distinct (ids (entries (subcache_at c oid)))" "SHMCB_MASK (header c) oid < length (subcaches c)"
  using assms mask_less [of "header c" oid] by (simp_all add: shmcb_inv_def subcache_at_def list_all_length)

lemma put_subcache_inv:
  assumes "shmcb_inv c" "shape hdr = shape (header c)" "subcache_wf (header c) sc" "distinct (ids (entries sc))"
  shows "shmcb_inv (put_subcache oid hdr sc c)"
  unfolding shmcb_inv_def put_subcache_def list_all_length
proof (intro conjI allI impI)
  fix k assume k: "k < length (subcaches (c\<lparr>header := hdr, subcaches := (subcaches c)[SHMCB_MASK (header c) oid := sc]\<rparr>))"
  let ?sc = "subcaches (c\<lparr>header := hdr, subcaches := (subcaches c)[SHMCB_MASK (header c) oid := sc]\<rparr>) ! k"
  have "?sc = sc \<or> ?sc = subcaches c ! k" using k by (cases "SHMCB_MASK (header c) oid = k") simp_all
  then show "subcache_wf (header (c\<lparr>header := hdr, subcaches := (subcaches c)[SHMCB_MASK (header c) oid := sc]\<rparr>)) ?sc"
    "distinct (ids (entries ?sc))"
    using assms k by (auto simp: shmcb_inv_def list_all_length shapeD [OF assms(2)])
qed (use assms shapeD [OF assms(2)] in \<open>simp_all add: shmcb_inv_def\<close>)

lemma subcache_at_put:
  assumes "shmcb_inv c" "shape hdr = shape (header c)"
  shows "subcache_at (put_subcache oid hdr sc c) j =
    (if SHMCB_MASK (header c) j = SHMCB_MASK (header c) oid then sc else subcache_at c j)"
  using shmcb_invD(4) [OF assms(1)] shapeD(6) [OF assms(2)]
  by (simp add: subcache_at_def put_subcache_def nth_list_update)

text \<open>If an operation on the subcache of \<open>oid\<close> forgets at most, so does the cache.\<close>

lemma cached_put:
  assumes "shmcb_inv c" "shape hdr = shape (header c)"
    and "\<And>j. j \<in> J \<Longrightarrow> find (live j) (entries sc) \<in> {find (live j) (entries (subcache_at c oid)), None}"
    and "j \<in> J"
  shows "cached (put_subcache oid hdr sc c) j \<in> {cached c j, None}"
proof (cases "SHMCB_MASK (header c) j = SHMCB_MASK (header c) oid")
  case True
  then have "subcache_at c j = subcache_at c oid" by (simp add: subcache_at_def)
  then show ?thesis using assms(3) [OF assms(4)] True by (auto simp: cached_def subcache_at_put [OF assms(1,2)])
qed (simp add: cached_def subcache_at_put [OF assms(1,2)])

lemma find_append: "find P (xs @ ys) = (case find P xs of None \<Rightarrow> find P ys | Some x \<Rightarrow> Some x)"
  by (induction xs) auto

lemma mark_first_found: "find P es = Some e \<Longrightarrow> Q e \<Longrightarrow> mark_first (\<lambda>e. P e \<and> Q e) es = mark_first P es"
  by (induction es) (auto split: if_splits)

lemma remove_put:
  fixes oid
  assumes "shmcb_inv c"
  defines "sc \<equiv> snd (shmcb_subcache_remove (header c) (subcache_at c oid) oid)"
  shows "subcache_wf (header c) sc" "distinct (ids (entries sc))" "find (live oid) (entries sc) = None"
    "j \<noteq> oid \<Longrightarrow> find (live j) (entries sc) = find (live j) (entries (subcache_at c oid))"
proof -
  note D = shmcb_invD(1) [OF assms(1)] shmcb_invD(2-4) [OF assms(1), of oid]
  note r = remove_correct [OF D(1,2), of oid, folded sc_def]
  show "subcache_wf (header c) sc" by (rule r(1))
  show "distinct (ids (entries sc))" using mark_first_ids(1) [OF D(3), of oid "\<lambda>e. True"] by (simp add: r(2))
  show "find (live oid) (entries sc) = None" using find_mark_self [OF D(3)] by (simp add: r(2))
  show "j \<noteq> oid \<Longrightarrow> find (live j) (entries sc) = find (live j) (entries (subcache_at c oid))"
    using find_mark_other [of j oid "\<lambda>e. True"] by (simp add: r(2))
qed

lemma store_put:
  fixes x now oid dat
  assumes h: "header_wf hdr" and w: "subcache_wf hdr sc" and d: "distinct (ids (entries sc))"
    and none: "find (live oid) (entries sc) = None" and ne: "oid \<noteq> []" and fits: "object_fits oid dat"
  defines "res \<equiv> shmcb_subcache_store hdr sc dat oid x now"
  shows "distinct (ids (entries (snd (snd res))))"
    "find (live oid) (entries (snd (snd res))) =
       (if fst res = 0 then Some \<lparr>e_id = oid, e_data = dat, e_expires = x, e_removed = False\<rparr> else None)"
    "j \<noteq> oid \<Longrightarrow> find (live j) (entries (snd (snd res))) \<in> {find (live j) (entries sc), None}"
proof -
  note st = store_correct [OF h w ne fits [unfolded object_fits_def], of x now, folded res_def]
  let ?new = "\<lparr>e_id = oid, e_data = dat, e_expires = x, e_removed = False\<rparr>"
  have "distinct (ids (entries (snd (snd res)))) \<and>
    find (live oid) (entries (snd (snd res))) = (if fst res = 0 then Some ?new else None) \<and>
    (j \<noteq> oid \<longrightarrow> find (live j) (entries (snd (snd res))) \<in> {find (live j) (entries sc), None})"
  proof (cases "length oid + length dat > subcache_data_size hdr")
    case True
    then show ?thesis using st(3) d none by simp
  next
    case False
    then have st4: "fst res = 0" "entries (snd (snd res)) = kept hdr (length oid + length dat) now (entries sc) @ [?new]"
      using st(4) by simp_all
    obtain n where n: "kept hdr (length oid + length dat) now (entries sc) = drop n (entries sc)"
      using kept_drop by blast
    have "oid \<notin> set (ids (drop n (entries sc)))"
      using none find_live_None [of oid "entries sc"] ids_drop(2) [of n "entries sc"] by blast
    moreover from this have "find (live oid) (drop n (entries sc)) = None" by (simp add: find_live_None)
    moreover have "ids (drop n (entries sc) @ [?new]) = ids (drop n (entries sc)) @ [oid]" by (simp add: ids_def)
    moreover have "live oid ?new" "j \<noteq> oid \<Longrightarrow> \<not> live j ?new" by (simp_all add: live_def)
    ultimately show ?thesis using ids_drop(1) [OF d] find_live_suffix [OF d, of j n]
      by (auto simp: st4 n find_append split: option.split)
  qed
  then show "distinct (ids (entries (snd (snd res))))"
    "find (live oid) (entries (snd (snd res))) = (if fst res = 0 then Some ?new else None)"
    "j \<noteq> oid \<Longrightarrow> find (live j) (entries (snd (snd res))) \<in> {find (live j) (entries sc), None}" by simp_all
qed

lemma socache_store_correct:
  fixes x now oid dat
  assumes inv: "shmcb_inv c" and fits: "object_fits oid dat" and ok: "usable_id oid"
  defines "res \<equiv> socache_shmcb_store oid x dat now c"
  shows "shmcb_inv (snd res)"
    "cached (snd res) oid = (if fst res = APR_SUCCESS then Some (dat, x) else None)"
    "j \<noteq> oid \<Longrightarrow> cached (snd res) j \<in> {cached c j, None}"
proof -
  let ?rm = "shmcb_subcache_remove (header c) (subcache_at c oid) oid"
  let ?st = "shmcb_subcache_store (header c) (snd ?rm) dat oid x now"
  note D = shmcb_invD(1) [OF inv] shmcb_invD(2-4) [OF inv, of oid]
  note rp = remove_put(1-3) [OF inv, of oid] remove_put(4) [OF inv]
  have ne: "oid \<noteq> []" using ok by (auto simp: usable_id_def)
  note sp = store_put [OF D(1) rp(1,2,3) ne fits, where x = x and now = now]
  note st = store_correct [OF D(1) rp(1) ne fits [unfolded object_fits_def], of x now]
  obtain hdr where hdr: "shape hdr = shape (header c)"
    and res: "snd res = put_subcache oid hdr (snd (snd ?st)) c" "fst res = (if fst ?st = 0 then APR_SUCCESS else APR_ENOSPC)"
  proof (rule that)
    let ?h = "fst (snd ?st)"
    let ?hdr = "if fst ?st = 0 then (if fst ?rm = 0 then ?h\<lparr>stat_replaced := stat_replaced ?h + 1\<rparr>
      else ?h\<lparr>stat_stores := stat_stores ?h + 1\<rparr>) else ?h"
    show "shape ?hdr = shape (header c)" using st(1) by simp
    show "snd res = put_subcache oid ?hdr (snd (snd ?st)) c" "fst res = (if fst ?st = 0 then APR_SUCCESS else APR_ENOSPC)"
      using ok by (simp_all add: res_def socache_shmcb_store_def usable_id_def split_beta)
  qed
  show "shmcb_inv (snd res)" unfolding res by (rule put_subcache_inv [OF inv hdr st(2) sp(1)])
  show "cached (snd res) oid = (if fst res = APR_SUCCESS then Some (dat, x) else None)"
    by (simp add: res cached_def subcache_at_put [OF inv hdr] sp(2))
  assume j: "j \<noteq> oid"
  show "cached (snd res) j \<in> {cached c j, None}"
    unfolding res by (rule cached_put [OF inv hdr, of "{j. j \<noteq> oid}"]) (use sp(3) rp(4) j in auto)
qed

lemma socache_retrieve_correct:
  fixes n now oid
  assumes inv: "shmcb_inv c"
  defines "res \<equiv> socache_shmcb_retrieve oid n now c"
  shows "shmcb_inv (snd res)"
    "fst res = (case cached c oid of None \<Rightarrow> None | Some (d, x) \<Rightarrow> if length d \<le> n \<and> now < x then Some d else None)"
    "cached (snd res) j \<in> {cached c j, None}"
proof -
  let ?sc = "subcache_at c oid"
  let ?rt = "shmcb_subcache_retrieve (header c) ?sc oid n now"
  let ?hit = "\<lambda>e. live oid e \<and> length (e_data e) \<le> n"
  note D = shmcb_invD(1) [OF inv] shmcb_invD(2-4) [OF inv, of oid]
  note rt = retrieve_correct [OF D(1,2), where oid = oid and destlen = n and now = now]
  obtain hdr where hdr: "shape hdr = shape (header c)"
    and res: "snd res = put_subcache oid hdr (snd (snd ?rt)) c" "fst res = fst ?rt"
  proof (rule that)
    let ?h = "fst (snd ?rt)"
    let ?hdr = "if fst ?rt \<noteq> None then ?h\<lparr>stat_retrieves_hit := stat_retrieves_hit ?h + 1\<rparr>
      else ?h\<lparr>stat_retrieves_miss := stat_retrieves_miss ?h + 1\<rparr>"
    show "shape ?hdr = shape (header c)" using rt(1) by simp
    show "snd res = put_subcache oid ?hdr (snd (snd ?rt)) c" "fst res = fst ?rt"
      by (simp_all add: res_def socache_shmcb_retrieve_def split_beta)
  qed
  have find: "find ?hit (entries ?sc) = (case find (live oid) (entries ?sc) of None \<Rightarrow> None
      | Some e \<Rightarrow> if length (e_data e) \<le> n then Some e else None)" by (rule find_live_hit [OF D(3)])
  have ents: "snd (snd ?rt) = ?sc \<or> entries (snd (snd ?rt)) = mark_first ?hit (entries ?sc)"
    using rt(3-5) by (cases "find ?hit (entries ?sc)") (auto simp: not_less [symmetric])
  have dist: "distinct (ids (entries (snd (snd ?rt))))"
    using ents D(3) mark_first_ids(1) [OF D(3), of oid "\<lambda>e. length (e_data e) \<le> n"] by auto
  show "shmcb_inv (snd res)" unfolding res by (rule put_subcache_inv [OF inv hdr rt(2) dist])
  show "fst res = (case cached c oid of None \<Rightarrow> None | Some (d, x) \<Rightarrow> if length d \<le> n \<and> now < x then Some d else None)"
  proof -
    have "fst ?rt = (case find ?hit (entries ?sc) of None \<Rightarrow> None
        | Some e \<Rightarrow> if now < e_expires e then Some (e_data e) else None)"
      using rt(3-5) by (cases "find ?hit (entries ?sc)") (auto simp: not_less)
    then show ?thesis by (simp add: res cached_def find split: option.split)
  qed
  have "find (live j) (entries (snd (snd ?rt))) \<in> {find (live j) (entries ?sc), None}" for j
  proof (cases "j = oid \<and> snd (snd ?rt) \<noteq> ?sc")
    case True
    then have hit: "find ?hit (entries ?sc) \<noteq> None" using rt(3) by blast
    then obtain e where e: "find (live oid) (entries ?sc) = Some e" "length (e_data e) \<le> n"
      using find by (auto split: option.splits if_splits)
    have "mark_first ?hit (entries ?sc) = mark_first (live oid) (entries ?sc)"
      using mark_first_found [where Q = "\<lambda>e. length (e_data e) \<le> n", OF e] .
    then show ?thesis using True ents find_mark_self [OF D(3)] by simp
  next
    case False
    then show ?thesis using ents find_mark_other [of j oid "\<lambda>e. length (e_data e) \<le> n"] by auto
  qed
  then show "cached (snd res) j \<in> {cached c j, None}"
    unfolding res by (intro cached_put [OF inv hdr, of UNIV]) simp_all
qed

lemma socache_remove_correct:
  fixes oid
  assumes inv: "shmcb_inv c" and ok: "usable_id oid"
  defines "res \<equiv> socache_shmcb_remove oid c"
  shows "shmcb_inv (snd res)" "cached (snd res) oid = None" "j \<noteq> oid \<Longrightarrow> cached (snd res) j = cached c j"
proof -
  let ?rm = "shmcb_subcache_remove (header c) (subcache_at c oid) oid" and ?h = "header c"
  note rp = remove_put(1-3) [OF inv, of oid] remove_put(4) [OF inv, of j oid]
  obtain hdr where hdr: "shape hdr = shape (header c)" and res: "snd res = put_subcache oid hdr (snd ?rm) c"
  proof (rule that)
    let ?hdr = "if fst ?rm = 0 then ?h\<lparr>stat_removes_hit := stat_removes_hit ?h + 1\<rparr>
      else ?h\<lparr>stat_removes_miss := stat_removes_miss ?h + 1\<rparr>"
    show "shape ?hdr = shape (header c)" by simp
    show "snd res = put_subcache oid ?hdr (snd ?rm) c"
      using ok by (simp add: res_def socache_shmcb_remove_def usable_id_def split_beta Let_def)
  qed
  show "shmcb_inv (snd res)" unfolding res by (rule put_subcache_inv [OF inv hdr rp(1,2)])
  show "cached (snd res) oid = None" by (simp add: res cached_def subcache_at_put [OF inv hdr] rp(3))
  assume "j \<noteq> oid"
  then show "cached (snd res) j = cached c j"
    using rp(4) subcache_at_put [OF inv hdr, of oid "snd ?rm" j]
    by (cases "SHMCB_MASK (header c) j = SHMCB_MASK (header c) oid") (auto simp: res cached_def subcache_at_def)
qed

lemma expire_subcaches_correct:
  fixes now
  assumes "header_wf hdr" "list_all (\<lambda>sc. subcache_wf hdr sc \<and> distinct (ids (entries sc))) scs"
  defines "res \<equiv> expire_subcaches now hdr scs"
  shows "shape (fst res) = shape hdr \<and> length (snd res) = length scs \<and>
    (\<forall>k < length scs. subcache_wf hdr (snd res ! k) \<and>
       entries (snd res ! k) = dropWhile (reclaimable now) (entries (scs ! k)))"
  using assms(1,2) unfolding res_def
proof (induction scs arbitrary: hdr)
  case (Cons sc scs)
  define h1 where "h1 = fst (shmcb_subcache_expire hdr sc now)"
  have s: "shape h1 = shape hdr" by (simp add: h1_def)
  have "list_all (\<lambda>sc. subcache_wf h1 sc \<and> distinct (ids (entries sc))) scs" "header_wf h1"
    using Cons.prems by (simp_all add: shapeD [OF s])
  note IH = Cons.IH [OF this(2,1)]
  show ?case
    using IH Cons.prems expire_correct(1) [OF Cons.prems(1), of sc now] entries_expire [OF Cons.prems(1), of sc now]
    by (auto simp: split_beta h1_def [symmetric] shapeD [OF s] s nth_Cons' less_Suc_eq_0_disj)
qed simp

lemma socache_status_correct:
  fixes now
  assumes inv: "shmcb_inv c"
  defines "c' \<equiv> snd (snd (socache_shmcb_status now c))"
  shows "shmcb_inv c'" "cached c' j \<in> {cached c j, None}"
proof -
  let ?ex = "expire_subcaches now (header c) (subcaches c)"
  have c': "header c' = fst ?ex" "subcaches c' = snd ?ex" by (simp_all add: c'_def socache_shmcb_status_def split_beta)
  have ex: "shape (fst ?ex) = shape (header c)" "length (snd ?ex) = length (subcaches c)"
    "\<And>k. k < length (subcaches c) \<Longrightarrow> subcache_wf (header c) (snd ?ex ! k) \<and>
       entries (snd ?ex ! k) = dropWhile (reclaimable now) (entries (subcaches c ! k))"
    using expire_subcaches_correct [of "header c" "subcaches c" now] inv by (simp_all add: shmcb_inv_def)
  have d: "distinct (ids (dropWhile P es))" if "distinct (ids es)" for P es
    using ids_drop(1) [OF that] by (metis dropWhile_eq_drop)
  show "shmcb_inv c'" using inv ex d
    by (simp add: shmcb_inv_def c' shapeD [OF ex(1)] list_all_length)
  let ?es = "entries (subcache_at c j)"
  have "entries (subcache_at c' j) = dropWhile (reclaimable now) ?es"
    using ex(3) [OF shmcb_invD(4) [OF inv, of j]] by (simp add: subcache_at_def c' shapeD(6) [OF ex(1)])
  then have "entries (subcache_at c' j) = drop (length (takeWhile (reclaimable now) ?es)) ?es"
    by (simp only: dropWhile_eq_drop)
  then have "find (live j) (entries (subcache_at c' j)) \<in> {find (live j) ?es, None}"
    using find_live_suffix [OF shmcb_invD(3) [OF inv, of j]] by (simp only:)
  then show "cached c' j \<in> {cached c j, None}" by (auto simp: cached_def)
qed

definition shmcb_status :: "int \<Rightarrow> shmcb \<Rightarrow> shmcb" where
  "shmcb_status now c = snd (snd (socache_shmcb_status now c))"

lemma unusable:
  assumes "\<not> usable_id k"
  shows "socache_shmcb_store k x d now s = (APR_EINVAL, s)" "socache_shmcb_remove k s = (APR_EINVAL, s)"
  using assms by (simp_all add: socache_shmcb_store_def socache_shmcb_remove_def usable_id_def)

interpretation shm: object_cache shmcb_inv cached socache_shmcb_store socache_shmcb_retrieve
  socache_shmcb_remove shmcb_status usable_id object_fits
proof
  fix s k d x now j and n :: nat
  assume inv: "shmcb_inv s"
  note store = socache_store_correct [OF inv] and remove = socache_remove_correct [OF inv]
  show "shmcb_inv (snd (socache_shmcb_store k x d now s))" if "object_fits k d"
    using inv that store(1) by (cases "usable_id k") (simp_all add: unusable)
  show "cached (snd (socache_shmcb_store k x d now s)) k =
      (if fst (socache_shmcb_store k x d now s) = APR_SUCCESS then Some (d, x) else None)"
    if "object_fits k d" "usable_id k" by (rule store(2) [OF that])
  show "snd (socache_shmcb_store k x d now s) = s" if "\<not> usable_id k" using that by (simp add: unusable)
  show "cached (snd (socache_shmcb_store k x d now s)) j \<in> {cached s j, None}" if "object_fits k d" "j \<noteq> k"
    using store(3) [OF that(1) _ that(2)] by (cases "usable_id k") (simp_all add: unusable)
  show "shmcb_inv (snd (socache_shmcb_retrieve k n now s))" by (rule socache_retrieve_correct(1) [OF inv])
  show "fst (socache_shmcb_retrieve k n now s) =
      (case cached s k of None \<Rightarrow> None | Some (d, x) \<Rightarrow> if length d \<le> n \<and> now < x then Some d else None)"
    by (rule socache_retrieve_correct(2) [OF inv])
  show "cached (snd (socache_shmcb_retrieve k n now s)) j \<in> {cached s j, None}"
    by (rule socache_retrieve_correct(3) [OF inv])
  show "shmcb_inv (snd (socache_shmcb_remove k s))"
    using inv remove(1) by (cases "usable_id k") (simp_all add: unusable)
  show "cached (snd (socache_shmcb_remove k s)) k = None" if "usable_id k" by (rule remove(2) [OF that])
  show "snd (socache_shmcb_remove k s) = s" if "\<not> usable_id k" using that by (simp add: unusable)
  show "cached (snd (socache_shmcb_remove k s)) j = cached s j" if "j \<noteq> k"
    using remove(3) [OF _ that] by (cases "usable_id k") (simp_all add: unusable)
  show "shmcb_inv (shmcb_status now s)" unfolding shmcb_status_def by (rule socache_status_correct(1) [OF inv])
  show "cached (shmcb_status now s) j \<in> {cached s j, None}"
    unfolding shmcb_status_def by (rule socache_status_correct(2) [OF inv])
qed

section \<open>Initialisation\<close>

definition subcache_counts :: "nat set" where
  "subcache_counts = {256, 128, 64, 32, 16, 8, 4, 2, 1}"

lemma halve_count: "n \<in> subcache_counts \<Longrightarrow> n \<noteq> 1 \<Longrightarrow> n div 2 \<in> subcache_counts \<and> 2 * (n div 2) = n \<and> n div 2 \<noteq> 256 \<and> 0 < n"
  by (auto simp: subcache_counts_def)

lemma choose_subcaches_step:
  "n \<noteq> 0 \<Longrightarrow> choose_subcaches num_idx n =
     (if num_idx div n < 2 * n then choose_subcaches num_idx (n div 2) else Some n)"
  "choose_subcaches num_idx 0 = None"
  by (subst choose_subcaches.simps, simp)+

lemma choose_subcaches_Some:
  "choose_subcaches num_idx n = Some k \<Longrightarrow> n \<in> subcache_counts \<Longrightarrow> n = 256 \<or> num_idx div (2 * n) < 4 * n \<Longrightarrow>
     k \<in> subcache_counts \<and> 2 * k \<le> num_idx div k \<and> (k = 256 \<or> num_idx div (2 * k) < 4 * k)"
proof (induction num_idx n rule: choose_subcaches.induct)
  case (1 num_idx n)
  have n: "n \<noteq> 0" using 1(3) by (auto simp: subcache_counts_def)
  show ?case
  proof (cases "num_idx div n < 2 * n")
    case True
    then have r: "choose_subcaches num_idx (n div 2) = Some k" using 1(2) n by (simp add: choose_subcaches_step)
    then have "n \<noteq> 1" by (auto simp: choose_subcaches_step)
    then show ?thesis using 1(1) [OF n True r] halve_count [OF 1(3)] True by simp
  next
    case False
    then have "k = n" using 1(2) n by (simp add: choose_subcaches_step)
    then show ?thesis using False 1(3,4) by simp
  qed
qed

lemma choose_subcaches_None:
  "n \<in> subcache_counts \<Longrightarrow> choose_subcaches num_idx n = None \<longleftrightarrow> num_idx < 2"
proof (induction num_idx n rule: choose_subcaches.induct)
  case (1 num_idx n)
  have n: "n \<noteq> 0" using 1(2) by (auto simp: subcache_counts_def)
  show ?case
  proof (cases "n = 1")
    case True
    then show ?thesis by (simp add: choose_subcaches_step)
  next
    case False
    note h = halve_count [OF 1(2) False]
    have "2 \<le> num_idx" if "\<not> num_idx div n < 2 * n"
      using that h div_le_dividend [of num_idx n] by linarith
    then show ?thesis using 1(1) [OF n] h n by (auto simp: choose_subcaches_step)
  qed
qed

lemma align_down:
  assumes "q + 8 < 2 ^ 32"
  shows "(if q \<noteq> APR_ALIGN_DEFAULT q then usub (APR_ALIGN_DEFAULT q) (APR_ALIGN_DEFAULT 1) else q) = q div 8 * 8"
proof -
  obtain m r where q: "q = 8 * m + r" "r < 8" by (metis mod_less_divisor mult_div_mod_eq zero_less_numeral)
  have down: "q div 8 * 8 = 8 * m" using q by simp
  show ?thesis
  proof (cases "r = 0")
    case True
    then show ?thesis using q by (simp add: APR_ALIGN_DEFAULT_def)
  next
    case False
    have "(q + 7) div 8 = m + 1" by (rule div_nat_eqI) (use q False in simp_all)
    moreover have "usub (8 + m * 8) 8 = m * 8" using assms q by (subst usub_exact) simp_all
    ultimately show ?thesis using q False down by (simp add: APR_ALIGN_DEFAULT_def add.commute)
  qed
qed

text \<open>
  The layout for the sizes of objects that the hints allow: the arrays of a subcache fit into it, the
  subcaches fit into the segment behind the header, and the cyclic arithmetic cannot overflow.
\<close>

lemma layout_correct:
  assumes seg: "segsize + 8 < 2 ^ 32" and avg: "48 \<le> avg" "avg \<le> 2 ^ 28"
    and k: "choose_subcaches (segsize div avg) 256 = Some k" and five: "5 \<le> segsize div avg div k"
  defines "hdr \<equiv> shmcb_layout segsize k (segsize div avg div k)"
  shows "header_wf hdr" "subcache_num hdr = k" "index_num hdr = segsize div avg div k"
    "subcache_data_offset hdr = ALIGNED_SUBCACHE_SIZE + index_num hdr * ALIGNED_INDEX_SIZE"
    "subcache_data_offset hdr + subcache_data_size hdr = subcache_size hdr"
    "k * subcache_size hdr \<le> segsize" "8 dvd subcache_size hdr"
proof -
  let ?n = "segsize div avg div k" and ?q = "segsize div k"
  have kc: "k \<in> subcache_counts" "k = 256 \<or> segsize div avg div (2 * k) < 4 * k"
    using choose_subcaches_Some [OF k] by (auto simp: subcache_counts_def)
  have q: "?q \<le> segsize" "k * ?q \<le> segsize" by (rule div_le_dividend) simp
  have n: "?n * 48 \<le> ?q"
  proof -
    have "?n = ?q div avg" by (simp add: div_mult2_eq [symmetric] mult.commute)
    then have "?n * avg \<le> ?q" by simp
    then show ?thesis using avg(1) by (meson le_trans mult_le_mono2)
  qed
  have al: "ALIGNED_SUBCACHE_SIZE = 16" "ALIGNED_INDEX_SIZE = 24"
    by (simp_all add: ALIGNED_SUBCACHE_SIZE_def ALIGNED_INDEX_SIZE_def APR_ALIGN_DEFAULT_def)
  have off: "16 + ?n * 24 < ?q div 8 * 8" proof -
    have "?q div 8 * 8 + ?q mod 8 = ?q" "?q mod 8 < 8" by simp_all
    then show ?thesis using n five by linarith
  qed
  have q31: "?q \<le> 2 ^ 31"
  proof (cases "k = 1")
    case True
    then have "segsize div avg < 8" using kc(2) by simp
    then have "segsize < 8 * avg" using avg(1) by (simp add: div_less_iff_less_mult)
    then show ?thesis using avg(2) True by simp
  next
    case False
    then have "2 \<le> k" using kc(1) by (auto simp: subcache_counts_def)
    then have "?q \<le> segsize div 2" by (rule div_le_mono2 [rotated]) simp
    then show ?thesis using seg by simp
  qed
  have lt: "?q mod 2 ^ 32 = ?q" "(16 + ?n * 24) mod 2 ^ 32 = 16 + ?n * 24" "?q + 8 < 2 ^ 32"
    using q q31 off seg by (auto intro!: mod_less)
  have size: "subcache_size hdr = ?q div 8 * 8" "subcache_data_offset hdr = 16 + ?n * 24"
    unfolding hdr_def shmcb_layout_def Let_def al lt(1,2) by (simp_all add: align_down [OF lt(3)])
  have data: "subcache_data_size hdr = ?q div 8 * 8 - (16 + ?n * 24)"
  proof -
    have "subcache_data_size hdr = usub (?q div 8 * 8) (16 + ?n * 24)"
      unfolding hdr_def shmcb_layout_def Let_def al lt(1,2) by (simp add: align_down [OF lt(3)])
    also have "\<dots> = ?q div 8 * 8 - (16 + ?n * 24)" using off lt(3) by (intro usub_exact) auto
    finally show ?thesis .
  qed
  show num: "subcache_num hdr = k" "index_num hdr = ?n" by (simp_all add: hdr_def shmcb_layout_def Let_def)
  show "header_wf hdr" using off q31 five n unfolding header_wf_def data num by auto
  show "subcache_data_offset hdr = ALIGNED_SUBCACHE_SIZE + index_num hdr * ALIGNED_INDEX_SIZE"
    "subcache_data_offset hdr + subcache_data_size hdr = subcache_size hdr" "8 dvd subcache_size hdr"
    using off by (simp_all add: size data num al)
  have "k * (?q div 8 * 8) \<le> k * ?q" by simp
  then show "k * subcache_size hdr \<le> segsize" using q(2) unfolding size by linarith
qed

text \<open>The average size of an object with its id, by the hints.\<close>

definition hinted_size :: "shmcb_hints option \<Rightarrow> nat" where
  "hinted_size hints =
     (case hints of None \<Rightarrow> 180
      | Some h \<Rightarrow> (if avg_obj_size h \<noteq> 0 then avg_obj_size h else 150) +
                 (if avg_id_len h \<noteq> 0 then avg_id_len h else 30))"

lemma init_unfold:
  assumes "440 \<le> shm" "shm < 2 ^ 32" "48 \<le> hinted_size hints"
  shows "socache_shmcb_init shm hints ji jb =
    (let segsize = shm - 88; num = segsize div hinted_size hints
     in case choose_subcaches num 256 of None \<Rightarrow> None
        | Some k \<Rightarrow>
            if num div k < 5 then Some (Inl APR_ENOSPC)
            else Some (Inr \<lparr>header = shmcb_layout segsize k (num div k),
                   subcaches = replicate k (empty_subcache (replicate (num div k) ji)
                     (replicate (subcache_data_size (shmcb_layout segsize k (num div k))) jb))\<rparr>))"
proof -
  have "(shm - 88) div hinted_size hints \<le> shm - 88" by (rule div_le_dividend)
  then have "(shm - 88) div hinted_size hints < 2 ^ 32" using assms(2) by linarith
  then have m: "(shm - 88) div hinted_size hints mod 2 ^ 32 = (shm - 88) div hinted_size hints" by (rule mod_less)
  have h: "ALIGNED_HEADER_SIZE = 88" by (simp add: ALIGNED_HEADER_SIZE_def APR_ALIGN_DEFAULT_def)
  have sz: "(case hints of None \<Rightarrow> 150 | Some h \<Rightarrow> if avg_obj_size h \<noteq> 0 then avg_obj_size h else 150) +
      (case hints of None \<Rightarrow> 30 | Some h \<Rightarrow> if avg_id_len h \<noteq> 0 then avg_id_len h else 30) = hinted_size hints"
    by (simp add: hinted_size_def split: option.split)
  have "\<not> shm < 5 * 88" using assms(1) by simp
  then show ?thesis unfolding socache_shmcb_init_def h Let_def sz m by (simp cong: option.case_cong)
qed

lemma init_correct:
  assumes shm: "440 \<le> shm" "shm < 2 ^ 32" and avg: "48 \<le> hinted_size hints" "hinted_size hints \<le> 2 ^ 28"
    and init: "socache_shmcb_init shm hints ji jb = Some (Inr c)"
  shows "shmcb_inv c" "cached c = (\<lambda>oid. None)"
    "ALIGNED_HEADER_SIZE + subcache_num (header c) * subcache_size (header c) \<le> shm"
    "ALIGNED_SUBCACHE_SIZE + index_num (header c) * ALIGNED_INDEX_SIZE + subcache_data_size (header c)
       = subcache_size (header c)"
proof -
  let ?seg = "shm - 88" and ?num = "(shm - 88) div hinted_size hints"
  obtain k where k: "choose_subcaches ?num 256 = Some k" and five: "5 \<le> ?num div k"
    and c: "c = \<lparr>header = shmcb_layout ?seg k (?num div k), subcaches = replicate k (empty_subcache (replicate (?num div k) ji)
                     (replicate (subcache_data_size (shmcb_layout ?seg k (?num div k))) jb))\<rparr>"
    using init unfolding init_unfold [OF shm avg(1)] Let_def
    by (auto split: option.splits if_splits)
  have "?seg + 8 < 2 ^ 32" using shm by simp
  note lay = layout_correct [OF this avg k five]
  have k0: "0 < k" using choose_subcaches_Some [OF k] by (auto simp: subcache_counts_def)
  have "subcache_wf hdr (empty_subcache (replicate (index_num hdr) ji) (replicate (subcache_data_size hdr) jb))"
    if "header_wf hdr" for hdr
    using that by (simp add: subcache_wf_def empty_subcache_def in_use_def header_wf_def)
  note wf = this [OF lay(1), unfolded lay(3)]
  have e: "entries (empty_subcache a b) = []" for a b by (simp add: entries_def in_use_def empty_subcache_def)
  with wf show inv: "shmcb_inv c"
    using lay(1-3) k0 unfolding c shmcb_inv_def by (auto simp: list_all_iff dest!: in_set_replicate [THEN iffD1])
  show "cached c = (\<lambda>oid. None)"
  proof
    fix oid
    have "subcache_at c oid \<in> set (subcaches c)" using shmcb_invD(4) [OF inv, of oid] by (simp add: subcache_at_def)
    then have "entries (subcache_at c oid) = []" by (auto simp: c e dest!: in_set_replicate [THEN iffD1])
    then show "cached c oid = None" by (simp add: cached_def)
  qed
  have h: "ALIGNED_HEADER_SIZE = 88" by (simp add: ALIGNED_HEADER_SIZE_def APR_ALIGN_DEFAULT_def)
  show "ALIGNED_HEADER_SIZE + subcache_num (header c) * subcache_size (header c) \<le> shm"
    using lay(2,6) shm by (simp add: c h)
  show "ALIGNED_SUBCACHE_SIZE + index_num (header c) * ALIGNED_INDEX_SIZE + subcache_data_size (header c)
       = subcache_size (header c)"
    using lay(4,5) by (simp add: c)
qed

section \<open>Properties\<close>

text \<open>
  C11: Every operation on a subcache keeps its invariant (the index queue and the data ring stay within
  their arrays, the objects lie one behind the other and fill exactly the used part) and does to the
  list of entries what it should: expiry drops the front entries that are removed or expired;
  store refuses an object larger than the data area and otherwise appends it after dropping, from the
  front, just what is needed to make room; retrieve returns the data of the first entry that is not removed, has
  the id and fits, and marks it as removed if it has expired; remove marks the entry.
\<close>

theorem shmcb_subcache_refines:
  fixes oid :: string
  assumes "header_wf hdr" "subcache_wf hdr sc" "oid \<noteq> []" "object_fits oid dat"
  shows
    "(let (hdr', sc') = shmcb_subcache_expire hdr sc now
      in subcache_wf hdr' sc' \<and> entries sc' = dropWhile (reclaimable now) (entries sc)) \<and>
     (let (rv, hdr', sc') = shmcb_subcache_store hdr sc dat oid expiry now; len = length oid + length dat
      in subcache_wf hdr' sc' \<and>
         (if len > subcache_data_size hdr then rv = - 1 \<and> sc' = sc
          else rv = 0 \<and> entries sc' = kept hdr len now (entries sc) @
             [\<lparr>e_id = oid, e_data = dat, e_expires = expiry, e_removed = False\<rparr>])) \<and>
     (let (rv, hdr', sc') = shmcb_subcache_retrieve hdr sc oid destlen now;
          hit = (\<lambda>e. live oid e \<and> length (e_data e) \<le> destlen)
      in subcache_wf hdr' sc' \<and>
         (case find hit (entries sc) of None \<Rightarrow> rv = None \<and> sc' = sc
          | Some e \<Rightarrow> if now < e_expires e then rv = Some (e_data e) \<and> sc' = sc
                     else rv = None \<and> entries sc' = mark_first hit (entries sc))) \<and>
     (let (rv, sc') = shmcb_subcache_remove hdr sc oid
      in subcache_wf hdr sc' \<and> entries sc' = mark_first (live oid) (entries sc) \<and>
         (rv = 0 \<longleftrightarrow> find (live oid) (entries sc) \<noteq> None))"
proof (intro conjI)
  note store = store_correct [OF assms(1-3) assms(4) [unfolded object_fits_def], of expiry now]
  note retrieve = retrieve_correct [OF assms(1,2), where oid = oid and destlen = destlen and now = now]
  show "let (hdr', sc') = shmcb_subcache_expire hdr sc now
      in subcache_wf hdr' sc' \<and> entries sc' = dropWhile (reclaimable now) (entries sc)"
    using expire_correct(1) [OF assms(1,2)] entries_expire [OF assms(1,2)]
    by (simp add: split_beta shapeD(5) [OF shape_expire])
  show "let (rv, hdr', sc') = shmcb_subcache_store hdr sc dat oid expiry now; len = length oid + length dat
      in subcache_wf hdr' sc' \<and>
         (if len > subcache_data_size hdr then rv = - 1 \<and> sc' = sc
          else rv = 0 \<and> entries sc' = kept hdr len now (entries sc) @
             [\<lparr>e_id = oid, e_data = dat, e_expires = expiry, e_removed = False\<rparr>])"
    using store by (simp add: split_beta Let_def shapeD(5) [OF store(1)])
  show "let (rv, hdr', sc') = shmcb_subcache_retrieve hdr sc oid destlen now;
          hit = (\<lambda>e. live oid e \<and> length (e_data e) \<le> destlen)
      in subcache_wf hdr' sc' \<and>
         (case find hit (entries sc) of None \<Rightarrow> rv = None \<and> sc' = sc
          | Some e \<Rightarrow> if now < e_expires e then rv = Some (e_data e) \<and> sc' = sc
                     else rv = None \<and> entries sc' = mark_first hit (entries sc))"
    using retrieve(2-5) by (simp add: split_beta Let_def shapeD(5) [OF retrieve(1)] not_less split: option.split)
  show "let (rv, sc') = shmcb_subcache_remove hdr sc oid
      in subcache_wf hdr sc' \<and> entries sc' = mark_first (live oid) (entries sc) \<and>
         (rv = 0 \<longleftrightarrow> find (live oid) (entries sc) \<noteq> None)"
    using remove_correct [OF assms(1,2), of oid] by (simp add: split_beta Let_def)
qed

theorem shmcb_subcache_refines_witness:
  "entries (snd (snd (shmcb_subcache_store ((shmcb_layout 0 1 0)\<lparr>index_num := 2, subcache_data_size := 8\<rparr>)
     (empty_subcache (replicate 2 \<lparr>expires = 0, idx_data_pos = 0, idx_data_used = 0, id_len = 0, removed = False\<rparr>)
        (replicate 8 NUL)) ''xy'' ''abcd'' 100 0)))
   = [\<lparr>e_id = ''abcd'', e_data = ''xy'', e_expires = 100, e_removed = False\<rparr>]"
proof -
  let ?h = "(shmcb_layout 0 1 0)\<lparr>index_num := 2, subcache_data_size := 8\<rparr>"
  let ?sc = "empty_subcache (replicate 2 \<lparr>expires = 0, idx_data_pos = 0, idx_data_used = 0, id_len = 0, removed = False\<rparr>)
        (replicate 8 NUL)"
  have "header_wf ?h" "subcache_wf ?h ?sc" "entries ?sc = []"
    by (simp_all add: header_wf_def subcache_wf_def empty_subcache_def in_use_def entries_def)
  then show ?thesis using shmcb_subcache_refines [of ?h ?sc "''abcd''" "''xy''" 0 100 0]
    by (simp add: split_beta Let_def object_fits_def kept_def)
qed

text \<open>The operations as steps, and what a client means the cache to hold after them.\<close>

primrec shmcb_perform :: "cache_op \<Rightarrow> shmcb \<Rightarrow> shmcb" where
  "shmcb_perform (Store k x d now) c = snd (socache_shmcb_store k x d now c)"
| "shmcb_perform (Retrieve k n now) c = snd (socache_shmcb_retrieve k n now c)"
| "shmcb_perform (Remove k) c = snd (socache_shmcb_remove k c)"
| "shmcb_perform (Status now) c = snd (snd (socache_shmcb_status now c))"

primrec last_stored :: "cache_op \<Rightarrow> (string \<Rightarrow> (string \<times> int) option) \<Rightarrow> string \<Rightarrow> (string \<times> int) option" where
  "last_stored (Store k x d now) m = (if 4 \<le> length k then m(k \<mapsto> (d, x)) else m)"
| "last_stored (Retrieve k n now) m = m"
| "last_stored (Remove k) m = (if 4 \<le> length k then m(k := None) else m)"
| "last_stored (Status now) m = m"

primrec op_size_ok :: "cache_op \<Rightarrow> bool" where
  "op_size_ok (Store k x d now) \<longleftrightarrow> length k + length d < 2 ^ 32"
| "op_size_ok (Retrieve k n now) \<longleftrightarrow> True"
| "op_size_ok (Remove k) \<longleftrightarrow> True"
| "op_size_ok (Status now) \<longleftrightarrow> True"

lemma shm_steps: "shm.perform = shmcb_perform" "shm.intended = last_stored" "shm.op_fits = op_size_ok"
proof -
  have "shm.perform op c = shmcb_perform op c" "shm.intended op m = last_stored op m" "shm.op_fits op = op_size_ok op" for op c m
    by (cases op; simp add: shmcb_status_def usable_id_def object_fits_def)+
  then show "shm.perform = shmcb_perform" "shm.intended = last_stored" "shm.op_fits = op_size_ok" by (intro ext; simp)+
qed

lemma shape_subcache_ops [simp]:
  "shape (fst (snd (shmcb_subcache_store hdr sc dat oid x now))) = shape hdr"
  "shape (fst (snd (shmcb_subcache_retrieve hdr sc oid n now))) = shape hdr"
  "shape (fst (expire_subcaches now hdr scs)) = shape hdr"
proof -
  show "shape (fst (snd (shmcb_subcache_store hdr sc dat oid x now))) = shape hdr"
    by (simp add: shmcb_subcache_store_def Let_def split_beta)
  show "shape (fst (snd (shmcb_subcache_retrieve hdr sc oid n now))) = shape hdr"
    by (simp add: shmcb_subcache_retrieve_def Let_def split: option.split)
  show "shape (fst (expire_subcaches now hdr scs)) = shape hdr"
    by (induction scs arbitrary: hdr) (simp_all add: split_beta)
qed

lemma shape_perform: "shape (header (fold shmcb_perform ops c)) = shape (header c)"
proof (induction ops arbitrary: c)
  case (Cons op ops)
  have "shape (header (shmcb_perform op c)) = shape (header c)"
    by (cases op) (simp_all add: socache_shmcb_store_def socache_shmcb_retrieve_def socache_shmcb_remove_def
        socache_shmcb_status_def put_subcache_def split_beta Let_def)
  then show ?case using Cons by simp
qed simp

lemma store_succeeds:
  assumes inv: "shmcb_inv c" and "4 \<le> length oid" "length oid + length dat \<le> subcache_data_size (header c)"
  shows "object_fits oid dat" "fst (socache_shmcb_store oid x dat now c) = APR_SUCCESS"
proof -
  note D = shmcb_invD(1) [OF inv]
  show fits: "object_fits oid dat" using assms(3) header_wfD(4) [OF D] by (simp add: object_fits_def)
  have "oid \<noteq> []" using assms(2) by auto
  then show "fst (socache_shmcb_store oid x dat now c) = APR_SUCCESS"
    using store_correct(4) [OF D remove_put(1) [OF inv, of oid] _ fits [unfolded object_fits_def] assms(3), of x now] assms(2)
    by (simp add: socache_shmcb_store_def split_beta)
qed

text \<open>
  C32: The shared-memory cache is coherent. After \<open>socache_shmcb_init\<close> succeeds on a segment of less than 4 GB, for objects
  of an average size between 48 bytes and 256 MB, the subcaches lie within the segment; and after any
  sequence of stores, retrieves, removes and status requests, a retrieve that succeeds returns exactly the bytes of the last
  store for the id, if no remove came after it and it has not expired. A store of an object that fits into the data area of
  a subcache succeeds, and is followed by a hit as long as the object has not expired.
\<close>

theorem shmcb_coherent:
  assumes "440 \<le> shm" "shm < 2 ^ 32" "48 \<le> hinted_size hints" "hinted_size hints \<le> 2 ^ 28"
    and "socache_shmcb_init shm hints ji jb = Some (Inr c)"
    and "list_all op_size_ok ops"
  shows "ALIGNED_HEADER_SIZE + subcache_num (header c) * subcache_size (header c) \<le> shm \<and>
    shmcb_inv (fold shmcb_perform ops c) \<and>
    (fst (socache_shmcb_retrieve oid destlen now (fold shmcb_perform ops c)) = Some d \<longrightarrow>
       (\<exists>x. fold last_stored ops (\<lambda>k. None) oid = Some (d, x) \<and> now < x)) \<and>
    (4 \<le> length oid \<and> length oid + length dat \<le> subcache_data_size (header c) \<longrightarrow>
       (case socache_shmcb_store oid expiry dat now (fold shmcb_perform ops c) of (rv, c') \<Rightarrow>
          rv = APR_SUCCESS \<and>
          (length dat \<le> destlen \<and> now' < expiry \<longrightarrow> fst (socache_shmcb_retrieve oid destlen now' c') = Some dat)))"
proof -
  note init = init_correct [OF assms(1-5)]
  let ?c = "fold shmcb_perform ops c"
  have "shm.holds_part (fold last_stored ops (\<lambda>k. None)) ?c"
    using init assms(6) shm.fold_holds_part [of "\<lambda>k. None" c ops] by (simp add: shm.holds_part_def shm_steps)
  then have inv: "shmcb_inv ?c" by (simp add: shm.holds_part_def)
  have dsize: "subcache_data_size (header ?c) = subcache_data_size (header c)"
    by (rule shapeD(3) [OF shape_perform])
  have "fst (socache_shmcb_retrieve oid destlen now' (snd (socache_shmcb_store oid expiry dat now ?c))) = Some dat"
    if "4 \<le> length oid" "length oid + length dat \<le> subcache_data_size (header ?c)" "length dat \<le> destlen" "now' < expiry"
    using shm.hit_after_store [OF inv store_succeeds(1) [OF inv that(1,2)] _ store_succeeds(2) [OF inv that(1,2)] that(3,4)]
      that(1) by (simp add: usable_id_def)
  then show ?thesis
    using init(3) inv shm.coherent [OF init(1,2), of ops oid destlen now d, unfolded shm_steps] assms(6) store_succeeds(2) [OF inv]
    by (simp add: split_beta dsize)
qed

theorem shmcb_coherent_witness:
  "\<exists>c. socache_shmcb_init 8192 None \<lparr>expires = 0, idx_data_pos = 0, idx_data_used = 0, id_len = 0, removed = False\<rparr> NUL = Some (Inr c) \<and>
     fst (socache_shmcb_retrieve ''abcd'' 10 50 (snd (socache_shmcb_store ''abcd'' 100 ''xy'' 20
       (shmcb_perform (Store ''efgh'' 90 ''z'' 10) c)))) = Some ''xy''"
proof -
  let ?ji = "\<lparr>expires = 0, idx_data_pos = 0, idx_data_used = 0, id_len = 0, removed = False\<rparr>"
  have num: "choose_subcaches 45 256 = Some 4" by (simp add: choose_subcaches_step)
  have "socache_shmcb_init 8192 None ?ji NUL = Some (Inr \<lparr>header = shmcb_layout 8104 4 11,
      subcaches = replicate 4 (empty_subcache (replicate 11 ?ji) (replicate (subcache_data_size (shmcb_layout 8104 4 11)) NUL))\<rparr>)"
    by (subst init_unfold) (simp_all add: hinted_size_def num Let_def)
  then obtain c where init: "socache_shmcb_init 8192 None ?ji NUL = Some (Inr c)"
    and d: "subcache_data_size (header c) = 1744"
    by (simp add: shmcb_layout_def APR_ALIGN_DEFAULT_def usub_def Let_def ALIGNED_SUBCACHE_SIZE_def ALIGNED_INDEX_SIZE_def)
  then show ?thesis
    using shmcb_coherent [of 8192 None ?ji NUL c "[Store ''efgh'' 90 ''z'' 10]" "''abcd''" 10 20 _ "''xy''" 50 100] d
    by (auto simp: hinted_size_def split_beta)
qed

end
