(* ===== verification/Methods.thy ===== *)
theory Methods
  imports Prelude
begin

unbundle bit_operations_syntax

text \<open>
  The request methods of \<^verbatim>\<open>modules/http/http_protocol.c\<close>: the generated lookup of the built-in
  methods, the registry of methods by name, and the lists of methods that \<^verbatim>\<open><Limit>\<close> and
  the Allow field use, a bit mask beside an array of names.
\<close>

section \<open>The method numbers of httpd.h\<close>

abbreviation (input) M_GET :: int where "M_GET \<equiv> 0"
abbreviation (input) M_PUT :: int where "M_PUT \<equiv> 1"
abbreviation (input) M_POST :: int where "M_POST \<equiv> 2"
abbreviation (input) M_DELETE :: int where "M_DELETE \<equiv> 3"
abbreviation (input) M_CONNECT :: int where "M_CONNECT \<equiv> 4"
abbreviation (input) M_OPTIONS :: int where "M_OPTIONS \<equiv> 5"
abbreviation (input) M_TRACE :: int where "M_TRACE \<equiv> 6"
abbreviation (input) M_PATCH :: int where "M_PATCH \<equiv> 7"
abbreviation (input) M_PROPFIND :: int where "M_PROPFIND \<equiv> 8"
abbreviation (input) M_PROPPATCH :: int where "M_PROPPATCH \<equiv> 9"
abbreviation (input) M_MKCOL :: int where "M_MKCOL \<equiv> 10"
abbreviation (input) M_COPY :: int where "M_COPY \<equiv> 11"
abbreviation (input) M_MOVE :: int where "M_MOVE \<equiv> 12"
abbreviation (input) M_LOCK :: int where "M_LOCK \<equiv> 13"
abbreviation (input) M_UNLOCK :: int where "M_UNLOCK \<equiv> 14"
abbreviation (input) M_VERSION_CONTROL :: int where "M_VERSION_CONTROL \<equiv> 15"
abbreviation (input) M_CHECKOUT :: int where "M_CHECKOUT \<equiv> 16"
abbreviation (input) M_UNCHECKOUT :: int where "M_UNCHECKOUT \<equiv> 17"
abbreviation (input) M_CHECKIN :: int where "M_CHECKIN \<equiv> 18"
abbreviation (input) M_UPDATE :: int where "M_UPDATE \<equiv> 19"
abbreviation (input) M_LABEL :: int where "M_LABEL \<equiv> 20"
abbreviation (input) M_REPORT :: int where "M_REPORT \<equiv> 21"
abbreviation (input) M_MKWORKSPACE :: int where "M_MKWORKSPACE \<equiv> 22"
abbreviation (input) M_MKACTIVITY :: int where "M_MKACTIVITY \<equiv> 23"
abbreviation (input) M_BASELINE_CONTROL :: int where "M_BASELINE_CONTROL \<equiv> 24"
abbreviation (input) M_MERGE :: int where "M_MERGE \<equiv> 25"
abbreviation (input) M_INVALID :: int where "M_INVALID \<equiv> 26"
abbreviation (input) METHOD_NUMBER_FIRST :: int where "METHOD_NUMBER_FIRST \<equiv> 27"
abbreviation (input) METHOD_NUMBER_LAST :: int where "METHOD_NUMBER_LAST \<equiv> 62"
abbreviation (input) UNKNOWN_METHOD :: int where "UNKNOWN_METHOD \<equiv> - 1"

section \<open>The generated lookup\<close>

text \<open>A test for one name at the end of a path of the generated switch.\<close>

definition keyword :: "string \<Rightarrow> string \<Rightarrow> int \<Rightarrow> int" where
  "keyword method name m = (if method = name then m else UNKNOWN_METHOD)"

definition lookup_builtin_method :: "string \<Rightarrow> int" where
  "lookup_builtin_method method =
     (let len = length method
      in if len = 3 then
           (if at method 0 = CHR ''P'' then keyword method ''PUT'' M_PUT
            else if at method 0 = CHR ''G'' then keyword method ''GET'' M_GET
            else UNKNOWN_METHOD)
         else if len = 4 then
           (if at method 0 = CHR ''H'' then keyword method ''HEAD'' M_GET
            else if at method 0 = CHR ''P'' then keyword method ''POST'' M_POST
            else if at method 0 = CHR ''M'' then keyword method ''MOVE'' M_MOVE
            else if at method 0 = CHR ''L'' then keyword method ''LOCK'' M_LOCK
            else if at method 0 = CHR ''C'' then keyword method ''COPY'' M_COPY
            else UNKNOWN_METHOD)
         else if len = 5 then
           (if at method 2 = CHR ''T'' then keyword method ''PATCH'' M_PATCH
            else if at method 2 = CHR ''R'' then keyword method ''MERGE'' M_MERGE
            else if at method 2 = CHR ''C'' then keyword method ''MKCOL'' M_MKCOL
            else if at method 2 = CHR ''B'' then keyword method ''LABEL'' M_LABEL
            else if at method 2 = CHR ''A'' then keyword method ''TRACE'' M_TRACE
            else UNKNOWN_METHOD)
         else if len = 6 then
           (if at method 0 = CHR ''U'' then
              (if at method 5 = CHR ''K'' then keyword method ''UNLOCK'' M_UNLOCK
               else if at method 5 = CHR ''E'' then keyword method ''UPDATE'' M_UPDATE
               else UNKNOWN_METHOD)
            else if at method 0 = CHR ''R'' then keyword method ''REPORT'' M_REPORT
            else if at method 0 = CHR ''D'' then keyword method ''DELETE'' M_DELETE
            else UNKNOWN_METHOD)
         else if len = 7 then
           (if at method 1 = CHR ''P'' then keyword method ''OPTIONS'' M_OPTIONS
            else if at method 1 = CHR ''O'' then keyword method ''CONNECT'' M_CONNECT
            else if at method 1 = CHR ''H'' then keyword method ''CHECKIN'' M_CHECKIN
            else UNKNOWN_METHOD)
         else if len = 8 then
           (if at method 0 = CHR ''P'' then keyword method ''PROPFIND'' M_PROPFIND
            else if at method 0 = CHR ''C'' then keyword method ''CHECKOUT'' M_CHECKOUT
            else UNKNOWN_METHOD)
         else if len = 9 then keyword method ''PROPPATCH'' M_PROPPATCH
         else if len = 10 then
           (if at method 0 = CHR ''U'' then keyword method ''UNCHECKOUT'' M_UNCHECKOUT
            else if at method 0 = CHR ''M'' then keyword method ''MKACTIVITY'' M_MKACTIVITY
            else UNKNOWN_METHOD)
         else if len = 11 then keyword method ''MKWORKSPACE'' M_MKWORKSPACE
         else if len = 15 then keyword method ''VERSION-CONTROL'' M_VERSION_CONTROL
         else if len = 16 then keyword method ''BASELINE-CONTROL'' M_BASELINE_CONTROL
         else UNKNOWN_METHOD)"

section \<open>The registry\<close>

text \<open>The hash \<open>methods_registry\<close> (\<open>None\<close> is the null pointer) and the next number to be given.\<close>

record methods =
  methods_registry :: "(string \<Rightarrow> int option) option"
  cur_method_number :: int

definition standard_methods :: "(string \<times> int) list" where
  "standard_methods =
     [(''GET'', M_GET), (''HEAD'', M_GET), (''PUT'', M_PUT), (''POST'', M_POST), (''DELETE'', M_DELETE),
      (''CONNECT'', M_CONNECT), (''OPTIONS'', M_OPTIONS), (''TRACE'', M_TRACE), (''PATCH'', M_PATCH),
      (''PROPFIND'', M_PROPFIND), (''PROPPATCH'', M_PROPPATCH), (''MKCOL'', M_MKCOL), (''COPY'', M_COPY),
      (''MOVE'', M_MOVE), (''LOCK'', M_LOCK), (''UNLOCK'', M_UNLOCK), (''VERSION-CONTROL'', M_VERSION_CONTROL),
      (''CHECKOUT'', M_CHECKOUT), (''UNCHECKOUT'', M_UNCHECKOUT), (''CHECKIN'', M_CHECKIN),
      (''UPDATE'', M_UPDATE), (''LABEL'', M_LABEL), (''REPORT'', M_REPORT), (''MKWORKSPACE'', M_MKWORKSPACE),
      (''MKACTIVITY'', M_MKACTIVITY), (''BASELINE-CONTROL'', M_BASELINE_CONTROL), (''MERGE'', M_MERGE)]"

definition register_one_method :: "string \<Rightarrow> int \<Rightarrow> (string \<Rightarrow> int option) \<Rightarrow> string \<Rightarrow> int option" where
  "register_one_method methname methnum reg = reg(methname \<mapsto> methnum)"

definition ap_method_registry_destroy :: "methods \<Rightarrow> methods" where
  "ap_method_registry_destroy ms = ms\<lparr>methods_registry := None, cur_method_number := METHOD_NUMBER_FIRST\<rparr>"

definition ap_method_registry_init :: "methods \<Rightarrow> methods" where
  "ap_method_registry_init ms =
     ms\<lparr>methods_registry := Some (fold (\<lambda>(name, num). register_one_method name num) standard_methods Map.empty)\<rparr>"

definition ap_method_register :: "string option \<Rightarrow> methods \<Rightarrow> int \<times> methods" where
  "ap_method_register methname ms =
     (let ms = (if methods_registry ms = None then ap_method_registry_init ms else ms)
      in case methname of
           None \<Rightarrow> (M_INVALID, ms)
         | Some name \<Rightarrow>
             (case the (methods_registry ms) name of
                Some methnum \<Rightarrow> (methnum, ms)
              | None \<Rightarrow>
                  if cur_method_number ms > METHOD_NUMBER_LAST then (M_INVALID, ms)
                  else (cur_method_number ms,
                        ms\<lparr>methods_registry := Some (register_one_method name (cur_method_number ms) (the (methods_registry ms))),
                           cur_method_number := cur_method_number ms + 1\<rparr>)))"

definition ap_method_number_of :: "methods \<Rightarrow> string \<Rightarrow> int" where
  "ap_method_number_of ms method =
     (let which = lookup_builtin_method method
      in if which \<noteq> UNKNOWN_METHOD then which
         else case methods_registry ms of
                None \<Rightarrow> M_INVALID
              | Some reg \<Rightarrow> (case reg method of Some methnum \<Rightarrow> methnum | None \<Rightarrow> M_INVALID))"

text \<open>\<open>ap_method_name_of\<close> with the names in the order in which the hash is iterated.\<close>

definition ap_method_name_of :: "methods \<Rightarrow> string list \<Rightarrow> int \<Rightarrow> string option" where
  "ap_method_name_of ms keys methnum = find (\<lambda>key. the (methods_registry ms) key = Some methnum) keys"

section \<open>Method lists\<close>

record ap_method_list =
  method_mask :: "64 word"
  method_list :: "string list"

definition ap_make_method_list :: ap_method_list where
  "ap_make_method_list = \<lparr>method_mask = 0, method_list = []\<rparr>"

definition ap_copy_method_list :: "ap_method_list \<Rightarrow> ap_method_list \<Rightarrow> ap_method_list" where
  "ap_copy_method_list dest src =
     dest\<lparr>method_mask := method_mask src, method_list := method_list dest @ method_list src\<rparr>"

text \<open>\<open>AP_METHOD_BIT << methnum\<close>.\<close>

definition method_bit :: "int \<Rightarrow> 64 word" where
  "method_bit methnum = push_bit (nat methnum) 1"

definition ap_method_in_list :: "methods \<Rightarrow> ap_method_list \<Rightarrow> string \<Rightarrow> bool" where
  "ap_method_in_list ms l method =
     (let methnum = ap_method_number_of ms method
      in if methnum \<noteq> M_INVALID then method_mask l AND method_bit methnum \<noteq> 0
         else if method_list l = [] then False
         else method \<in> set (method_list l))"

definition ap_method_list_add :: "methods \<Rightarrow> ap_method_list \<Rightarrow> string \<Rightarrow> ap_method_list" where
  "ap_method_list_add ms l method =
     (let methnum = ap_method_number_of ms method
      in if methnum \<noteq> M_INVALID then l\<lparr>method_mask := method_mask l OR method_bit methnum\<rparr>
         else if method \<in> set (method_list l) then l
         else l\<lparr>method_list := method_list l @ [method]\<rparr>)"

definition ap_method_list_remove :: "methods \<Rightarrow> ap_method_list \<Rightarrow> string \<Rightarrow> ap_method_list" where
  "ap_method_list_remove ms l method =
     (let methnum = ap_method_number_of ms method
      in if methnum \<noteq> M_INVALID then l\<lparr>method_mask := method_mask l AND NOT (method_bit methnum)\<rparr>
         else l\<lparr>method_list := filter (\<lambda>m. m \<noteq> method) (method_list l)\<rparr>)"

definition ap_clear_method_list :: "ap_method_list \<Rightarrow> ap_method_list" where
  "ap_clear_method_list l = l\<lparr>method_mask := 0, method_list := []\<rparr>"

section \<open>The lookup and the registry agree\<close>

definition standard_number :: "string \<Rightarrow> int option" where
  "standard_number = fold (\<lambda>(name, num). register_one_method name num) standard_methods Map.empty"

lemma standard_number_eq: "standard_number m = map_of standard_methods m"
  by (simp add: standard_number_def standard_methods_def register_one_method_def)

lemma lookup_builtin_each: "list_all (\<lambda>(name, num). lookup_builtin_method name = num) standard_methods"
  by code_simp

lemma standard_facts: "list_all (\<lambda>(name, num). 0 \<le> num \<and> num < M_INVALID) standard_methods"
  by code_simp

lemma lookup_builtin_standard:
  "lookup_builtin_method m = (case standard_number m of Some n \<Rightarrow> n | None \<Rightarrow> UNKNOWN_METHOD)"
proof (cases "standard_number m")
  case (Some n)
  then have "(m, n) \<in> set standard_methods" unfolding standard_number_eq by (rule map_of_SomeD)
  then show ?thesis using lookup_builtin_each Some by (auto simp: list_all_iff)
next
  case None
  then have "m \<notin> set (map fst standard_methods)" unfolding standard_number_eq by (simp add: map_of_eq_None_iff)
  then have "lookup_builtin_method m = UNKNOWN_METHOD"
    by (simp add: lookup_builtin_method_def keyword_def standard_methods_def Let_def)
  then show ?thesis using None by simp
qed

definition registry_inv :: "methods \<Rightarrow> bool" where
  "registry_inv ms \<longleftrightarrow>
     (case methods_registry ms of
        None \<Rightarrow> cur_method_number ms = METHOD_NUMBER_FIRST
      | Some reg \<Rightarrow>
          METHOD_NUMBER_FIRST \<le> cur_method_number ms \<and> cur_method_number ms \<le> METHOD_NUMBER_LAST + 1 \<and>
          (\<forall>m n. standard_number m = Some n \<longrightarrow> reg m = Some n) \<and>
          (\<forall>m n. reg m = Some n \<longrightarrow> standard_number m = Some n \<or>
             METHOD_NUMBER_FIRST \<le> n \<and> n < cur_method_number ms \<and> (\<forall>m'. reg m' = Some n \<longrightarrow> m' = m)))"

definition registered :: "methods \<Rightarrow> string \<Rightarrow> int option" where
  "registered ms m = (case methods_registry ms of None \<Rightarrow> standard_number m | Some reg \<Rightarrow> reg m)"

lemma standard_range: "standard_number m = Some n \<Longrightarrow> 0 \<le> n \<and> n < M_INVALID"
  using standard_facts map_of_SomeD [of standard_methods m n] by (auto simp: standard_number_eq list_all_iff)

lemma registry_init_inv:
  assumes "registry_inv ms" "methods_registry ms = None"
  shows "registry_inv (ap_method_registry_init ms)" "registered (ap_method_registry_init ms) = registered ms"
  using assms standard_range
  by (auto simp: registry_inv_def ap_method_registry_init_def registered_def standard_number_def fun_eq_iff)

lemma registry_invD:
  assumes "registry_inv ms" "methods_registry ms = Some reg"
  shows "METHOD_NUMBER_FIRST \<le> cur_method_number ms" "cur_method_number ms \<le> METHOD_NUMBER_LAST + 1"
    "standard_number m = Some n \<Longrightarrow> reg m = Some n"
    "reg m = Some n \<Longrightarrow> standard_number m = Some n \<or>
       METHOD_NUMBER_FIRST \<le> n \<and> n < cur_method_number ms \<and> (\<forall>m'. reg m' = Some n \<longrightarrow> m' = m)"
  using assms(1) unfolding registry_inv_def assms(2) option.case by blast+

lemma registered_range:
  assumes "registry_inv ms" "registered ms m = Some n"
  shows "0 \<le> n \<and> n \<le> METHOD_NUMBER_LAST \<and> n \<noteq> M_INVALID"
proof (cases "standard_number m = Some n")
  case True
  then show ?thesis using standard_range by fastforce
next
  case False
  then obtain reg where reg: "methods_registry ms = Some reg" "reg m = Some n"
    using assms(2) by (auto simp: registered_def split: option.splits)
  then have "METHOD_NUMBER_FIRST \<le> n" "n < cur_method_number ms"
    using registry_invD(4) [OF assms(1) reg] False by blast+
  then show ?thesis using registry_invD(2) [OF assms(1) reg(1)] by linarith
qed

lemma number_of_registered:
  assumes "registry_inv ms"
  shows "ap_method_number_of ms m = (case registered ms m of Some n \<Rightarrow> n | None \<Rightarrow> M_INVALID)"
proof (cases "standard_number m")
  case (Some n)
  then have "registered ms m = Some n" using assms by (auto simp: registry_inv_def registered_def split: option.splits)
  then show ?thesis using Some standard_range [OF Some] by (simp add: ap_method_number_of_def lookup_builtin_standard)
next
  case None
  then show ?thesis
    by (simp add: ap_method_number_of_def lookup_builtin_standard registered_def split: option.split)
qed

lemma register_new:
  assumes "registry_inv ms" "methods_registry ms = Some reg" "reg m = None" "cur_method_number ms \<le> METHOD_NUMBER_LAST"
  shows "registry_inv (ms\<lparr>methods_registry := Some (reg(m \<mapsto> cur_method_number ms)),
    cur_method_number := cur_method_number ms + 1\<rparr>)"
proof -
  note D = registry_invD [OF assms(1,2)]
  have "standard_number m = None" using D(3) [of m] assms(3) by (cases "standard_number m") auto
  moreover have "standard_number m' \<noteq> Some (cur_method_number ms)" for m'
    using standard_range [of m' "cur_method_number ms"] assms(1,2) by (auto simp: registry_inv_def)
  ultimately have std: "standard_number m = None" "\<And>m'. standard_number m' \<noteq> Some (cur_method_number ms)" by blast+
  let ?reg = "reg(m \<mapsto> cur_method_number ms)"
  have known: "standard_number m' = Some n \<or> METHOD_NUMBER_FIRST \<le> n \<and> n < cur_method_number ms + 1 \<and>
      (\<forall>m''. ?reg m'' = Some n \<longrightarrow> m'' = m')" if "?reg m' = Some n" for m' n
  proof (cases "m' = m")
    case True
    then have n: "n = cur_method_number ms" using that by simp
    have u: "m'' = m" if "?reg m'' = Some n" for m''
    proof (rule ccontr)
      assume "m'' \<noteq> m"
      then have "reg m'' = Some n" using that by simp
      then show False using D(4) [of m'' n] std(2) [of m''] n by simp
    qed
    have "METHOD_NUMBER_FIRST \<le> n" "n < cur_method_number ms + 1" using D(1) n by simp_all
    then show ?thesis using u True by blast
  next
    case False
    then have r: "reg m' = Some n" using that by simp
    show ?thesis
    proof (cases "standard_number m' = Some n")
      case False
      then have f: "METHOD_NUMBER_FIRST \<le> n" "n < cur_method_number ms" "\<forall>m''. reg m'' = Some n \<longrightarrow> m'' = m'"
        using D(4) [OF r] by blast+
      then have "n < cur_method_number ms + 1" by linarith
      moreover have "m'' = m'" if "?reg m'' = Some n" for m''
        using that f by (cases "m'' = m") simp_all
      ultimately show ?thesis using f(1) by blast
    qed simp
  qed
  have "?reg m' = Some n" if "standard_number m' = Some n" for m' n
    using D(3) [OF that] std(1) that by auto
  then show ?thesis unfolding registry_inv_def using known D(1) assms(4) by simp
qed

lemma register_correct:
  fixes m
  assumes "registry_inv ms"
  defines "res \<equiv> ap_method_register (Some m) ms"
  shows "registry_inv (snd res)"
    "registered (snd res) = (if registered ms m = None \<and> cur_method_number ms \<le> METHOD_NUMBER_LAST
       then (registered ms)(m \<mapsto> cur_method_number ms) else registered ms)"
    "fst res = (case registered (snd res) m of Some n \<Rightarrow> n | None \<Rightarrow> M_INVALID)"
proof -
  define ms1 where "ms1 = (if methods_registry ms = None then ap_method_registry_init ms else ms)"
  have ms1: "registry_inv ms1" "registered ms1 = registered ms" "cur_method_number ms1 = cur_method_number ms"
    using assms(1) registry_init_inv [OF assms(1)] by (auto simp: ms1_def ap_method_registry_init_def)
  obtain reg where reg: "methods_registry ms1 = Some reg"
    by (cases "methods_registry ms") (auto simp: ms1_def ap_method_registry_init_def)
  have r: "registered ms = reg" using ms1(2) by (simp add: registered_def reg fun_eq_iff)
  have res: "res = (case reg m of Some n \<Rightarrow> (n, ms1)
      | None \<Rightarrow> if cur_method_number ms > METHOD_NUMBER_LAST then (M_INVALID, ms1)
        else (cur_method_number ms, ms1\<lparr>methods_registry := Some (reg(m \<mapsto> cur_method_number ms)),
          cur_method_number := cur_method_number ms + 1\<rparr>))"
    by (simp add: res_def ap_method_register_def Let_def ms1_def [symmetric] reg register_one_method_def ms1(3) split: option.split)
  have reg1: "registered ms1 = reg" using ms1(2) r by simp
  have regn: "registered (ms1\<lparr>methods_registry := Some f, cur_method_number := c\<rparr>) = f" for f c
    by (simp add: registered_def fun_eq_iff)
  show "registry_inv (snd res)"
    using ms1(1) register_new [OF ms1(1) reg, of m] by (simp add: res ms1(3) split: option.split)
  show "registered (snd res) = (if registered ms m = None \<and> cur_method_number ms \<le> METHOD_NUMBER_LAST
       then (registered ms)(m \<mapsto> cur_method_number ms) else registered ms)"
    "fst res = (case registered (snd res) m of Some n \<Rightarrow> n | None \<Rightarrow> M_INVALID)"
    by (simp_all add: res r reg1 regn split: option.split)
qed

definition registry_start :: methods where
  "registry_start = \<lparr>methods_registry = None, cur_method_number = METHOD_NUMBER_FIRST\<rparr>"

definition register_all :: "string list \<Rightarrow> methods" where
  "register_all names = fold (\<lambda>m ms. snd (ap_method_register (Some m) ms)) names registry_start"

lemma register_all_snoc: "register_all (names @ [m]) = snd (ap_method_register (Some m) (register_all names))"
  by (simp add: register_all_def)

lemma register_all_correct:
  "registry_inv (register_all names) \<and>
   (\<forall>m. standard_number m = None \<longrightarrow> m \<notin> set names \<longrightarrow> registered (register_all names) m = None) \<and>
   (length names \<le> 36 \<longrightarrow> cur_method_number (register_all names) \<le> METHOD_NUMBER_FIRST + int (length names) \<and>
     (\<forall>m \<in> set names. registered (register_all names) m \<noteq> None))"
proof (induction names rule: rev_induct)
  case Nil
  then show ?case by (simp add: register_all_def registry_start_def registry_inv_def registered_def)
next
  case (snoc m names)
  let ?ms = "register_all names"
  have inv: "registry_inv ?ms" using snoc by blast
  note rc = register_correct [OF inv, of m]
  have cur: "cur_method_number (snd (ap_method_register (Some m) ?ms)) \<le> cur_method_number ?ms + 1"
    by (auto simp: ap_method_register_def Let_def ap_method_registry_init_def split: option.splits)
  have new: "registered (snd (ap_method_register (Some m) ?ms)) m' = None"
    if "standard_number m' = None" "m' \<notin> set (names @ [m])" for m'
    using rc(2) snoc that by simp
  have all: "registered (snd (ap_method_register (Some m) ?ms)) m' \<noteq> None"
    if "length (names @ [m]) \<le> 36" "m' \<in> set (names @ [m])" for m'
  proof -
    have "cur_method_number ?ms \<le> METHOD_NUMBER_LAST" "m' = m \<or> registered ?ms m' \<noteq> None" using snoc that by auto
    then show ?thesis using rc(2) by auto
  qed
  show ?case unfolding register_all_snoc
    using rc(1) new all cur snoc by auto
qed

lemma standard_inj:
  "list_all (\<lambda>(a, n). list_all (\<lambda>(b, k). n = k \<longrightarrow> a = b \<or> n = M_GET) standard_methods) standard_methods"
  "filter (\<lambda>(a, n). n = M_GET) standard_methods = [(''GET'', M_GET), (''HEAD'', M_GET)]"
  by code_simp+

lemma same_number:
  assumes "registry_inv ms" "registered ms a = Some n" "registered ms b = Some n"
  shows "a = b \<or> {a, b} = {''GET'', ''HEAD''}"
proof (cases "standard_number a = Some n \<and> standard_number b = Some n")
  case True
  then have mem: "(a, n) \<in> set standard_methods" "(b, n) \<in> set standard_methods"
    by (auto simp: standard_number_eq dest: map_of_SomeD)
  then have "a = b \<or> n = M_GET" using standard_inj(1) by (fastforce simp: list_all_iff)
  moreover have "a \<in> {''GET'', ''HEAD''} \<and> b \<in> {''GET'', ''HEAD''}" if "n = M_GET"
  proof -
    have "(a, n) \<in> set (filter (\<lambda>(a, n). n = M_GET) standard_methods)"
      "(b, n) \<in> set (filter (\<lambda>(a, n). n = M_GET) standard_methods)" using mem that by auto
    then show ?thesis unfolding standard_inj(2) by auto
  qed
  ultimately show ?thesis by auto
next
  case False
  have le: "n < M_INVALID" if "standard_number x = Some n" for x using standard_range [OF that] by simp
  obtain reg where reg: "methods_registry ms = Some reg" "reg a = Some n" "reg b = Some n"
    using assms(2,3) False by (auto simp: registered_def split: option.splits)
  then show ?thesis
    using registry_invD(4) [OF assms(1) reg(1,2)] registry_invD(4) [OF assms(1) reg(1,3)] False by blast
qed

lemma bit_in_mask: "w AND method_bit n \<noteq> 0 \<longleftrightarrow> bit w (nat n)"
  by (simp add: method_bit_def bit_iff_and_push_bit_not_eq_0)

lemma bit_method_bit:
  assumes "0 \<le> n" "n \<le> METHOD_NUMBER_LAST" "0 \<le> k" "k \<le> METHOD_NUMBER_LAST"
  shows "bit (method_bit n) (nat k) \<longleftrightarrow> n = k"
  using assms by (auto simp: method_bit_def bit_exp_iff possible_bit_def)

lemma number_registered:
  assumes "registry_inv ms" "ap_method_number_of ms m \<noteq> M_INVALID"
  shows "registered ms m = Some (ap_method_number_of ms m)"
  using assms(2) unfolding number_of_registered [OF assms(1)] by (cases "registered ms m") simp_all

lemma same_method_number:
  assumes "registry_inv ms" "ap_method_number_of ms a = ap_method_number_of ms b" "ap_method_number_of ms a \<noteq> M_INVALID"
  shows "a = b \<or> {a, b} = {''GET'', ''HEAD''}"
proof (rule same_number [OF assms(1)])
  show "registered ms a = Some (ap_method_number_of ms a)" by (rule number_registered [OF assms(1,3)])
  show "registered ms b = Some (ap_method_number_of ms a)" unfolding assms(2) by (rule number_registered [OF assms(1)]) (use assms in simp)
qed

lemma in_list_iff:
  "ap_method_in_list ms l m \<longleftrightarrow>
     (if ap_method_number_of ms m \<noteq> M_INVALID then bit (method_mask l) (nat (ap_method_number_of ms m))
      else m \<in> set (method_list l))"
  by (simp add: ap_method_in_list_def Let_def bit_in_mask)

section \<open>Properties\<close>

text \<open>
  C33: The generated switch \<open>lookup_builtin_method\<close> finds exactly the standard methods that
  \<open>ap_method_registry_init\<close> registers, with the same numbers. After any registrations, \<open>ap_method_number_of\<close> gives a standard
  method its number, an unknown name \<open>M_INVALID\<close> and every other number to one name only; the first
  36 names all get a number, all numbers but \<open>M_INVALID\<close> are below the 63 bits of a method mask, and registering a name returns the
  number that it then has.
\<close>

theorem method_registry_correct:
  shows "(case map_of standard_methods m of Some n \<Rightarrow> lookup_builtin_method m = n | None \<Rightarrow> lookup_builtin_method m = UNKNOWN_METHOD) \<and>
    (let ms = register_all names; number = ap_method_number_of ms
     in (\<forall>n. map_of standard_methods m = Some n \<longrightarrow> number m = n) \<and>
        (map_of standard_methods m = None \<and> m \<notin> set names \<longrightarrow> number m = M_INVALID) \<and>
        (length names \<le> 36 \<and> m \<in> set names \<longrightarrow> number m \<noteq> M_INVALID) \<and>
        0 \<le> number m \<and> number m \<le> METHOD_NUMBER_LAST \<and>
        (number m = number m' \<and> number m \<noteq> M_INVALID \<longrightarrow> m = m' \<or> {m, m'} = {''GET'', ''HEAD''}) \<and>
        (case ap_method_register (Some m) ms of (n, ms') \<Rightarrow> n = ap_method_number_of ms' m))"
proof -
  define ms where "ms = register_all names"
  have inv: "registry_inv ms" using register_all_correct [of names, folded ms_def] by blast
  note num = number_of_registered [OF inv]
  have "standard_number m = Some n \<Longrightarrow> registered ms m = Some n" for n
    using inv registry_invD(3) [OF inv] by (cases "methods_registry ms") (auto simp: registered_def)
  moreover have "registered ms m = None" if "standard_number m = None" "m \<notin> set names"
    using register_all_correct [of names, folded ms_def] that by blast
  moreover have "registered ms m \<noteq> None" if "length names \<le> 36" "m \<in> set names"
    using register_all_correct [of names, folded ms_def] that by blast
  moreover have "0 \<le> ap_method_number_of ms m \<and> ap_method_number_of ms m \<le> METHOD_NUMBER_LAST"
    using registered_range [OF inv, of m] by (auto simp: num split: option.split)
  moreover have "ap_method_number_of ms m = ap_method_number_of ms m' \<Longrightarrow> ap_method_number_of ms m \<noteq> M_INVALID \<Longrightarrow>
      m = m' \<or> {m, m'} = {''GET'', ''HEAD''}"
    by (rule same_method_number [OF inv])
  moreover have "fst (ap_method_register (Some m) ms) = ap_method_number_of (snd (ap_method_register (Some m) ms)) m"
    using register_correct(1,3) [OF inv, of m] by (simp add: number_of_registered)
  moreover have "registered ms m = Some n \<Longrightarrow> n \<noteq> M_INVALID" for n using registered_range [OF inv] by blast
  ultimately show ?thesis
    by (auto simp: Let_def ms_def [symmetric] num lookup_builtin_standard standard_number_eq [symmetric] split_beta
        simp del: fun_upd_apply split: option.split)
qed

theorem method_registry_correct_witness:
  "ap_method_number_of (register_all [''MYGET'', ''PURGE'']) ''PURGE'' \<noteq> M_INVALID"
  using method_registry_correct [of "''PURGE''" "[''MYGET'', ''PURGE'']" "''GET''"] by (simp add: Let_def)

text \<open>
  A method list is a set of methods, in which GET and HEAD are the same method: whatever methods are registered, adding, removing,
  clearing and copying change membership by exactly the methods they should.
\<close>

theorem method_lists_correct:
  fixes names :: "string list" and l dest :: ap_method_list
  defines "ms \<equiv> register_all names"
  defines "same \<equiv> (\<lambda>a b. a = b \<or> {a, b} = {''GET'', ''HEAD''})"
  shows "\<not> ap_method_in_list ms ap_make_method_list m \<and> \<not> ap_method_in_list ms (ap_clear_method_list l) m \<and>
    (ap_method_in_list ms (ap_method_list_add ms l a) m \<longleftrightarrow> ap_method_in_list ms l m \<or> same a m) \<and>
    (ap_method_in_list ms (ap_method_list_remove ms l a) m \<longleftrightarrow> ap_method_in_list ms l m \<and> \<not> same a m) \<and>
    (ap_method_in_list ms (ap_copy_method_list dest l) m \<longleftrightarrow>
       ap_method_in_list ms l m \<or> ap_method_number_of ms m = M_INVALID \<and> m \<in> set (method_list dest))"
proof -
  have inv: "registry_inv ms" using register_all_correct [of names, folded ms_def] by blast
  let ?n = "ap_method_number_of ms"
  have num: "?n x = (case registered ms x of Some n \<Rightarrow> n | None \<Rightarrow> M_INVALID)" for x by (rule number_of_registered [OF inv])
  have range: "0 \<le> ?n x" "?n x \<le> METHOD_NUMBER_LAST" for x
    using registered_range [OF inv, of x] by (auto simp: num split: option.split)
  have std: "?n ''GET'' = M_GET" "?n ''HEAD'' = M_GET"
    by (simp_all add: ap_method_number_of_def lookup_builtin_method_def keyword_def)
  have same: "same a m \<longleftrightarrow> (if ?n a = M_INVALID then a = m else ?n a = ?n m)"
  proof (cases "?n a = M_INVALID")
    case True
    then show ?thesis using std by (auto simp: same_def doubleton_eq_iff)
  next
    case False
    have "same a m" if "?n a = ?n m"
      unfolding same_def by (rule same_method_number [OF inv that False])
    moreover have "?n a = ?n m" if "same a m" using that std by (auto simp: same_def doubleton_eq_iff)
    ultimately show ?thesis using False by auto
  qed
  have mask: "bit (method_bit (?n a)) (nat (?n m)) \<longleftrightarrow> ?n a = ?n m" by (rule bit_method_bit [OF range range])
  have small: "nat (?n m) < 64" using range [of m] by simp
  show ?thesis
    using mask small
    by (auto simp: in_list_iff ap_method_list_add_def ap_method_list_remove_def ap_make_method_list_def
        ap_clear_method_list_def ap_copy_method_list_def Let_def same bit_or_iff bit_and_iff bit_not_iff)
qed

end
