(* ===== verification/Request_Line.thy ===== *)
theory Request_Line
  imports Tokens Methods
begin

text \<open>
  The request line: \<open>read_request_line\<close> and \<open>ap_parse_uri\<close> of \<^verbatim>\<open>server/protocol.c\<close>. Reading a line from
  the connection is an argument, \<open>getline\<close>, and so are the URI parsers of APR. The pointers \<open>ll\<close>,
  \<open>r->method\<close>, \<open>uri\<close> and \<open>r->protocol\<close> into the line are the suffixes that begin there; \<open>*ll = '\0'\<close> cuts the string
  that precedes it, and empties the one that begins at \<open>ll\<close> itself.
\<close>

section \<open>Splitting the line\<close>

datatype rrl_error =
    rrl_none | rrl_badmethod | rrl_badwhitespace | rrl_excesswhitespace | rrl_missinguri | rrl_baduri
  | rrl_badprotocol | rrl_trailingtext | rrl_badmethod09 | rrl_reject09

definition defer_error :: "rrl_error \<Rightarrow> bool \<Rightarrow> rrl_error \<Rightarrow> rrl_error" where
  "defer_error e cond err = (if cond \<and> err = rrl_none then e else err)"

text \<open>The loops that advance over white space and mark white space other than a blank.\<close>

fun skip_ws :: "string \<Rightarrow> rrl_error \<Rightarrow> string \<times> rrl_error" where
  "skip_ws [] err = ([], err)"
| "skip_ws (c # s) err =
     (if c_isspace c then skip_ws s (defer_error rrl_badwhitespace (c \<noteq> CHR '' '') err) else (c # s, err))"

text \<open>\<open>strpbrk(s, "\t\n\v\f\r ")\<close>.\<close>

definition strpbrk_ws :: "string \<Rightarrow> string option" where
  "strpbrk_ws s = (if \<exists>c\<in>set s. c_isspace c then Some (dropWhile (\<lambda>c. \<not> c_isspace c) s) else None)"

definition cut_at :: "string \<Rightarrow> string \<Rightarrow> string" where
  "cut_at s ll = take (length s - length ll) s"

definition nul_at :: "string \<Rightarrow> string \<Rightarrow> string" where
  "nul_at ll s = (if s = ll then [] else s)"

definition method_phase :: "bool \<Rightarrow> string \<Rightarrow> string \<times> string option \<times> rrl_error" where
  "method_phase strict line =
     (let lead = c_isspace (peek line);
          err = (if lead then rrl_badwhitespace else rrl_none);
          method = (if lead then dropWhile c_isspace line else line);
          ll = (if strict then ap_scan_http_token method else ap_scan_vchar_obstext method)
      in if (ll = method \<or> (peek ll \<noteq> NUL \<and> \<not> c_isspace (peek ll))) \<and> err = rrl_none
         then (method, strpbrk_ws ll, rrl_badmethod)
         else (method, Some ll, err))"

definition uri_phase :: "string \<Rightarrow> rrl_error \<Rightarrow> string option \<times> rrl_error" where
  "uri_phase uri err =
     (let ll = ap_scan_vchar_obstext uri
      in if ll = uri \<or> (peek ll \<noteq> NUL \<and> \<not> c_isspace (peek ll)) then (strpbrk_ws ll, rrl_baduri)
         else (Some ll, err))"

definition protocol_phase :: "bool \<Rightarrow> string \<Rightarrow> rrl_error \<Rightarrow> string \<times> rrl_error" where
  "protocol_phase strict protocol err =
     (let ll = ap_scan_vchar_obstext protocol
      in (cut_at protocol ll,
          if peek ll \<noteq> NUL \<and> \<not> c_isspace (peek ll) then rrl_badprotocol
          else if strict \<and> peek ll \<noteq> NUL then rrl_excesswhitespace
          else case skip_ws ll err of (ll, err) \<Rightarrow> defer_error rrl_trailingtext (peek ll \<noteq> NUL) err))"

definition excess_ws :: "bool \<Rightarrow> string \<Rightarrow> rrl_error \<Rightarrow> rrl_error" where
  "excess_ws strict ll err = defer_error rrl_excesswhitespace (strict \<and> peek ll \<noteq> NUL \<and> c_isspace (at ll 1)) err"

text \<open>Method, URI and protocol of the line and the first error, at the label \<open>rrl_done\<close>.\<close>

definition split_uri :: "bool \<Rightarrow> string \<Rightarrow> rrl_error \<Rightarrow> string \<times> string \<times> rrl_error" where
  "split_uri strict uri err =
     (case uri_phase uri err of
        (None, err) \<Rightarrow> (uri, [], err)
      | (Some ll, err) \<Rightarrow>
          (case skip_ws ll (excess_ws strict ll err) of (protocol, err) \<Rightarrow>
             (cut_at uri ll, protocol_phase strict (nul_at ll protocol) err)))"

definition split_request_line :: "bool \<Rightarrow> string \<Rightarrow> string \<times> string \<times> string \<times> rrl_error" where
  "split_request_line strict line =
     (case method_phase strict line of
        (method, None, err) \<Rightarrow> (method, [], [], defer_error rrl_missinguri True err)
      | (method, Some ll, err) \<Rightarrow>
          (case skip_ws ll (excess_ws strict ll err) of (uri, err) \<Rightarrow>
             (cut_at method ll,
              split_uri strict (nul_at ll uri) (defer_error rrl_missinguri (peek (nul_at ll uri) = NUL) err))))"

section \<open>The protocol\<close>

definition HTTP_VERSION :: "nat \<Rightarrow> nat \<Rightarrow> nat" where
  "HTTP_VERSION major minor = 1000 * major + minor"

definition version_digits :: "string \<Rightarrow> bool" where
  "version_digits p \<longleftrightarrow> at p 4 = CHR ''/'' \<and> c_isdigit (at p 5) \<and> at p 6 = CHR ''.'' \<and> c_isdigit (at p 7) \<and> at p 5 \<noteq> CHR ''0''"

definition proto_version :: "string \<Rightarrow> nat" where
  "proto_version p = HTTP_VERSION (ord (at p 5) - ord CHR ''0'') (ord (at p 7) - ord CHR ''0'')"

text \<open>\<open>r->assbackwards\<close>, \<open>r->protocol\<close>, \<open>r->proto_num\<close> and the error after the protocol is read.\<close>

definition read_protocol :: "bool \<Rightarrow> string \<Rightarrow> rrl_error \<Rightarrow> bool \<times> string \<times> nat \<times> rrl_error" where
  "read_protocol strict p err =
     (if length p = 8 \<and> take 4 p = ''HTTP'' \<and> version_digits p then (False, p, proto_version p, err)
      else if length p = 8 \<and> map c_tolower (take 4 p) = ''http'' \<and> version_digits p then
        (if strict \<and> err = rrl_none then (False, p, proto_version p, rrl_badprotocol)
         else (False, ''HTTP'' @ drop 4 p, proto_version p, err))
      else if p \<noteq> [] then (False, p, HTTP_VERSION 0 9, defer_error rrl_badprotocol True err)
      else (True, ''HTTP/0.9'', HTTP_VERSION 0 9, err))"

section \<open>The whole request line\<close>

record apr_uri =
  scheme :: "string option"
  uri_hostname :: "string option"
  user :: "string option"
  password :: "string option"
  path :: "string option"
  query :: "string option"
  fragment :: "string option"

record core_conf =
  strict :: bool
  http09_enable :: bool
  registered_methods :: bool

record request =
  the_request :: string
  meth :: string
  method_number :: int
  header_only :: bool
  protocol :: string
  proto_num :: nat
  assbackwards :: bool
  unparsed_uri :: string
  uri :: string
  args :: "string option"
  hostname :: "string option"
  parsed_uri :: apr_uri
  status :: int
  keepalive_close :: bool

definition HTTP_NOT_IMPLEMENTED :: int where "HTTP_NOT_IMPLEMENTED = 501"

text \<open>A leading run of slashes is one slash.\<close>

fun one_slash :: "string \<Rightarrow> string" where
  "one_slash (a # b # s) = (if a = CHR ''/'' \<and> b = CHR ''/'' then one_slash (b # s) else a # b # s)"
| "one_slash s = s"

definition ap_parse_uri ::
  "(bool \<Rightarrow> string \<Rightarrow> apr_uri option) \<Rightarrow> string \<Rightarrow> request \<Rightarrow> string \<Rightarrow> request" where
  "ap_parse_uri parse http_scheme r u =
     (case parse (method_number r = M_CONNECT) (one_slash u) of
        Some p \<Rightarrow>
          r\<lparr>unparsed_uri := u, parsed_uri := p,
            hostname := (if (case scheme p of None \<Rightarrow> False | Some s \<Rightarrow> map c_tolower s = map c_tolower http_scheme) \<or> method_number r = M_CONNECT
                         then uri_hostname p else hostname r),
            args := query p, uri := (case path p of Some x \<Rightarrow> x | None \<Rightarrow> ''/'')\<rparr>
      | None \<Rightarrow>
          r\<lparr>unparsed_uri := u, args := None, hostname := None, status := HTTP_BAD_REQUEST, uri := u\<rparr>)"

text \<open>The label \<open>rrl_failed\<close>.\<close>

definition rrl_failed :: "request \<Rightarrow> bool \<times> request" where
  "rrl_failed r =
     (False, if proto_num r = HTTP_VERSION 0 9
             then r\<lparr>assbackwards := False, keepalive_close := True, proto_num := HTTP_VERSION 1 0, protocol := ''HTTP/1.0''\<rparr>
             else r)"

text \<open>
  The fields set before the URI is parsed, and the checks after it: the errors of HTTP/0.9, the deferred error, unknown methods,
  an unparsable URI, and in strict mode a fragment or user information. The first component is the return value.
\<close>

definition fill_request ::
  "request \<Rightarrow> string \<Rightarrow> string \<Rightarrow> string \<Rightarrow> int \<Rightarrow> bool \<Rightarrow> string \<Rightarrow> nat \<Rightarrow> request" where
  "fill_request r m u p number simple proto num =
     r\<lparr>meth := m,
       the_request := m @ (if u = [] then [] else '' '' @ u @ (if p = [] then [] else '' '' @ p)),
       assbackwards := (if simple then True else if num = HTTP_VERSION 0 9 then assbackwards r else False),
       protocol := proto, proto_num := num, method_number := number,
       header_only := (if number = M_GET \<and> peek m = CHR ''H'' then True else header_only r)\<rparr>"

definition http09_error :: "core_conf \<Rightarrow> request \<Rightarrow> rrl_error \<Rightarrow> rrl_error" where
  "http09_error conf r err =
     (if proto_num r = HTTP_VERSION 0 9 \<and> err = rrl_none then
        (if \<not> http09_enable conf then rrl_reject09
         else if strict conf \<and> (method_number r \<noteq> M_GET \<or> header_only r) then rrl_badmethod09 else err)
      else err)"

definition check_request :: "core_conf \<Rightarrow> rrl_error \<Rightarrow> request \<Rightarrow> bool \<times> request" where
  "check_request conf err r =
     (if err \<noteq> rrl_none then rrl_failed (r\<lparr>status := HTTP_BAD_REQUEST\<rparr>)
      else if registered_methods conf \<and> method_number r = M_INVALID then (False, r\<lparr>status := HTTP_NOT_IMPLEMENTED\<rparr>)
      else if status r \<noteq> HTTP_OK then rrl_failed r
      else if strict conf \<and> (fragment (parsed_uri r) \<noteq> None \<or> user (parsed_uri r) \<noteq> None \<or> password (parsed_uri r) \<noteq> None)
      then rrl_failed (r\<lparr>status := HTTP_BAD_REQUEST\<rparr>)
      else (True, r))"

definition request_line ::
  "core_conf \<Rightarrow> methods \<Rightarrow> (bool \<Rightarrow> string \<Rightarrow> apr_uri option) \<Rightarrow> string \<Rightarrow> request \<Rightarrow> string \<Rightarrow> bool \<times> request" where
  "request_line conf ms parse http_scheme r line =
     (case split_request_line (strict conf) line of (m, u, p, err) \<Rightarrow>
      (case read_protocol (strict conf) p err of (simple, proto, num, err) \<Rightarrow>
         let r = ap_parse_uri parse http_scheme (fill_request r m u p (ap_method_number_of ms m) simple proto num) u
         in check_request conf (http09_error conf r err) r))"

text \<open>The loop over blank lines: at most \<open>num_blank_lines\<close> more lines after the first.\<close>

definition DEFAULT_LIMIT_BLANK_LINES :: nat where "DEFAULT_LIMIT_BLANK_LINES = 10"
definition HTTP_REQUEST_TIME_OUT :: int where "HTTP_REQUEST_TIME_OUT = 408"
definition HTTP_REQUEST_URI_TOO_LARGE :: int where "HTTP_REQUEST_URI_TOO_LARGE = 414"

fun read_nonblank :: "('s \<Rightarrow> (apr_status + string) \<times> 's) \<Rightarrow> nat \<Rightarrow> 's \<Rightarrow> (apr_status + string) \<times> 's" where
  "read_nonblank getline 0 s = getline s"
| "read_nonblank getline (Suc n) s =
     (case getline s of
        (Inr [], s') \<Rightarrow> read_nonblank getline n s'
      | res \<Rightarrow> res)"

definition read_request_line ::
  "core_conf \<Rightarrow> methods \<Rightarrow> (bool \<Rightarrow> string \<Rightarrow> apr_uri option) \<Rightarrow> string
     \<Rightarrow> ('s \<Rightarrow> (apr_status + string) \<times> 's) \<Rightarrow> 's \<Rightarrow> request \<Rightarrow> (bool \<times> request) \<times> 's" where
  "read_request_line conf ms parse http_scheme getline s r =
     (case read_nonblank getline DEFAULT_LIMIT_BLANK_LINES s of
        (Inl rv, s') \<Rightarrow>
          ((False, r\<lparr>status := (if rv = APR_ENOSPC then HTTP_REQUEST_URI_TOO_LARGE
                               else if rv = APR_TIMEUP then HTTP_REQUEST_TIME_OUT
                               else if rv = APR_EINVAL then HTTP_BAD_REQUEST else status r),
                     proto_num := HTTP_VERSION 1 0, protocol := ''HTTP/1.0''\<rparr>), s')
      | (Inr line, s') \<Rightarrow> (request_line conf ms parse http_scheme r line, s'))"

section \<open>Lines without an error\<close>

definition method_char :: "bool \<Rightarrow> char \<Rightarrow> bool" where
  "method_char st c \<longleftrightarrow> (if st then \<not> TEST_CHAR c T_HTTP_TOKEN_STOP else TEST_CHAR c T_VCHAR_OBSTEXT)"

definition uri_char :: "char \<Rightarrow> bool" where
  "uri_char c \<longleftrightarrow> TEST_CHAR c T_VCHAR_OBSTEXT"

definition word_of :: "(char \<Rightarrow> bool) \<Rightarrow> string \<Rightarrow> bool" where
  "word_of P s \<longleftrightarrow> s \<noteq> [] \<and> list_all P s"

text \<open>The separators: blanks only, and a single one in strict mode.\<close>

definition gap :: "bool \<Rightarrow> string \<Rightarrow> bool" where
  "gap st s \<longleftrightarrow> s \<noteq> [] \<and> list_all (\<lambda>c. c = CHR '' '') s \<and> (st \<longrightarrow> length s = 1)"

lemma space_stops: "c_isspace c \<Longrightarrow> \<not> method_char st c" "c_isspace c \<Longrightarrow> \<not> uri_char c" "\<not> uri_char NUL" "\<not> method_char st NUL"
proof -
  show "\<not> uri_char NUL" "\<not> method_char st NUL" by (simp_all add: uri_char_def method_char_def TEST_CHAR_simps)
  assume sp: "c_isspace c"
  then show u: "\<not> uri_char c" by (auto simp: uri_char_def TEST_CHAR_simps cclass char_eq_ord)
  have an: "\<not> c_isalnum c" using sp by (auto simp: cclass)
  have "list_all (\<lambda>c. \<not> c_isspace c) token_chars" by (simp add: token_chars_def cclass)
  moreover have "c \<noteq> NUL" using sp by (auto simp: cclass)
  ultimately have "\<not> has_chr token_chars c" using sp by (auto simp: has_chr_iff list_all_iff)
  then show "\<not> method_char st c" using u an by (simp add: method_char_def uri_char_def TEST_CHAR_simps)
qed

lemma skip_ws_fst [simp]: "fst (skip_ws s err) = dropWhile c_isspace s"
  by (induction s err rule: skip_ws.induct) auto

lemma skip_ws_none:
  "snd (skip_ws s err) = rrl_none \<longleftrightarrow> err = rrl_none \<and> list_all (\<lambda>c. c = CHR '' '') (takeWhile c_isspace s)"
  by (induction s err rule: skip_ws.induct) (auto simp: defer_error_def)

lemma defer_none: "e \<noteq> rrl_none \<Longrightarrow> defer_error e cond err = rrl_none \<longleftrightarrow> err = rrl_none \<and> \<not> cond"
  by (auto simp: defer_error_def)

lemma method_phase_good:
  assumes "snd (snd (method_phase st line)) = rrl_none"
  shows "method_phase st line = (line, Some (dropWhile (method_char st) line), rrl_none)"
    "dropWhile (method_char st) line \<noteq> line"
    "peek (dropWhile (method_char st) line) \<noteq> NUL \<Longrightarrow> c_isspace (peek (dropWhile (method_char st) line))"
  using assms
  by (auto simp: method_phase_def Let_def method_char_def [abs_def] ap_scan_http_token_def ap_scan_vchar_obstext_def split: if_splits)

lemma uri_phase_good:
  assumes "snd (uri_phase u err) = rrl_none"
  shows "uri_phase u err = (Some (dropWhile uri_char u), rrl_none)" "dropWhile uri_char u \<noteq> u"
    "peek (dropWhile uri_char u) \<noteq> NUL \<Longrightarrow> c_isspace (peek (dropWhile uri_char u))" "err = rrl_none"
  using assms by (auto simp: uri_phase_def Let_def uri_char_def [abs_def] ap_scan_vchar_obstext_def split: if_splits)

text \<open>A run of white space that passes the checks between two fields.\<close>

lemma ws_good:
  assumes "cstring ll" "snd (skip_ws ll (excess_ws st ll err)) = rrl_none" "peek ll \<noteq> NUL \<Longrightarrow> c_isspace (peek ll)"
  shows "err = rrl_none" "takeWhile c_isspace ll = [] \<or> gap st (takeWhile c_isspace ll)"
    "takeWhile c_isspace ll = [] \<Longrightarrow> ll = []"
proof -
  have f: "err = rrl_none" "list_all (\<lambda>c. c = CHR '' '') (takeWhile c_isspace ll)"
    "st \<Longrightarrow> peek ll \<noteq> NUL \<Longrightarrow> \<not> c_isspace (at ll 1)"
    using assms(2) by (auto simp: skip_ws_none excess_ws_def defer_none)
  show "err = rrl_none" by (rule f(1))
  show e: "takeWhile c_isspace ll = [] \<Longrightarrow> ll = []"
    using assms(1,3) by (cases ll) (auto split: if_splits)
  show "takeWhile c_isspace ll = [] \<or> gap st (takeWhile c_isspace ll)"
  proof (cases ll)
    case (Cons a as)
    then have "c_isspace a" "a \<noteq> NUL" using assms(1,3) by auto
    moreover have "takeWhile c_isspace as = []" if st using f(3) [OF that] Cons calculation by (cases as) auto
    ultimately show ?thesis using f(2) Cons by (auto simp: gap_def)
  qed simp
qed

lemma cut_append: "cut_at (xs @ ys) ys = xs"
  by (simp add: cut_at_def)

lemma cut_scan: "cut_at s (dropWhile P s) = takeWhile P s"
  using cut_append [of "takeWhile P s" "dropWhile P s"] by (simp only: takeWhile_dropWhile_id)

lemma skip_nothing:
  assumes "takeWhile P s = [] \<Longrightarrow> s = []"
  shows "nul_at s (dropWhile P s) = dropWhile P s"
proof (cases "dropWhile P s = s")
  case True
  have "takeWhile P s @ s = s" using takeWhile_dropWhile_id [of P s] unfolding True .
  then have "s = []" using assms by simp
  then show ?thesis by (simp add: nul_at_def)
qed (simp only: nul_at_def if_False)

lemma word_scan:
  assumes "cstring s" "dropWhile P s \<noteq> s"
  shows "word_of P (takeWhile P s)" "cstring (dropWhile P s)"
proof -
  have "takeWhile P s \<noteq> []" using assms(2) by (cases s) (auto split: if_splits)
  then show "word_of P (takeWhile P s)" by (auto simp: word_of_def list_all_iff dest: set_takeWhileD)
  show "cstring (dropWhile P s)" using assms(1) by (auto simp: cstring_def dest: set_dropWhileD)
qed

lemma cstring_drop: "cstring s \<Longrightarrow> cstring (dropWhile P s)"
  by (auto simp: cstring_def dest: set_dropWhileD)

lemma protocol_phase_good:
  assumes "cstring s" "protocol_phase st s err = (p, rrl_none)" "s = [] \<or> \<not> c_isspace (peek s)"
  shows "err = rrl_none" "(s = [] \<and> p = []) \<or> (word_of uri_char p \<and> (\<exists>c. s = p @ c \<and> list_all (\<lambda>x. x = CHR '' '') c \<and> (st \<longrightarrow> c = [])))"
proof -
  let ?ll = "dropWhile uri_char s"
  have ps: "protocol_phase st s err = (takeWhile uri_char s,
          if peek ?ll \<noteq> NUL \<and> \<not> c_isspace (peek ?ll) then rrl_badprotocol
          else if st \<and> peek ?ll \<noteq> NUL then rrl_excesswhitespace
          else defer_error rrl_trailingtext (peek (dropWhile c_isspace ?ll) \<noteq> NUL) (snd (skip_ws ?ll err)))"
    unfolding protocol_phase_def Let_def ap_scan_vchar_obstext_def uri_char_def [abs_def, symmetric] cut_scan
    by (simp add: split_beta)
  have cs: "cstring ?ll" "cstring (dropWhile c_isspace ?ll)" using assms(1) by (auto intro: cstring_drop)
  have p: "p = takeWhile uri_char s" and ll: "peek ?ll \<noteq> NUL \<Longrightarrow> c_isspace (peek ?ll) \<and> \<not> st"
    and tail: "peek (dropWhile c_isspace ?ll) = NUL" "snd (skip_ws ?ll err) = rrl_none"
    using assms(2) unfolding ps by (auto simp: defer_none split: if_splits)
  show "err = rrl_none" using tail(2) by (simp add: skip_ws_none)
  have "dropWhile c_isspace ?ll = []" using tail(1) cs(2) by (simp only: cstring_peek)
  then have tw: "takeWhile c_isspace ?ll = ?ll" by (metis append_Nil2 takeWhile_dropWhile_id)
  have blank: "list_all (\<lambda>x. x = CHR '' '') ?ll" using tail(2) [unfolded skip_ws_none tw] by blast
  have strict_ll: "st \<longrightarrow> ?ll = []" using ll cs(1) cstring_peek by blast
  have "s = p @ ?ll" by (simp add: p)
  have "word_of uri_char p" if "s \<noteq> []"
  proof -
    have "?ll \<noteq> s" using that ll assms(1,3) cstring_peek [OF assms(1)] by auto
    then show ?thesis unfolding p by (rule word_scan(1) [OF assms(1)])
  qed
  then show "(s = [] \<and> p = []) \<or> (word_of uri_char p \<and> (\<exists>c. s = p @ c \<and> list_all (\<lambda>x. x = CHR '' '') c \<and> (st \<longrightarrow> c = [])))"
    using blank strict_ll \<open>s = p @ ?ll\<close> p by (cases "s = []") (simp, blast)
qed

text \<open>The grammar of a request line that is split without an error.\<close>

definition good_line :: "bool \<Rightarrow> string \<Rightarrow> string \<Rightarrow> string \<Rightarrow> string \<Rightarrow> bool" where
  "good_line st line m u p \<longleftrightarrow> (\<exists>a b c. line = m @ a @ u @ b @ p @ c \<and>
     word_of (method_char st) m \<and> gap st a \<and> word_of uri_char u \<and>
     (p = [] \<and> (b = [] \<or> gap st b) \<and> c = [] \<or>
      word_of uri_char p \<and> gap st b \<and> list_all (\<lambda>x. x = CHR '' '') c \<and> (st \<longrightarrow> c = [])))"

lemma protocol_phase_err: "snd (protocol_phase st s err) = rrl_none \<Longrightarrow> err = rrl_none"
  by (auto simp: protocol_phase_def Let_def split_beta defer_none skip_ws_none split: if_splits)

lemma excess_none: "excess_ws st ll err = rrl_none \<Longrightarrow> err = rrl_none"
  by (auto simp: excess_ws_def defer_none)

lemma split_uri_err:
  assumes "snd (snd (split_uri st s err)) = rrl_none"
  shows "snd (uri_phase s err) = rrl_none"
proof (cases "fst (uri_phase s err)")
  case None
  then show ?thesis using assms by (simp add: split_uri_def split_beta)
next
  case (Some ll)
  then have "snd (protocol_phase st (nul_at ll (dropWhile c_isspace ll))
      (snd (skip_ws ll (excess_ws st ll (snd (uri_phase s err)))))) = rrl_none"
    using assms by (simp add: split_uri_def split_beta)
  then have "snd (skip_ws ll (excess_ws st ll (snd (uri_phase s err)))) = rrl_none" by (rule protocol_phase_err)
  then have "excess_ws st ll (snd (uri_phase s err)) = rrl_none" by (simp only: skip_ws_none)
  then show ?thesis by (rule excess_none)
qed

lemma split_uri_good:
  assumes cs: "cstring s" and res: "split_uri st s err = (u, p, rrl_none)"
  shows "err = rrl_none" "word_of uri_char u"
    "\<exists>b c. s = u @ b @ p @ c \<and> (p = [] \<and> (b = [] \<or> gap st b) \<and> c = [] \<or>
      word_of uri_char p \<and> gap st b \<and> list_all (\<lambda>x. x = CHR '' '') c \<and> (st \<longrightarrow> c = []))"
proof -
  let ?ll = "dropWhile uri_char s" and ?p0 = "dropWhile c_isspace (dropWhile uri_char s)"
  note up = uri_phase_good [OF split_uri_err [of st s err]]
  have none: "snd (snd (split_uri st s err)) = rrl_none" by (simp add: res)
  show "err = rrl_none" by (rule up(4) [OF none])
  have u: "u = takeWhile uri_char s"
    and pp: "protocol_phase st (nul_at ?ll ?p0) (snd (skip_ws ?ll (excess_ws st ?ll rrl_none))) = (p, rrl_none)"
    using res by (auto simp: split_uri_def up(1) [OF none] split_beta cut_scan)
  show "word_of uri_char u" unfolding u by (rule word_scan(1) [OF cs up(2) [OF none]])
  have cll: "cstring ?ll" "cstring ?p0" using cs by (auto intro: cstring_drop)
  have "snd (skip_ws ?ll (excess_ws st ?ll rrl_none)) = rrl_none"
    using protocol_phase_err [of st "nul_at ?ll ?p0"] pp by simp
  note ws = ws_good [OF cll(1) this up(3) [OF none]]
  let ?b = "takeWhile c_isspace ?ll"
  have split: "s = u @ ?b @ ?p0" unfolding u by simp
  have nul: "nul_at ?ll ?p0 = ?p0"
    by (rule skip_nothing) (rule ws(3))
  have "?p0 = [] \<or> \<not> c_isspace (peek ?p0)" by (cases ?p0) (auto dest: dropWhile_hd)
  note pg = protocol_phase_good(2) [OF cll(2) pp [unfolded nul] this]
  show "\<exists>b c. s = u @ b @ p @ c \<and> (p = [] \<and> (b = [] \<or> gap st b) \<and> c = [] \<or>
      word_of uri_char p \<and> gap st b \<and> list_all (\<lambda>x. x = CHR '' '') c \<and> (st \<longrightarrow> c = []))"
    using pg
  proof (elim disjE conjE exE)
    assume "?p0 = []" "p = []"
    then have "s = u @ ?b @ p @ []" using split by (simp only: append_Nil append_Nil2)
    then show ?thesis using ws(2) \<open>p = []\<close> by blast
  next
    fix c assume c: "word_of uri_char p" "?p0 = p @ c" "list_all (\<lambda>x. x = CHR '' '') c" "st \<longrightarrow> c = []"
    then have "?p0 \<noteq> []" by (auto simp: word_of_def)
    then have "?b \<noteq> []" using ws(3) by (metis dropWhile.simps(1))
    then have "gap st ?b" using ws(2) by blast
    moreover have "s = u @ ?b @ p @ c" using split c(2) by simp
    ultimately show ?thesis using c by blast
  qed
qed

lemma split_line_err:
  assumes "snd (snd (snd (split_request_line st line))) = rrl_none"
  shows "snd (snd (method_phase st line)) = rrl_none"
proof (cases "fst (snd (method_phase st line))")
  case None
  then show ?thesis using assms by (simp add: split_request_line_def split_beta defer_none)
next
  case (Some ll)
  let ?err = "snd (skip_ws ll (excess_ws st ll (snd (snd (method_phase st line)))))"
  let ?u = "nul_at ll (dropWhile c_isspace ll)"
  have "snd (snd (split_uri st ?u (defer_error rrl_missinguri (peek ?u = NUL) ?err))) = rrl_none"
    using assms Some by (simp add: split_request_line_def split_beta)
  then have "defer_error rrl_missinguri (peek ?u = NUL) ?err = rrl_none"
    by (rule uri_phase_good(4) [OF split_uri_err])
  then have "?err = rrl_none" by (simp add: defer_none)
  then have "excess_ws st ll (snd (snd (method_phase st line))) = rrl_none" by (simp only: skip_ws_none)
  then show ?thesis by (rule excess_none)
qed

lemma split_line_good:
  assumes cs: "cstring line" and res: "split_request_line st line = (m, u, p, rrl_none)"
  shows "good_line st line m u p"
proof -
  let ?ll = "dropWhile (method_char st) line" and ?u0 = "dropWhile c_isspace (dropWhile (method_char st) line)"
  have "snd (snd (method_phase st line)) = rrl_none" by (rule split_line_err [of st]) (simp add: res)
  note mp = method_phase_good [OF this]
  have m: "m = takeWhile (method_char st) line"
    and su: "split_uri st (nul_at ?ll ?u0) (defer_error rrl_missinguri (peek (nul_at ?ll ?u0) = NUL)
      (snd (skip_ws ?ll (excess_ws st ?ll rrl_none)))) = (u, p, rrl_none)"
    using res by (simp_all add: split_request_line_def mp(1) split_beta cut_scan)
  have cll: "cstring ?ll" "cstring (nul_at ?ll ?u0)" using cs by (auto simp: nul_at_def intro: cstring_drop)
  note sg = split_uri_good [OF cll(2) su]
  have err: "snd (skip_ws ?ll (excess_ws st ?ll rrl_none)) = rrl_none" "nul_at ?ll ?u0 \<noteq> []"
    using sg(1) by (auto simp: defer_none)
  note ws = ws_good [OF cll(1) err(1) mp(3)]
  let ?a = "takeWhile c_isspace ?ll"
  have "?u0 \<noteq> ?ll" using err(2) unfolding nul_at_def by metis
  then have nul: "nul_at ?ll ?u0 = ?u0" by (simp only: nul_at_def if_False)
  have "?u0 \<noteq> []" using err(2) unfolding nul .
  then have "?a \<noteq> []" using ws(3) by (metis dropWhile.simps(1))
  then have "gap st ?a" using ws(2) by blast
  moreover have "line = m @ ?a @ ?u0" unfolding m by simp
  moreover have "word_of (method_char st) m" unfolding m by (rule word_scan(1) [OF cs mp(2)])
  moreover obtain b c where "?u0 = u @ b @ p @ c" "p = [] \<and> (b = [] \<or> gap st b) \<and> c = [] \<or>
      word_of uri_char p \<and> gap st b \<and> list_all (\<lambda>x. x = CHR '' '') c \<and> (st \<longrightarrow> c = [])"
    using sg(3) unfolding nul by blast
  ultimately show ?thesis unfolding good_line_def using sg(2) by metis
qed

text \<open>Conversely, a line of that form is split into its parts.\<close>

lemma scan_word:
  assumes "word_of P w" "r = [] \<or> \<not> P (hd r)"
  shows "dropWhile P (w @ r) = r" "takeWhile P (w @ r) = w"
  using assms takeWhile_dropWhile_unique [of "w @ r" w r P] by (auto simp: word_of_def list_all_iff)

lemma word_hd: "word_of P w \<Longrightarrow> P (hd (w @ r))" "word_of P w \<Longrightarrow> w @ r \<noteq> []" "word_of P w \<Longrightarrow> peek (w @ r) = hd (w @ r)"
  by (cases w; simp add: word_of_def)+

lemma word_not_space:
  "word_of uri_char w \<Longrightarrow> \<not> c_isspace (peek (w @ r))" "word_of (method_char st) w \<Longrightarrow> \<not> c_isspace (peek (w @ r))"
  using space_stops(1,2) by (cases w; auto simp: word_of_def)+

lemma blank_space: "c_isspace (CHR '' '')"
  by (simp add: cclass)

lemma blanks_space: "list_all (\<lambda>x. x = CHR '' '') s \<Longrightarrow> list_all c_isspace s"
  using blank_space by (induction s) simp_all

lemma gap_skip:
  assumes "gap st a" "\<not> c_isspace (peek r)"
  shows "dropWhile c_isspace (a @ r) = r" "takeWhile c_isspace (a @ r) = a" "skip_ws (a @ r) (excess_ws st (a @ r) rrl_none) = (r, rrl_none)"
    "nul_at (a @ r) r = r" "peek (a @ r) = CHR '' ''"
proof -
  note sp = blank_space
  have "a \<noteq> []" "list_all c_isspace a" using assms(1) blanks_space unfolding gap_def by blast+
  then have a: "word_of c_isspace a" by (simp add: word_of_def)
  have "r = [] \<or> \<not> c_isspace (hd r)" using assms(2) by (cases r) auto
  note sw = scan_word [OF a this]
  show "dropWhile c_isspace (a @ r) = r" "takeWhile c_isspace (a @ r) = a" by (rule sw)+
  show pk: "peek (a @ r) = CHR '' ''" using assms(1) by (cases a) (auto simp: gap_def)
  have "\<not> c_isspace (at (a @ r) 1)" if single: st
  proof -
    obtain x where "a = [x]" using assms(1) single by (cases a) (auto simp: gap_def)
    then show ?thesis using assms(2) by simp
  qed
  then have "excess_ws st (a @ r) rrl_none = rrl_none" by (auto simp: excess_ws_def defer_error_def)
  then have "snd (skip_ws (a @ r) (excess_ws st (a @ r) rrl_none)) = rrl_none"
    using assms(1) by (simp add: skip_ws_none sw(2) gap_def)
  moreover have "fst (skip_ws (a @ r) (excess_ws st (a @ r) rrl_none)) = r" by (simp only: skip_ws_fst sw(1))
  ultimately show "skip_ws (a @ r) (excess_ws st (a @ r) rrl_none) = (r, rrl_none)" by (metis prod.collapse)
  show "nul_at (a @ r) r = r" using a by (auto simp: nul_at_def word_of_def)
qed

lemma uri_phase_word:
  assumes "word_of uri_char u" "r = [] \<or> peek r = CHR '' ''"
  shows "uri_phase (u @ r) err = (Some r, err)"
proof -
  have "\<not> uri_char (CHR '' '')" by (rule space_stops(2)) (simp add: cclass)
  then have "r = [] \<or> \<not> uri_char (hd r)" using assms(2) by (cases r) auto
  note sw = scan_word [OF assms(1) this]
  have "peek r \<noteq> NUL \<Longrightarrow> c_isspace (peek r)" using assms(2) by (auto simp: cclass)
  moreover have "r \<noteq> u @ r" using assms(1) by (auto simp: word_of_def)
  ultimately show ?thesis
    using sw(1) by (auto simp: uri_phase_def Let_def ap_scan_vchar_obstext_def uri_char_def [abs_def])
qed

lemma protocol_phase_word:
  assumes "p = [] \<and> c = [] \<or> word_of uri_char p \<and> list_all (\<lambda>x. x = CHR '' '') c \<and> (st \<longrightarrow> c = [])" "cstring c"
  shows "protocol_phase st (p @ c) rrl_none = (p, rrl_none)"
proof -
  note sp = blank_space
  have hd: "c = [] \<or> \<not> uri_char (hd c)" using assms(1) space_stops(2) [OF sp] by (cases c) auto
  have scan: "ap_scan_vchar_obstext (p @ c) = c"
  proof (cases "p = []")
    case True
    then show ?thesis using assms(1) by (auto simp: ap_scan_vchar_obstext_def word_of_def)
  next
    case False
    then have "word_of uri_char p" using assms(1) by blast
    then show ?thesis unfolding ap_scan_vchar_obstext_def uri_char_def [abs_def, symmetric]
      using scan_word(1) [of uri_char p c] hd by blast
  qed
  have blank: "list_all (\<lambda>x. x = CHR '' '') c" using assms(1) by auto
  then have all: "list_all c_isspace c" by (rule blanks_space)
  then have "dropWhile c_isspace c = []" "takeWhile c_isspace c = c" by (simp_all add: list_all_iff)
  then have "fst (skip_ws c rrl_none) = []" "snd (skip_ws c rrl_none) = rrl_none"
    using blank by (simp_all only: skip_ws_fst skip_ws_none)
  then have "skip_ws c rrl_none = ([], rrl_none)" by (metis prod.collapse)
  moreover have "peek c \<noteq> NUL \<Longrightarrow> c_isspace (peek c) \<and> \<not> st" using all assms(1) by (cases c) auto
  ultimately show ?thesis
    unfolding protocol_phase_def Let_def scan cut_append by (auto simp: defer_error_def)
qed

lemma split_line_of_good:
  assumes cs: "cstring line" and g: "good_line st line m u p"
  shows "split_request_line st line = (m, u, p, rrl_none)"
proof -
  obtain a b c where line: "line = m @ a @ u @ b @ p @ c" and m: "word_of (method_char st) m" and a: "gap st a"
    and u: "word_of uri_char u" and tail: "p = [] \<and> (b = [] \<or> gap st b) \<and> c = [] \<or>
      word_of uri_char p \<and> gap st b \<and> list_all (\<lambda>x. x = CHR '' '') c \<and> (st \<longrightarrow> c = [])"
    using g unfolding good_line_def by blast
  let ?r3 = "p @ c" and ?r2 = "b @ p @ c" and ?r1 = "a @ u @ b @ p @ c"
  have csc: "cstring c" using cs by (simp add: line)
  note sp = blank_space
  have r3: "\<not> c_isspace (peek ?r3)" using tail word_not_space(1) [of p c] by (auto simp: cclass)
  note ga = gap_skip [OF a word_not_space(1) [OF u, of ?r2]]
  have r2: "?r2 = [] \<or> peek ?r2 = CHR '' ''" using tail gap_skip(5) [OF _ r3] by auto
  have pp: "protocol_phase st ?r3 rrl_none = (p, rrl_none)" using tail csc by (intro protocol_phase_word) auto
  have skip2: "skip_ws ?r2 (excess_ws st ?r2 rrl_none) = (?r3, rrl_none)" "nul_at ?r2 ?r3 = ?r3"
    using tail gap_skip(3,4) [OF _ r3, of st b] by (auto simp: excess_ws_def defer_error_def nul_at_def)
  have su: "split_uri st (u @ ?r2) rrl_none = (u, p, rrl_none)"
    unfolding split_uri_def by (simp add: uri_phase_word [OF u r2] skip2 pp cut_append)
  have mc: "?r1 = [] \<or> \<not> method_char st (hd ?r1)"
    using ga(5) space_stops(1) [OF sp] a by (cases a) (auto simp: gap_def)
  have "method_phase st line = (line, Some ?r1, rrl_none)"
  proof -
    have "dropWhile (method_char st) line = ?r1" unfolding line by (rule scan_word(1) [OF m mc])
    then have scan: "st \<Longrightarrow> ap_scan_http_token line = ?r1" "\<not> st \<Longrightarrow> ap_scan_vchar_obstext line = ?r1"
      by (simp_all add: ap_scan_http_token_def ap_scan_vchar_obstext_def method_char_def [abs_def])
    have "?r1 \<noteq> line" using m unfolding line by (auto simp: word_of_def)
    then show ?thesis using word_not_space(2) [OF m, of ?r1] ga(5) sp
      unfolding method_phase_def Let_def line [symmetric] by (cases st) (simp_all add: scan)
  qed
  moreover have "peek (u @ ?r2) \<noteq> NUL" using word_hd [OF u, of ?r2] space_stops(3) by metis
  ultimately show ?thesis
    unfolding split_request_line_def using su
    by (simp add: ga(3,4) defer_error_def) (simp add: line cut_append)
qed

lemma split_line_iff:
  "cstring line \<Longrightarrow> split_request_line st line = (m, u, p, rrl_none) \<longleftrightarrow> good_line st line m u p"
  using split_line_good split_line_of_good by blast

section \<open>Accepted requests\<close>

text \<open>The protocol strings of HTTP/1.0 up to HTTP/9.9.\<close>

definition http_protocol :: "string \<Rightarrow> bool" where
  "http_protocol p \<longleftrightarrow> (\<exists>d e. p = ''HTTP/'' @ [d] @ ''.'' @ [e] \<and> c_isdigit d \<and> d \<noteq> CHR ''0'' \<and> c_isdigit e)"

lemma eight_chars: "length p = 8 \<Longrightarrow> \<exists>a b c d e f g h. p = [a, b, c, d, e, f, g, h]"
  by (auto simp: numeral_eq_Suc length_Suc_conv)

lemma http_protocol_iff: "http_protocol p \<longleftrightarrow> length p = 8 \<and> take 4 p = ''HTTP'' \<and> version_digits p"
proof
  assume "length p = 8 \<and> take 4 p = ''HTTP'' \<and> version_digits p"
  moreover from this obtain a b c d e f g h where p: "p = [a, b, c, d, e, f, g, h]" using eight_chars by blast
  ultimately show "http_protocol p" by (simp add: http_protocol_def version_digits_def numeral_eq_Suc at_def)
next
  assume "http_protocol p"
  then show "length p = 8 \<and> take 4 p = ''HTTP'' \<and> version_digits p"
    by (auto simp: http_protocol_def version_digits_def at_def numeral_eq_Suc)
qed

lemma proto_version_bound: "version_digits p \<Longrightarrow> proto_version p \<noteq> HTTP_VERSION 0 9"
  by (auto simp: version_digits_def proto_version_def HTTP_VERSION_def cclass char_eq_ord)

text \<open>In strict mode the protocol is accepted as it is, or absent.\<close>

lemma read_protocol_strict:
  "read_protocol True p err = (simple, proto, num, rrl_none) \<longleftrightarrow> err = rrl_none \<and>
     (http_protocol p \<and> \<not> simple \<and> proto = p \<and> num = proto_version p \<or>
      p = [] \<and> simple \<and> proto = ''HTTP/0.9'' \<and> num = HTTP_VERSION 0 9)"
  unfolding http_protocol_iff by (auto simp: read_protocol_def defer_error_def split: if_splits)

text \<open>The request lines that strict mode accepts, with method \<open>m\<close>, URI \<open>u\<close> and protocol \<open>p\<close> (empty for HTTP/0.9).\<close>

definition uri_ok :: "methods \<Rightarrow> (bool \<Rightarrow> string \<Rightarrow> apr_uri option) \<Rightarrow> string \<Rightarrow> string \<Rightarrow> bool" where
  "uri_ok ms parse m u \<longleftrightarrow>
     (case parse (ap_method_number_of ms m = M_CONNECT) (one_slash u) of
        None \<Rightarrow> False | Some q \<Rightarrow> fragment q = None \<and> user q = None \<and> password q = None)"

definition strict_request ::
  "core_conf \<Rightarrow> methods \<Rightarrow> (bool \<Rightarrow> string \<Rightarrow> apr_uri option) \<Rightarrow> string \<Rightarrow> string \<Rightarrow> string \<Rightarrow> string \<Rightarrow> bool" where
  "strict_request conf ms parse line m u p \<longleftrightarrow>
     word_of (method_char True) m \<and> word_of uri_char u \<and>
     (http_protocol p \<and> line = m @ '' '' @ u @ '' '' @ p \<or>
      p = [] \<and> http09_enable conf \<and> ap_method_number_of ms m = M_GET \<and> peek m \<noteq> CHR ''H'' \<and>
        (line = m @ '' '' @ u \<or> line = m @ '' '' @ u @ '' '')) \<and>
     (registered_methods conf \<longrightarrow> ap_method_number_of ms m \<noteq> M_INVALID) \<and> uri_ok ms parse m u"

lemma gap_strict: "gap True s \<longleftrightarrow> s = '' ''"
  by (cases s) (auto simp: gap_def)

lemma http_protocol_word: "http_protocol p \<Longrightarrow> word_of uri_char p"
  by (auto simp: http_protocol_def word_of_def uri_char_def TEST_CHAR_simps cclass char_eq_ord)

lemma good_line_strict:
  "good_line True line m u p \<longleftrightarrow> word_of (method_char True) m \<and> word_of uri_char u \<and>
     (word_of uri_char p \<and> line = m @ '' '' @ u @ '' '' @ p \<or> p = [] \<and> (line = m @ '' '' @ u \<or> line = m @ '' '' @ u @ '' ''))"
  (is "_ \<longleftrightarrow> ?m \<and> ?u \<and> ?rest")
proof
  assume "good_line True line m u p"
  then show "?m \<and> ?u \<and> ?rest" unfolding good_line_def gap_strict by auto
next
  assume g: "?m \<and> ?u \<and> ?rest"
  then consider "word_of uri_char p" "line = m @ '' '' @ u @ '' '' @ p @ []" | "p = []" "line = m @ '' '' @ u @ [] @ p @ []"
    | "p = []" "line = m @ '' '' @ u @ '' '' @ p @ []" by auto
  then show "good_line True line m u p"
    unfolding good_line_def gap_strict using g by cases (metis list.pred_inject(1), metis+)
qed

lemma parse_uri_frame [simp]:
  "meth (ap_parse_uri parse sch r u) = meth r" "the_request (ap_parse_uri parse sch r u) = the_request r"
  "protocol (ap_parse_uri parse sch r u) = protocol r" "proto_num (ap_parse_uri parse sch r u) = proto_num r"
  "header_only (ap_parse_uri parse sch r u) = header_only r" "method_number (ap_parse_uri parse sch r u) = method_number r" "unparsed_uri (ap_parse_uri parse sch r u) = u"
  "status (ap_parse_uri parse sch r u) =
     (if parse (method_number r = M_CONNECT) (one_slash u) = None then HTTP_BAD_REQUEST else status r)"
  "parse (method_number r = M_CONNECT) (one_slash u) = Some q \<Longrightarrow> parsed_uri (ap_parse_uri parse sch r u) = q"
  by (simp_all add: ap_parse_uri_def split: option.split)

lemma failed_frame [simp]:
  "fst (rrl_failed r) \<longleftrightarrow> False" "status (snd (rrl_failed r)) = status r"
  "proto_num r = HTTP_VERSION 0 9 \<or> HTTP_VERSION 1 0 \<le> proto_num r \<Longrightarrow> HTTP_VERSION 1 0 \<le> proto_num (snd (rrl_failed r))"
  by (auto simp: rrl_failed_def)

lemma read_protocol_num: "read_protocol st p err = (simple, proto, num, err') \<Longrightarrow> num = HTTP_VERSION 0 9 \<or> HTTP_VERSION 1 0 \<le> num"
  by (auto simp: read_protocol_def version_digits_def proto_version_def HTTP_VERSION_def cclass char_eq_ord split: if_splits)

lemma request_line_result:
  fixes ms parse sch
  assumes "strict conf" "status r = HTTP_OK" "\<not> header_only r"
    and sp: "split_request_line True line = (m, u, p, err)"
    and rp: "read_protocol True p err = (simple, proto, num, err2)"
  defines "res \<equiv> request_line conf ms parse sch r line"
  defines "n \<equiv> ap_method_number_of ms m"
  shows "fst res \<longleftrightarrow> err2 = rrl_none \<and> (num = HTTP_VERSION 0 9 \<longrightarrow> http09_enable conf \<and> n = M_GET \<and> peek m \<noteq> CHR ''H'') \<and>
      (registered_methods conf \<longrightarrow> n \<noteq> M_INVALID) \<and> uri_ok ms parse m u"
    "fst res \<Longrightarrow> meth (snd res) = m \<and> unparsed_uri (snd res) = u \<and> protocol (snd res) = proto \<and> status (snd res) = HTTP_OK \<and>
      the_request (snd res) = m @ (if u = [] then [] else '' '' @ u @ (if p = [] then [] else '' '' @ p))"
    "\<not> fst res \<Longrightarrow> status (snd res) \<noteq> HTTP_OK \<and> HTTP_VERSION 1 0 \<le> proto_num (snd res)"
proof -
  define r1 where "r1 = fill_request r m u p n simple proto num"
  define r2 where "r2 = ap_parse_uri parse sch r1 u"
  have r1: "meth r1 = m" "protocol r1 = proto" "proto_num r1 = num" "method_number r1 = n" "status r1 = HTTP_OK"
    "header_only r1 \<longleftrightarrow> n = M_GET \<and> peek m = CHR ''H''"
    "the_request r1 = m @ (if u = [] then [] else '' '' @ u @ (if p = [] then [] else '' '' @ p))"
    using assms(2,3) by (simp_all add: r1_def fill_request_def)
  define err3 where "err3 = http09_error conf r2 err2"
  have res: "res = check_request conf err3 r2"
    unfolding res_def request_line_def assms(1) by (simp add: assms(1) sp rp Let_def n_def [symmetric] r1_def [symmetric]
        r2_def [symmetric] err3_def)
  have st: "status r2 = (if parse (n = M_CONNECT) (one_slash u) = None then HTTP_BAD_REQUEST else HTTP_OK)"
    by (simp add: r2_def r1)
  have e3: "err3 = rrl_none \<longleftrightarrow> err2 = rrl_none \<and> (num = HTTP_VERSION 0 9 \<longrightarrow> http09_enable conf \<and> n = M_GET \<and> peek m \<noteq> CHR ''H'')"
    by (auto simp: err3_def http09_error_def r2_def r1 assms(1))
  have codes: "HTTP_BAD_REQUEST \<noteq> HTTP_OK" "HTTP_NOT_IMPLEMENTED \<noteq> HTTP_OK" by (simp_all add: HTTP_NOT_IMPLEMENTED_def)
  have ok: "uri_ok ms parse m u \<longleftrightarrow> status r2 = HTTP_OK \<and>
      \<not> (fragment (parsed_uri r2) \<noteq> None \<or> user (parsed_uri r2) \<noteq> None \<or> password (parsed_uri r2) \<noteq> None)"
    using codes by (auto simp: uri_ok_def n_def [symmetric] st r2_def r1 split: option.split)
  show "fst res \<longleftrightarrow> err2 = rrl_none \<and> (num = HTTP_VERSION 0 9 \<longrightarrow> http09_enable conf \<and> n = M_GET \<and> peek m \<noteq> CHR ''H'') \<and>
      (registered_methods conf \<longrightarrow> n \<noteq> M_INVALID) \<and> uri_ok ms parse m u"
    unfolding res ok by (auto simp: check_request_def e3 assms(1) r2_def r1)
  show "fst res \<Longrightarrow> meth (snd res) = m \<and> unparsed_uri (snd res) = u \<and> protocol (snd res) = proto \<and> status (snd res) = HTTP_OK \<and>
      the_request (snd res) = m @ (if u = [] then [] else '' '' @ u @ (if p = [] then [] else '' '' @ p))"
    unfolding res check_request_def by (auto simp: r2_def r1 split: if_splits)
  have num: "num = HTTP_VERSION 0 9 \<or> HTTP_VERSION 1 0 \<le> num" "proto_num r2 = num" "method_number r2 = n"
    using read_protocol_num [OF rp] by (simp_all add: r2_def r1)
  have fail: "HTTP_VERSION 1 0 \<le> proto_num (snd (rrl_failed (r2\<lparr>status := x\<rparr>)))" "HTTP_VERSION 1 0 \<le> proto_num (snd (rrl_failed r2))" for x
    using num by (auto intro!: failed_frame(3) simp del: One_nat_def)
  have "HTTP_VERSION 1 0 \<le> num" if "err3 = rrl_none" "n = M_INVALID" using that e3 num by auto
  then show "\<not> fst res \<Longrightarrow> status (snd res) \<noteq> HTTP_OK \<and> HTTP_VERSION 1 0 \<le> proto_num (snd res)"
    unfolding res check_request_def using num codes fail by (auto simp del: One_nat_def split: if_splits)
qed

lemma strict_accepts:
  fixes ms parse sch
  assumes cs: "cstring line" and conf: "strict conf" and r: "status r = HTTP_OK" "\<not> header_only r"
  defines "res \<equiv> request_line conf ms parse sch r line"
  shows "fst res \<longleftrightarrow> (\<exists>m u p. strict_request conf ms parse line m u p)"
    "strict_request conf ms parse line m u p \<Longrightarrow>
       meth (snd res) = m \<and> unparsed_uri (snd res) = u \<and> protocol (snd res) = (if p = [] then ''HTTP/0.9'' else p) \<and>
       the_request (snd res) = m @ '' '' @ u @ (if p = [] then [] else '' '' @ p) \<and> status (snd res) = HTTP_OK"
    "\<not> fst res \<Longrightarrow> status (snd res) \<noteq> HTTP_OK \<and> HTTP_VERSION 1 0 \<le> proto_num (snd res)"
proof -
  obtain m0 u0 p0 err where sp: "split_request_line True line = (m0, u0, p0, err)" by (metis prod.collapse)
  obtain simple proto num err2 where rp: "read_protocol True p0 err = (simple, proto, num, err2)" by (metis prod.collapse)
  note rr = request_line_result [OF conf r sp rp, of ms parse sch, folded res_def]
  have split: "strict_request conf ms parse line m u p \<Longrightarrow> split_request_line True line = (m, u, p, rrl_none)" for m u p
    unfolding split_line_iff [OF cs] good_line_strict strict_request_def using http_protocol_word by blast
  have v09: "http_protocol p \<Longrightarrow> proto_version p \<noteq> HTTP_VERSION 0 9" for p
    using proto_version_bound by (simp add: http_protocol_iff)
  have proto: "err2 = rrl_none \<longleftrightarrow> err = rrl_none \<and> (http_protocol p0 \<and> proto = p0 \<and> num = proto_version p0 \<or>
      p0 = [] \<and> proto = ''HTTP/0.9'' \<and> num = HTTP_VERSION 0 9)"
    using rp unfolding http_protocol_iff by (auto simp: read_protocol_def defer_error_def split: if_splits)
  have ne: "\<not> http_protocol []" by (simp add: http_protocol_def)
  have acc: "fst res \<longleftrightarrow> strict_request conf ms parse line m0 u0 p0"
  proof (cases "err = rrl_none")
    case True
    then have "good_line True line m0 u0 p0" using sp split_line_iff [OF cs] by blast
    then have g: "word_of (method_char True) m0" "word_of uri_char u0"
      "word_of uri_char p0 \<and> line = m0 @ '' '' @ u0 @ '' '' @ p0 \<or> p0 = [] \<and> (line = m0 @ '' '' @ u0 \<or> line = m0 @ '' '' @ u0 @ '' '')"
      unfolding good_line_strict by blast+
    consider "http_protocol p0" | "p0 = []" | "\<not> http_protocol p0" "p0 \<noteq> []" by blast
    then show ?thesis
    proof cases
      case 1
      then have "p0 \<noteq> []" "proto = p0" "num = proto_version p0"
        using rp ne unfolding http_protocol_iff by (auto simp: read_protocol_def)
      then show ?thesis unfolding rr(1) proto strict_request_def using 1 g v09 [OF 1] True by metis
    next
      case 2
      then have "proto = ''HTTP/0.9''" "num = HTTP_VERSION 0 9" using rp by (simp_all add: read_protocol_def)
      then show ?thesis unfolding rr(1) proto strict_request_def using 2 g ne True by (simp add: word_of_def)
    next
      case 3
      then show ?thesis unfolding rr(1) proto strict_request_def by blast
    qed
  next
    case False
    then have "\<not> strict_request conf ms parse line m0 u0 p0" using split sp by auto
    then show ?thesis unfolding rr(1) proto using False by blast
  qed
  have uniq: "strict_request conf ms parse line m0 u0 p0" if "strict_request conf ms parse line m u p" for m u p
  proof -
    have "(m0, u0, p0, err) = (m, u, p, rrl_none)" using split [OF that] unfolding sp .
    then show ?thesis using that by simp
  qed
  show "fst res \<longleftrightarrow> (\<exists>m u p. strict_request conf ms parse line m u p)" unfolding acc using uniq by blast
  show "\<not> fst res \<Longrightarrow> status (snd res) \<noteq> HTTP_OK \<and> HTTP_VERSION 1 0 \<le> proto_num (snd res)" by (rule rr(3))
  assume s: "strict_request conf ms parse line m u p"
  then have eq: "m0 = m" "u0 = u" "p0 = p" "err = rrl_none" using split [OF s] sp by auto
  have "fst res" using acc s eq by simp
  moreover have "proto = (if p = [] then ''HTTP/0.9'' else p)"
    using \<open>fst res\<close> rr(1) proto eq ne by auto
  moreover have "u \<noteq> []" using s by (auto simp: strict_request_def word_of_def)
  ultimately show "meth (snd res) = m \<and> unparsed_uri (snd res) = u \<and> protocol (snd res) = (if p = [] then ''HTTP/0.9'' else p) \<and>
       the_request (snd res) = m @ '' '' @ u @ (if p = [] then [] else '' '' @ p) \<and> status (snd res) = HTTP_OK"
    using rr(2) eq by simp
qed

section \<open>Property\<close>

text \<open>
  C15: In strict mode \<open>read_request_line\<close> accepts, after at most ten blank lines, exactly the lines
  method SP uri SP HTTP/d.d with a method of token characters, a URI without blanks and controls and a version from 1.0 on (and, where
  HTTP/0.9 is enabled, GET SP uri, also with one blank at the end), if the method is known where that is required and the URI
  parses without a fragment or user information. It stores exactly those parts, and
  puts them together again in \<open>the_request\<close>. A rejected request has an error status and is answered as HTTP/1.0 or later.
\<close>

theorem read_request_line_strict:
  assumes "read_nonblank getline DEFAULT_LIMIT_BLANK_LINES s = (Inr line, s')"
    and "cstring line" "strict conf" "status r = HTTP_OK" "\<not> header_only r"
  shows "case read_request_line conf ms parse sch getline s r of ((ok, r'), s'') \<Rightarrow>
    s'' = s' \<and> (ok \<longleftrightarrow> (\<exists>m u p. strict_request conf ms parse line m u p)) \<and>
    (\<forall>m u p. strict_request conf ms parse line m u p \<longrightarrow>
       meth r' = m \<and> unparsed_uri r' = u \<and> protocol r' = (if p = [] then ''HTTP/0.9'' else p) \<and>
       the_request r' = m @ '' '' @ u @ (if p = [] then [] else '' '' @ p) \<and> status r' = HTTP_OK) \<and>
    (\<not> ok \<longrightarrow> status r' \<noteq> HTTP_OK \<and> HTTP_VERSION 1 0 \<le> proto_num r')"
proof -
  let ?res = "request_line conf ms parse sch r line"
  have "read_request_line conf ms parse sch getline s r = (?res, s')" by (simp add: read_request_line_def assms(1))
  then show ?thesis using strict_accepts [OF assms(2-5), where ms = ms and parse = parse and sch = sch]
    by (simp add: split_beta del: One_nat_def)
qed

definition no_uri :: apr_uri where
  "no_uri = \<lparr>scheme = None, uri_hostname = None, user = None, password = None, path = None, query = None, fragment = None\<rparr>"

definition fresh_request :: request where
  "fresh_request = \<lparr>the_request = [], meth = [], method_number = 0, header_only = False, protocol = [], proto_num = 0,
     assbackwards = False, unparsed_uri = [], uri = [], args = None, hostname = None, parsed_uri = no_uri, status = HTTP_OK,
     keepalive_close = False\<rparr>"

definition next_of :: "string list \<Rightarrow> (apr_status + string) \<times> string list" where
  "next_of ls = (case ls of [] \<Rightarrow> (Inl APR_EOF, []) | l # ls \<Rightarrow> (Inr l, ls))"

theorem read_request_line_strict_witness:
  "case read_request_line \<lparr>strict = True, http09_enable = False, registered_methods = True\<rparr> registry_start
     (\<lambda>connect s. Some (no_uri\<lparr>path := Some s\<rparr>)) ''http'' next_of [[], ''GET /x HTTP/1.1'', ''Host: a''] fresh_request of
     ((ok, r'), rest) \<Rightarrow> rest = [''Host: a''] \<and> ok \<and> meth r' = ''GET'' \<and> unparsed_uri r' = ''/x'' \<and> protocol r' = ''HTTP/1.1''"
proof -
  let ?conf = "\<lparr>strict = True, http09_enable = False, registered_methods = True\<rparr>"
  let ?parse = "\<lambda>connect s. Some (no_uri\<lparr>path := Some s\<rparr>)"
  have "list_all (method_char True) ''GET''" "list_all uri_char ''/x''"
    by (simp_all add: method_char_def uri_char_def TEST_CHAR_simps cclass)
  moreover have "http_protocol ''HTTP/1.1''" by (simp add: http_protocol_def cclass)
  moreover have "ap_method_number_of registry_start ''GET'' = M_GET"
    by (simp add: ap_method_number_of_def lookup_builtin_method_def keyword_def)
  ultimately have s: "strict_request ?conf registry_start ?parse ''GET /x HTTP/1.1'' ''GET'' ''/x'' ''HTTP/1.1''"
    by (simp add: strict_request_def word_of_def uri_ok_def no_uri_def)
  have "read_nonblank next_of DEFAULT_LIMIT_BLANK_LINES [[], ''GET /x HTTP/1.1'', ''Host: a''] = (Inr ''GET /x HTTP/1.1'', [''Host: a''])"
    by (simp add: DEFAULT_LIMIT_BLANK_LINES_def next_of_def numeral_eq_Suc)
  from read_request_line_strict [OF this, of ?conf fresh_request registry_start ?parse "''http''"] s
  show ?thesis by (fastforce simp: fresh_request_def split: prod.split)
qed

end
