(* ===== verification/Balancers.thy ===== *)
theory Balancers
  imports Prelude "HOL-Library.Product_Lexorder" "HOL-Library.Signed_Division"
begin

text \<open>
  The load balancing methods of the proxy (\<open>modules/proxy/balancers/mod_lbmethod_byrequests.c\<close>,
  \<open>mod_lbmethod_bytraffic.c\<close>, \<open>mod_lbmethod_bybusyness.c\<close>), with the status bits of a worker
  (\<open>modules/proxy/mod_proxy.h\<close>), the retry of a worker in error (\<open>ap_proxy_retry_worker\<close> of
  \<open>modules/proxy/proxy_util.c\<close>) and the initial load status (\<open>recalc_factors\<close> of
  \<open>modules/proxy/mod_proxy_balancer.c\<close>).

  The workers of a balancer are the list of their shared records. A candidate is the index of its
  worker. C's \<open>int\<close> and \<open>apr_off_t\<close> fields are integers; the last theorem bounds the values that
  the request counting method gives them. The three finders have the same loops in the source and
  differ in the statement for a usable worker, so the loops are written once over that statement.
  \<open>None\<close> is a division by zero, or loops that do not end; the theorems show that the result is
  \<open>Some\<close>.

  The interface of a method is the locale \<open>lb_method\<close>: the statement adds to the load status of
  the worker, and replaces the candidate when the key of the worker is smaller. What the loops
  select is proved once from that and holds for the three methods.
\<close>

unbundle bit_operations_syntax

section \<open>Workers\<close>

record proxy_worker_shared =
  lbset :: int
  retries :: int
  lbstatus :: int
  lbfactor :: int
  status :: "32 word"
  error_time :: int
  retry :: int
  elected :: "64 word"
  busy :: "64 word"
  transferred :: int
  read :: int

abbreviation (input) "PROXY_WORKER_INITIALIZED \<equiv> 0x0001 :: 32 word"
abbreviation (input) "PROXY_WORKER_IGNORE_ERRORS \<equiv> 0x0002 :: 32 word"
abbreviation (input) "PROXY_WORKER_DRAIN \<equiv> 0x0004 :: 32 word"
abbreviation (input) "PROXY_WORKER_IN_SHUTDOWN \<equiv> 0x0010 :: 32 word"
abbreviation (input) "PROXY_WORKER_DISABLED \<equiv> 0x0020 :: 32 word"
abbreviation (input) "PROXY_WORKER_STOPPED \<equiv> 0x0040 :: 32 word"
abbreviation (input) "PROXY_WORKER_IN_ERROR \<equiv> 0x0080 :: 32 word"
abbreviation (input) "PROXY_WORKER_HOT_STANDBY \<equiv> 0x0100 :: 32 word"
abbreviation (input) "PROXY_WORKER_HC_FAIL \<equiv> 0x0400 :: 32 word"

definition PROXY_WORKER_NOT_USABLE_BITMAP :: "32 word" where
  "PROXY_WORKER_NOT_USABLE_BITMAP = PROXY_WORKER_IN_SHUTDOWN OR PROXY_WORKER_DISABLED
    OR PROXY_WORKER_STOPPED OR PROXY_WORKER_IN_ERROR OR PROXY_WORKER_HC_FAIL"

definition PROXY_WORKER_IS :: "proxy_worker_shared \<Rightarrow> 32 word \<Rightarrow> bool" where
  "PROXY_WORKER_IS f b \<longleftrightarrow> status f AND b \<noteq> 0"

definition PROXY_WORKER_IS_INITIALIZED :: "proxy_worker_shared \<Rightarrow> bool" where
  "PROXY_WORKER_IS_INITIALIZED f \<longleftrightarrow> status f AND PROXY_WORKER_INITIALIZED \<noteq> 0"

definition PROXY_WORKER_IS_STANDBY :: "proxy_worker_shared \<Rightarrow> bool" where
  "PROXY_WORKER_IS_STANDBY f \<longleftrightarrow> status f AND PROXY_WORKER_HOT_STANDBY \<noteq> 0"

definition PROXY_WORKER_IS_USABLE :: "proxy_worker_shared \<Rightarrow> bool" where
  "PROXY_WORKER_IS_USABLE f \<longleftrightarrow>
    status f AND PROXY_WORKER_NOT_USABLE_BITMAP = 0 \<and> PROXY_WORKER_IS_INITIALIZED f"

definition PROXY_WORKER_IS_DRAINING :: "proxy_worker_shared \<Rightarrow> bool" where
  "PROXY_WORKER_IS_DRAINING f \<longleftrightarrow> status f AND PROXY_WORKER_DRAIN \<noteq> 0"

text \<open>\<open>ap_proxy_retry_worker\<close>; \<open>now\<close> is what \<open>apr_time_now()\<close> returns. The callers below ignore
  the value \<open>OK\<close> or \<open>DECLINED\<close>.\<close>

definition ap_proxy_retry_worker ::
  "int \<Rightarrow> proxy_worker_shared \<Rightarrow> int \<times> proxy_worker_shared" where
  "ap_proxy_retry_worker now w =
    (if PROXY_WORKER_IS w PROXY_WORKER_IN_ERROR then
       if PROXY_WORKER_IS w PROXY_WORKER_STOPPED then (DECLINED, w)
       else if PROXY_WORKER_IS w PROXY_WORKER_IGNORE_ERRORS \<or> now > error_time w + retry w then
         (OK, w\<lparr>retries := retries w + 1, status := status w AND NOT PROXY_WORKER_IN_ERROR\<rparr>)
       else (DECLINED, w)
     else (OK, w))"

section \<open>The loops of the finders\<close>

text \<open>The locals of a finder that the loops change. \<open>total_factor\<close> is used by the methods that
  count, \<open>curmin\<close> by the one on traffic.\<close>

record pick =
  elts :: "proxy_worker_shared list"
  mycandidate :: "nat option"
  total_factor :: int
  curmin :: int
  max_lbset :: int

definition pick_init :: "proxy_worker_shared list \<Rightarrow> pick" where
  "pick_init ws = \<lparr>elts = ws, mycandidate = None, total_factor = 0, curmin = 0, max_lbset = 0\<rparr>"

text \<open>One turn of the loop over the workers. \<open>weigh i\<close> is the statement for a usable worker;
  \<open>clock i\<close> is the time at which worker \<open>i\<close> is looked at, which happens at most once in a call.\<close>

definition note_lbset :: "bool \<Rightarrow> proxy_worker_shared \<Rightarrow> pick \<Rightarrow> pick" where
  "note_lbset checking_standby w p =
    (if \<not> checking_standby \<and> lbset w > max_lbset p then p\<lparr>max_lbset := lbset w\<rparr> else p)"

definition lb_turn :: "(nat \<Rightarrow> pick \<Rightarrow> pick option) \<Rightarrow> (nat \<Rightarrow> int) \<Rightarrow> int \<Rightarrow> bool \<Rightarrow> nat \<Rightarrow> pick \<Rightarrow> pick option" where
  "lb_turn weigh clock cur_lbset checking_standby i p =
    (let w = elts p ! i;
         p = note_lbset checking_standby w p in
     if lbset w \<noteq> cur_lbset
        \<or> (if checking_standby then \<not> PROXY_WORKER_IS_STANDBY w else PROXY_WORKER_IS_STANDBY w)
        \<or> PROXY_WORKER_IS_DRAINING w then Some p
     else
       let p = (if \<not> PROXY_WORKER_IS_USABLE w
                then p\<lparr>elts := (elts p)[i := snd (ap_proxy_retry_worker (clock i) w)]\<rparr> else p) in
       if PROXY_WORKER_IS_USABLE (elts p ! i) then weigh i p else Some p)"

primrec lb_scan :: "(nat \<Rightarrow> pick \<Rightarrow> pick option) \<Rightarrow> (nat \<Rightarrow> int) \<Rightarrow> int \<Rightarrow> bool \<Rightarrow> nat list \<Rightarrow> pick \<Rightarrow> pick option" where
  "lb_scan weigh clock cur_lbset checking_standby [] p = Some p"
| "lb_scan weigh clock cur_lbset checking_standby (i # is) p =
    Option.bind (lb_turn weigh clock cur_lbset checking_standby i p)
      (lb_scan weigh clock cur_lbset checking_standby is)"

definition lb_pass :: "(nat \<Rightarrow> pick \<Rightarrow> pick option) \<Rightarrow> (nat \<Rightarrow> int) \<Rightarrow> int \<Rightarrow> bool \<Rightarrow> pick \<Rightarrow> pick option" where
  "lb_pass weigh clock cur_lbset checking_standby p =
    lb_scan weigh clock cur_lbset checking_standby [0..<length (elts p)] p"

text \<open>The loop over \<open>checked_standby\<close> runs the pass for the other workers and, when there is no
  candidate yet, the one for the hot standbys: \<open>checked_standby\<close> is set after the second.\<close>

definition lb_set :: "(nat \<Rightarrow> pick \<Rightarrow> pick option) \<Rightarrow> (nat \<Rightarrow> int) \<Rightarrow> int \<Rightarrow> pick \<Rightarrow> pick option" where
  "lb_set weigh clock cur_lbset p =
    Option.bind (lb_pass weigh clock cur_lbset False p)
      (\<lambda>p. if mycandidate p = None then lb_pass weigh clock cur_lbset True p else Some p)"

partial_function (option) lb_search ::
  "(nat \<Rightarrow> pick \<Rightarrow> pick option) \<Rightarrow> (nat \<Rightarrow> int) \<Rightarrow> int \<Rightarrow> pick \<Rightarrow> pick option" where
  [code]: "lb_search weigh clock cur_lbset p =
    Option.bind (lb_set weigh clock cur_lbset p)
      (\<lambda>p. if cur_lbset + 1 \<le> max_lbset p \<and> mycandidate p = None
           then lb_search weigh clock (cur_lbset + 1) p else Some p)"

section \<open>The three methods\<close>

definition add_factor :: "nat \<Rightarrow> pick \<Rightarrow> pick" where
  "add_factor i p = (let w = elts p ! i in
     p\<lparr>elts := (elts p)[i := w\<lparr>lbstatus := lbstatus w + lbfactor w\<rparr>],
       total_factor := total_factor p + lbfactor w\<rparr>)"

definition weigh_byrequests :: "nat \<Rightarrow> pick \<Rightarrow> pick option" where
  "weigh_byrequests i p =
    (let p = add_factor i p in
     Some (if (case mycandidate p of None \<Rightarrow> True
               | Some c \<Rightarrow> lbstatus (elts p ! i) > lbstatus (elts p ! c))
           then p\<lparr>mycandidate := Some i\<rparr> else p))"

definition weigh_bybusyness :: "nat \<Rightarrow> pick \<Rightarrow> pick option" where
  "weigh_bybusyness i p =
    (let p = add_factor i p in
     Some (if (case mycandidate p of None \<Rightarrow> True
               | Some c \<Rightarrow> busy (elts p ! i) < busy (elts p ! c)
                   \<or> (busy (elts p ! i) = busy (elts p ! c) \<and> lbstatus (elts p ! i) > lbstatus (elts p ! c)))
           then p\<lparr>mycandidate := Some i\<rparr> else p))"

text \<open>C's division, which truncates and traps on zero.\<close>

definition c_div :: "int \<Rightarrow> int \<Rightarrow> int option" where
  "c_div a b = (if b = 0 then None else Some (a sdiv b))"

definition weigh_bytraffic :: "nat \<Rightarrow> pick \<Rightarrow> pick option" where
  "weigh_bytraffic i p =
    (let w = elts p ! i in
     Option.bind (c_div (transferred w) (lbfactor w)) (\<lambda>t.
     Option.bind (c_div (read w) (lbfactor w)) (\<lambda>r.
       let mytraffic = t + r in
       Some (if mycandidate p = None \<or> mytraffic < curmin p
             then p\<lparr>mycandidate := Some i, curmin := mytraffic\<rparr> else p))))"

definition charge :: "pick \<Rightarrow> nat option \<times> proxy_worker_shared list" where
  "charge p =
    (case mycandidate p of
       None \<Rightarrow> (None, elts p)
     | Some c \<Rightarrow> (Some c, (elts p)[c := (elts p ! c)\<lparr>lbstatus := lbstatus (elts p ! c) - total_factor p\<rparr>]))"

text \<open>\<open>loaded\<close>: the optional function \<open>ap_proxy_retry_worker\<close> is there.\<close>

definition find_best_byrequests ::
  "bool \<Rightarrow> (nat \<Rightarrow> int) \<Rightarrow> proxy_worker_shared list \<Rightarrow> (nat option \<times> proxy_worker_shared list) option" where
  "find_best_byrequests loaded clock ws =
    (if \<not> loaded then Some (None, ws)
     else map_option charge (lb_search weigh_byrequests clock 0 (pick_init ws)))"

definition find_best_bybusyness ::
  "bool \<Rightarrow> (nat \<Rightarrow> int) \<Rightarrow> proxy_worker_shared list \<Rightarrow> (nat option \<times> proxy_worker_shared list) option" where
  "find_best_bybusyness loaded clock ws =
    (if \<not> loaded then Some (None, ws)
     else map_option charge (lb_search weigh_bybusyness clock 0 (pick_init ws)))"

definition find_best_bytraffic ::
  "bool \<Rightarrow> (nat \<Rightarrow> int) \<Rightarrow> proxy_worker_shared list \<Rightarrow> (nat option \<times> proxy_worker_shared list) option" where
  "find_best_bytraffic loaded clock ws =
    (if \<not> loaded then Some (None, ws)
     else map_option (\<lambda>p. (mycandidate p, elts p)) (lb_search weigh_bytraffic clock 0 (pick_init ws)))"

definition reset_byrequests :: "proxy_worker_shared list \<Rightarrow> proxy_worker_shared list" where
  "reset_byrequests = map (\<lambda>w. w\<lparr>lbstatus := 0\<rparr>)"

definition reset_bybusyness :: "proxy_worker_shared list \<Rightarrow> proxy_worker_shared list" where
  "reset_bybusyness = map (\<lambda>w. w\<lparr>lbstatus := 0, busy := 0\<rparr>)"

definition reset_bytraffic :: "proxy_worker_shared list \<Rightarrow> proxy_worker_shared list" where
  "reset_bytraffic = map (\<lambda>w. w\<lparr>lbstatus := 0, busy := 0, transferred := 0, read := 0\<rparr>)"

text \<open>The provider tables of the three modules.\<close>

datatype lbmethod = byrequests | bybusyness | bytraffic

definition finder ::
  "lbmethod \<Rightarrow> bool \<Rightarrow> (nat \<Rightarrow> int) \<Rightarrow> proxy_worker_shared list \<Rightarrow> (nat option \<times> proxy_worker_shared list) option" where
  "finder lb = (case lb of byrequests \<Rightarrow> find_best_byrequests
                | bybusyness \<Rightarrow> find_best_bybusyness | bytraffic \<Rightarrow> find_best_bytraffic)"

definition reset :: "lbmethod \<Rightarrow> proxy_worker_shared list \<Rightarrow> proxy_worker_shared list" where
  "reset lb = (case lb of byrequests \<Rightarrow> reset_byrequests
               | bybusyness \<Rightarrow> reset_bybusyness | bytraffic \<Rightarrow> reset_bytraffic)"

definition recalc_factors :: "proxy_worker_shared list \<Rightarrow> proxy_worker_shared list" where
  "recalc_factors ws =
    (if length ws = 1 then ws[0 := (ws ! 0)\<lparr>lbstatus := 1, lbfactor := 1\<rparr>]
     else map (\<lambda>w. w\<lparr>lbstatus := lbfactor w\<rparr>) ws)"

section \<open>Candidates\<close>

text \<open>The first of the least elements of a set of indices, and none when it is empty.\<close>

definition first_min :: "(nat \<Rightarrow> 'a::linorder) \<Rightarrow> nat set \<Rightarrow> nat option \<Rightarrow> bool" where
  "first_min k A c \<longleftrightarrow>
    (case c of None \<Rightarrow> A = {}
     | Some i \<Rightarrow> i \<in> A \<and> (\<forall>j\<in>A. k i \<le> k j \<and> (j < i \<longrightarrow> k i < k j)))"

lemma first_min_empty [simp]: "first_min k {} None"
  by (simp add: first_min_def)

lemma first_min_insert:
  assumes "first_min k A c" and "\<And>j. j \<in> A \<Longrightarrow> j < i"
  shows "first_min k (insert i A) (if c = None \<or> k i < k (the c) then Some i else c)"
proof (cases c)
  case None
  then show ?thesis using assms(1) by (auto simp: first_min_def)
next
  case (Some m)
  then have m: "m \<in> A" "\<And>j. j \<in> A \<Longrightarrow> k m \<le> k j" "\<And>j. j \<in> A \<Longrightarrow> j < m \<Longrightarrow> k m < k j"
    using assms(1) by (auto simp: first_min_def)
  show ?thesis
  proof (cases "k i < k m")
    case True
    then have "k i < k j" if "j \<in> A" for j using m(2) [OF that] by simp
    then show ?thesis using True Some by (auto simp: first_min_def intro: less_imp_le)
  next
    case False
    then show ?thesis using Some m assms(2) [OF m(1)] by (auto simp: first_min_def not_less)
  qed
qed

section \<open>Which workers can be chosen\<close>

text \<open>A worker as it is after the retry that is tried when it is not usable; whether it can be
  chosen; and the pass in which it is looked at.\<close>

definition revived :: "int \<Rightarrow> proxy_worker_shared \<Rightarrow> proxy_worker_shared" where
  "revived now w = (if PROXY_WORKER_IS_USABLE w then w else snd (ap_proxy_retry_worker now w))"

definition available :: "int \<Rightarrow> proxy_worker_shared \<Rightarrow> bool" where
  "available now w \<longleftrightarrow> \<not> PROXY_WORKER_IS_DRAINING w \<and> PROXY_WORKER_IS_USABLE (revived now w)"

definition lb_group :: "proxy_worker_shared \<Rightarrow> int \<times> int" where
  "lb_group w = (lbset w, if PROXY_WORKER_IS_STANDBY w then 1 else 0)"

lemma revived_fields [simp]:
  "lbset (revived now w) = lbset w" "lbstatus (revived now w) = lbstatus w"
  "lbfactor (revived now w) = lbfactor w" "busy (revived now w) = busy w"
  "transferred (revived now w) = transferred w" "read (revived now w) = read w"
  "PROXY_WORKER_IS_STANDBY (revived now w) = PROXY_WORKER_IS_STANDBY w"
  "PROXY_WORKER_IS_DRAINING (revived now w) = PROXY_WORKER_IS_DRAINING w"
  by (simp_all add: revived_def ap_proxy_retry_worker_def PROXY_WORKER_IS_STANDBY_def
      PROXY_WORKER_IS_DRAINING_def and.assoc)

lemma lb_group_revived [simp]: "lb_group (revived now w) = lb_group w"
  by (simp add: lb_group_def)

lemma available_usable: "PROXY_WORKER_IS_USABLE w \<Longrightarrow> available now w \<longleftrightarrow> \<not> PROXY_WORKER_IS_DRAINING w"
  by (simp add: available_def revived_def)

lemma revived_usable: "PROXY_WORKER_IS_USABLE w \<Longrightarrow> revived now w = w"
  by (simp add: revived_def)

lemma note_lbset_fields [simp]:
  "elts (note_lbset st w p) = elts p" "mycandidate (note_lbset st w p) = mycandidate p"
  "total_factor (note_lbset st w p) = total_factor p"
  "max_lbset (note_lbset st w p) = (if st then max_lbset p else max (max_lbset p) (lbset w))"
  by (simp_all add: note_lbset_def max_def)

lemma lb_turn_skip:
  assumes "lb_group (elts p ! i) \<noteq> (cur, if st then 1 else 0) \<or> PROXY_WORKER_IS_DRAINING (elts p ! i)"
  shows "lb_turn weigh clock cur st i p = Some (note_lbset st (elts p ! i) p)"
  using assms by (auto simp: lb_turn_def Let_def lb_group_def split: if_splits)

lemma lb_turn_look:
  assumes "lb_group (elts p ! i) = (cur, if st then 1 else 0)" and "\<not> PROXY_WORKER_IS_DRAINING (elts p ! i)"
    and "i < length (elts p)"
  shows "lb_turn weigh clock cur st i p =
    (let q = (note_lbset st (elts p ! i) p)\<lparr>elts := (elts p)[i := revived (clock i) (elts p ! i)]\<rparr> in
     if available (clock i) (elts p ! i) then weigh i q else Some q)"
proof -
  have same: "(note_lbset b w p)\<lparr>elts := elts p\<rparr> = note_lbset b w p" for b w
    by (simp add: note_lbset_def)
  show ?thesis
    using assms
    by (cases st) (auto simp: same lb_turn_def Let_def lb_group_def available_def revived_def split: if_splits)
qed

section \<open>The contract of a method\<close>

locale lb_method =
  fixes weigh :: "nat \<Rightarrow> pick \<Rightarrow> pick option"
    and bump :: "proxy_worker_shared \<Rightarrow> proxy_worker_shared"
    and weight :: "proxy_worker_shared \<Rightarrow> int"
    and key :: "proxy_worker_shared \<Rightarrow> int \<times> int"
    and kept :: "pick \<Rightarrow> int \<times> int"
  assumes weigh_step:
    "i < length (elts p) \<Longrightarrow> 0 < lbfactor (elts p ! i) \<Longrightarrow> mycandidate p \<noteq> Some i \<Longrightarrow>
     \<exists>p'. weigh i p = Some p' \<and> elts p' = (elts p)[i := bump (elts p ! i)] \<and>
       total_factor p' = total_factor p + weight (elts p ! i) \<and> max_lbset p' = max_lbset p \<and>
       (if mycandidate p = None \<or> key (elts p ! i) < kept p
        then mycandidate p' = Some i \<and> kept p' = key (elts p ! i)
        else mycandidate p' = mycandidate p \<and> kept p' = kept p)"
    and kept_frame: "mycandidate p = Some c \<Longrightarrow> i \<noteq> c \<Longrightarrow> kept (p\<lparr>elts := (elts p)[i := w]\<rparr>) = kept p"
    and kept_max: "kept (p\<lparr>max_lbset := s\<rparr>) = kept p"
    and bump_lbset: "lbset (bump w) = lbset w"
    and bump_status: "status (bump w) = status w"
    and revived_key: "key (revived now w) = key w"
    and revived_weight: "weight (revived now w) = weight w"
begin

text \<open>What a finder leaves of a worker of a set that it has gone through.\<close>

definition touched :: "int \<Rightarrow> proxy_worker_shared \<Rightarrow> proxy_worker_shared" where
  "touched now w =
    (if PROXY_WORKER_IS_DRAINING w then w
     else if available now w then bump (revived now w) else revived now w)"

lemma lb_group_bump: "lb_group (bump w) = lb_group w"
  by (simp add: lb_group_def bump_lbset PROXY_WORKER_IS_STANDBY_def bump_status)

lemma lb_group_touched: "lb_group (touched now w) = lb_group w"
  by (simp add: touched_def lb_group_bump)

definition chosen_from :: "(nat \<Rightarrow> int) \<Rightarrow> proxy_worker_shared list \<Rightarrow> int \<times> int \<Rightarrow> nat \<Rightarrow> nat set" where
  "chosen_from clock ws g k = {j. j < k \<and> lb_group (ws ! j) = g \<and> available (clock j) (ws ! j)}"

lemma chosen_from_Suc:
  "chosen_from clock ws g (Suc k) =
    (if lb_group (ws ! k) = g \<and> available (clock k) (ws ! k) then insert k (chosen_from clock ws g k)
     else chosen_from clock ws g k)"
  by (auto simp: chosen_from_def less_Suc_eq)

lemma chosen_from_less: "j \<in> chosen_from clock ws g k \<Longrightarrow> j < k"
  by (simp add: chosen_from_def)

lemma finite_chosen_from [simp]: "finite (chosen_from clock ws g k)"
  by (simp add: chosen_from_def)

text \<open>The state of a pass over the set \<open>g\<close> that started in \<open>p0\<close>, after \<open>k\<close> workers.\<close>

definition pass_inv ::
  "(nat \<Rightarrow> int) \<Rightarrow> proxy_worker_shared list \<Rightarrow> int \<times> int \<Rightarrow> pick \<Rightarrow> nat \<Rightarrow> pick \<Rightarrow> bool" where
  "pass_inv clock ws g p0 k p \<longleftrightarrow>
    length (elts p) = length ws \<and>
    (\<forall>j<length ws. elts p ! j =
       (if j < k \<and> lb_group (ws ! j) = g then touched (clock j) (ws ! j) else elts p0 ! j)) \<and>
    total_factor p = (\<Sum>j\<in>chosen_from clock ws g k. weight (ws ! j)) \<and>
    first_min (\<lambda>j. key (ws ! j)) (chosen_from clock ws g k) (mycandidate p) \<and>
    (\<forall>c. mycandidate p = Some c \<longrightarrow> kept p = key (ws ! c)) \<and>
    max_lbset p = (if snd g = 1 then max_lbset p0
                   else Max (insert (max_lbset p0) ((\<lambda>j. lbset (ws ! j)) ` {..<k})))"

definition pass_start :: "proxy_worker_shared list \<Rightarrow> int \<times> int \<Rightarrow> pick \<Rightarrow> bool" where
  "pass_start ws g p \<longleftrightarrow>
    length (elts p) = length ws \<and> mycandidate p = None \<and> total_factor p = 0 \<and>
    (\<forall>j<length ws. lb_group (elts p ! j) = lb_group (ws ! j) \<and>
       (lb_group (ws ! j) = g \<longrightarrow> elts p ! j = ws ! j))"

lemma pass_inv_0: "pass_start ws g p \<Longrightarrow> pass_inv clock ws g p 0 p"
  by (simp add: pass_inv_def pass_start_def chosen_from_def)

lemma kept_note: "kept (note_lbset st w p) = kept p"
  by (simp add: note_lbset_def kept_max)

lemma max_Suc:
  "Max (insert m ((\<lambda>j. f j) ` {..<Suc k})) = max (Max (insert m (f ` {..<k}))) (f k :: int)"
  by (simp add: lessThan_Suc insert_commute [of m] max.commute)

lemma pass_turn_skip:
  assumes "pass_start ws (cur, if st then 1 else 0) p0" and "pass_inv clock ws (cur, if st then 1 else 0) p0 k p"
    and "k < length ws" and "lb_group (ws ! k) \<noteq> (cur, if st then 1 else 0) \<or> PROXY_WORKER_IS_DRAINING (ws ! k)"
  shows "lb_turn weigh clock cur st k p = Some (note_lbset st (elts p ! k) p) \<and>
    pass_inv clock ws (cur, if st then 1 else 0) p0 (Suc k) (note_lbset st (elts p ! k) p)"
proof -
  let ?g = "(cur, if st then 1 else 0)"
  have pk: "elts p ! k = elts p0 ! k" and gk: "lb_group (elts p ! k) = lb_group (ws ! k)"
    and same: "lb_group (ws ! k) = ?g \<Longrightarrow> elts p ! k = ws ! k"
    using assms(1-3) by (auto simp: pass_inv_def pass_start_def)
  have "lb_turn weigh clock cur st k p = Some (note_lbset st (elts p ! k) p)"
    using assms(4) gk same by (intro lb_turn_skip) auto
  moreover have "chosen_from clock ws ?g (Suc k) = chosen_from clock ws ?g k"
    using assms(4) by (auto simp: chosen_from_Suc available_def)
  moreover have "touched (clock k) (ws ! k) = elts p0 ! k" if "lb_group (ws ! k) = ?g"
    using that assms(4) same pk by (simp add: touched_def)
  moreover have "lbset (elts p ! k) = lbset (ws ! k)" using gk by (simp add: lb_group_def)
  ultimately show ?thesis
    using assms(2) by (auto simp: pass_inv_def kept_note max_Suc less_Suc_eq)
qed

lemma weigh_at:
  assumes "k < length (elts q)" and "0 < lbfactor w" and "elts q ! k = revived now w"
    and "mycandidate q \<noteq> Some k"
  shows "\<exists>s. weigh k q = Some s \<and> elts s = (elts q)[k := bump (revived now w)] \<and>
    total_factor s = total_factor q + weight w \<and> max_lbset s = max_lbset q \<and>
    (if mycandidate q = None \<or> key w < kept q then mycandidate s = Some k \<and> kept s = key w
     else mycandidate s = mycandidate q \<and> kept s = kept q)"
  using weigh_step [of k q, unfolded assms(3) revived_key revived_weight revived_fields] assms(1,2,4)
  by blast

lemma pass_turn_look:
  assumes "pass_start ws (cur, if st then 1 else 0) p0" and "pass_inv clock ws (cur, if st then 1 else 0) p0 k p"
    and "k < length ws" and "lb_group (ws ! k) = (cur, if st then 1 else 0)"
    and "\<not> PROXY_WORKER_IS_DRAINING (ws ! k)" and "0 < lbfactor (ws ! k)"
  shows "\<exists>q. lb_turn weigh clock cur st k p = Some q \<and> pass_inv clock ws (cur, if st then 1 else 0) p0 (Suc k) q"
proof -
  let ?g = "(cur, if st then 1 else 0)" and ?r = "revived (clock k) (ws ! k)"
  define q where "q = (note_lbset st (elts p ! k) p)\<lparr>elts := (elts p)[k := ?r]\<rparr>"
  have len: "length (elts p) = length ws" and pk: "elts p ! k = ws ! k"
    and others: "\<And>j. j < length ws \<Longrightarrow> elts p ! j =
       (if j < k \<and> lb_group (ws ! j) = ?g then touched (clock j) (ws ! j) else elts p0 ! j)"
    and fm: "first_min (\<lambda>j. key (ws ! j)) (chosen_from clock ws ?g k) (mycandidate p)"
    and kp: "\<And>c. mycandidate p = Some c \<Longrightarrow> kept p = key (ws ! c)"
    and tot: "total_factor p = (\<Sum>j\<in>chosen_from clock ws ?g k. weight (ws ! j))"
    and mx: "max_lbset p = (if st then max_lbset p0
                   else Max (insert (max_lbset p0) ((\<lambda>j. lbset (ws ! j)) ` {..<k})))"
    using assms(1-4) by (auto simp: pass_inv_def pass_start_def split: if_splits)
  have c_less: "c < k" if "mycandidate p = Some c" for c
    using fm that by (auto simp: first_min_def dest: chosen_from_less)
  have kept_q: "kept q = kept p" if "mycandidate p = Some c" for c
    using kept_frame [of "note_lbset st (elts p ! k) p" c k ?r] c_less [OF that] that
    by (simp add: q_def kept_note)
  have max_q: "max_lbset q = (if st then max_lbset p0
      else Max (insert (max_lbset p0) ((\<lambda>j. lbset (ws ! j)) ` {..<Suc k})))"
    using mx pk by (simp add: q_def max_Suc)
  have turn: "lb_turn weigh clock cur st k p = (if available (clock k) (ws ! k) then weigh k q else Some q)"
    using lb_turn_look [of p k cur st weigh clock] assms(3-5) len pk by (simp add: q_def Let_def)
  show ?thesis
  proof (cases "available (clock k) (ws ! k)")
    case False
    then have "chosen_from clock ws ?g (Suc k) = chosen_from clock ws ?g k"
      by (simp add: chosen_from_Suc)
    moreover have "touched (clock k) (ws ! k) = ?r" using False assms(5) by (simp add: touched_def)
    moreover have "elts q = (elts p)[k := ?r]" "mycandidate q = mycandidate p" "total_factor q = total_factor p"
      by (simp_all add: q_def)
    ultimately have "pass_inv clock ws ?g p0 (Suc k) q"
      using len others fm kp kept_q tot max_q assms(3,4)
      unfolding pass_inv_def by (auto simp: nth_list_update less_Suc_eq)
    then show ?thesis using turn False by simp
  next
    case True
    then have cf: "chosen_from clock ws ?g (Suc k) = insert k (chosen_from clock ws ?g k)"
      and fresh: "k \<notin> chosen_from clock ws ?g k"
      using assms(4) by (auto simp: chosen_from_Suc dest: chosen_from_less)
    have tk: "touched (clock k) (ws ! k) = bump ?r" using True assms(5) by (simp add: touched_def)
    have qk: "elts q = (elts p)[k := ?r]" "elts q ! k = ?r" "k < length (elts q)"
      "mycandidate q = mycandidate p" "total_factor q = total_factor p"
      using assms(3) len by (simp_all add: q_def)
    obtain s where s: "weigh k q = Some s" "elts s = (elts p)[k := bump ?r]"
      "total_factor s = total_factor p + weight (ws ! k)" "max_lbset s = max_lbset q"
      "if mycandidate p = None \<or> key (ws ! k) < kept q
        then mycandidate s = Some k \<and> kept s = key (ws ! k)
        else mycandidate s = mycandidate p \<and> kept s = kept q"
      using weigh_at [OF qk(3) assms(6) qk(2), unfolded qk(1,4,5) list_update_overwrite] c_less
      by blast
    have cand: "mycandidate s = (if mycandidate p = None \<or> key (ws ! k) < key (ws ! the (mycandidate p))
        then Some k else mycandidate p)"
      using s(5) kept_q kp by (cases "mycandidate p") (auto split: if_splits)
    have "first_min (\<lambda>j. key (ws ! j)) (chosen_from clock ws ?g (Suc k)) (mycandidate s)"
      unfolding cf cand by (rule first_min_insert [OF fm chosen_from_less])
    moreover have "\<forall>c. mycandidate s = Some c \<longrightarrow> kept s = key (ws ! c)"
      using s(5) kept_q kp by (cases "mycandidate p") (auto split: if_splits)
    ultimately have "pass_inv clock ws ?g p0 (Suc k) s"
      using len others tot max_q s(2-4) assms(3,4) fresh tk
      unfolding pass_inv_def cf by (auto simp: nth_list_update less_Suc_eq)
    then show ?thesis using turn True s(1) by simp
  qed
qed

lemma lb_scan_append:
  "lb_scan w c cur st (xs @ ys) p = Option.bind (lb_scan w c cur st xs p) (lb_scan w c cur st ys)"
  by (induction xs arbitrary: p) (auto split: bind_splits)

lemma scan_pass:
  assumes "pass_start ws (cur, if st then 1 else 0) p0" and "\<And>j. j < length ws \<Longrightarrow> 0 < lbfactor (ws ! j)"
    and "k \<le> length ws"
  shows "\<exists>p. lb_scan weigh clock cur st [0..<k] p0 = Some p \<and>
    pass_inv clock ws (cur, if st then 1 else 0) p0 k p"
  using assms(3)
proof (induction k)
  case 0
  then show ?case using pass_inv_0 [OF assms(1)] by simp
next
  case (Suc k)
  then obtain p where p: "lb_scan weigh clock cur st [0..<k] p0 = Some p"
    "pass_inv clock ws (cur, if st then 1 else 0) p0 k p" by auto
  then have step: "lb_scan weigh clock cur st [0..<Suc k] p0 = lb_turn weigh clock cur st k p"
    by (auto simp: lb_scan_append split: bind_splits)
  have k: "k < length ws" using Suc.prems by simp
  show ?case
  proof (cases "lb_group (ws ! k) \<noteq> (cur, if st then 1 else 0) \<or> PROXY_WORKER_IS_DRAINING (ws ! k)")
    case True
    then show ?thesis using pass_turn_skip [OF assms(1) p(2) k] step by metis
  next
    case False
    then show ?thesis using pass_turn_look [OF assms(1) p(2) k _ _ assms(2) [OF k]] step by metis
  qed
qed

lemma pass_ends:
  assumes "pass_start ws (cur, if st then 1 else 0) p0" and "\<And>j. j < length ws \<Longrightarrow> 0 < lbfactor (ws ! j)"
  shows "\<exists>p. lb_pass weigh clock cur st p0 = Some p \<and>
    pass_inv clock ws (cur, if st then 1 else 0) p0 (length ws) p"
  using scan_pass [OF assms order_refl] assms(1) by (simp add: lb_pass_def pass_start_def)

text \<open>Between two passes: the sets below \<open>g\<close> have no worker that can be chosen. And at the end.\<close>

definition search_inv :: "(nat \<Rightarrow> int) \<Rightarrow> proxy_worker_shared list \<Rightarrow> int \<times> int \<Rightarrow> pick \<Rightarrow> bool" where
  "search_inv clock ws g p \<longleftrightarrow>
    length (elts p) = length ws \<and> mycandidate p = None \<and> total_factor p = 0 \<and>
    (\<forall>j<length ws. if lb_group (ws ! j) < g
       then \<not> available (clock j) (ws ! j) \<and> elts p ! j = touched (clock j) (ws ! j)
       else elts p ! j = ws ! j)"

definition found :: "(nat \<Rightarrow> int) \<Rightarrow> proxy_worker_shared list \<Rightarrow> pick \<Rightarrow> nat \<Rightarrow> bool" where
  "found clock ws p c \<longleftrightarrow>
    mycandidate p = Some c \<and> length (elts p) = length ws \<and>
    first_min (\<lambda>j. (lb_group (ws ! j), key (ws ! j))) {j. j < length ws \<and> available (clock j) (ws ! j)} (Some c) \<and>
    total_factor p = (\<Sum>j\<in>chosen_from clock ws (lb_group (ws ! c)) (length ws). weight (ws ! j)) \<and>
    (\<forall>j<length ws. elts p ! j =
       (if lb_group (ws ! j) \<le> lb_group (ws ! c) then touched (clock j) (ws ! j) else ws ! j))"

lemma search_pass_start: "search_inv clock ws g p \<Longrightarrow> pass_start ws g p"
  by (auto simp: search_inv_def pass_start_def lb_group_touched split: if_splits)

lemma pass_finds:
  assumes "search_inv clock ws g p0" and "pass_inv clock ws g p0 (length ws) p" and c: "mycandidate p = Some c"
  shows "found clock ws p c"
proof -
  have fm: "c \<in> chosen_from clock ws g (length ws)"
    "\<And>j. j \<in> chosen_from clock ws g (length ws) \<Longrightarrow> key (ws ! c) \<le> key (ws ! j) \<and> (j < c \<longrightarrow> key (ws ! c) < key (ws ! j))"
    using assms(2) c by (auto simp: pass_inv_def first_min_def)
  then have g: "lb_group (ws ! c) = g" and cl: "c < length ws" "available (clock c) (ws ! c)"
    by (auto simp: chosen_from_def)
  have below: "\<not> available (clock j) (ws ! j)" if "j < length ws" "lb_group (ws ! j) < g" for j
    using assms(1) that by (auto simp: search_inv_def)
  have "(lb_group (ws ! c), key (ws ! c)) \<le> (lb_group (ws ! j), key (ws ! j)) \<and>
      (j < c \<longrightarrow> (lb_group (ws ! c), key (ws ! c)) < (lb_group (ws ! j), key (ws ! j)))"
    if j: "j < length ws" "available (clock j) (ws ! j)" for j
  proof (cases "lb_group (ws ! j) = g")
    case True
    then show ?thesis using fm(2) [of j] j g by (auto simp: chosen_from_def)
  next
    case False
    then have "g < lb_group (ws ! j)" using below [OF j(1)] j(2) by force
    then show ?thesis by (simp add: g)
  qed
  then have "first_min (\<lambda>j. (lb_group (ws ! j), key (ws ! j))) {j. j < length ws \<and> available (clock j) (ws ! j)} (Some c)"
    unfolding first_min_def option.case using cl by blast
  moreover have "elts p ! j = (if lb_group (ws ! j) \<le> g then touched (clock j) (ws ! j) else ws ! j)"
    if "j < length ws" for j
    using assms(1,2) that unfolding pass_inv_def search_inv_def
    by (cases "lb_group (ws ! j) = g") (auto simp: le_less)
  ultimately show ?thesis
    using assms(2) c by (simp add: found_def g pass_inv_def)
qed

lemma pass_finds_none:
  assumes "search_inv clock ws g p0" and "pass_inv clock ws g p0 (length ws) p" and "mycandidate p = None"
    and "\<And>j. j < length ws \<Longrightarrow> lb_group (ws ! j) < h \<longleftrightarrow> lb_group (ws ! j) \<le> g"
  shows "search_inv clock ws h p"
proof -
  have "chosen_from clock ws g (length ws) = {}" using assms(2,3) by (simp add: pass_inv_def first_min_def)
  moreover from this have "\<not> available (clock j) (ws ! j)" if "j < length ws" "lb_group (ws ! j) = g" for j
    using that by (auto simp: chosen_from_def)
  ultimately show ?thesis
    using assms by (auto simp: search_inv_def pass_inv_def le_less)
qed

lemma lb_group_next:
  "lb_group w < (cur, 1) \<longleftrightarrow> lb_group w \<le> (cur, 0)" "lb_group w < (cur + 1, 0) \<longleftrightarrow> lb_group w \<le> (cur, 1)"
  by (auto simp: lb_group_def)

lemma set_ends:
  assumes "search_inv clock ws (cur, 0) p0" and "\<And>j. j < length ws \<Longrightarrow> 0 < lbfactor (ws ! j)"
  shows "\<exists>p. lb_set weigh clock cur p0 = Some p \<and>
    max_lbset p = Max (insert (max_lbset p0) ((\<lambda>j. lbset (ws ! j)) ` {..<length ws})) \<and>
    (search_inv clock ws (cur + 1, 0) p \<or> (\<exists>c. found clock ws p c))"
proof -
  obtain p where p: "lb_pass weigh clock cur False p0 = Some p" "pass_inv clock ws (cur, 0) p0 (length ws) p"
    using pass_ends [of ws cur False p0 clock] search_pass_start [OF assms(1)] assms(2) by auto
  then have max_p: "max_lbset p = Max (insert (max_lbset p0) ((\<lambda>j. lbset (ws ! j)) ` {..<length ws}))"
    by (simp add: pass_inv_def)
  show ?thesis
  proof (cases "mycandidate p")
    case (Some c)
    then show ?thesis
      using p max_p pass_finds [OF assms(1) p(2) Some] by (auto simp: lb_set_def)
  next
    case None
    then have inv: "search_inv clock ws (cur, 1) p"
      by (rule pass_finds_none [OF assms(1) p(2)]) (rule lb_group_next)
    obtain q where q: "lb_pass weigh clock cur True p = Some q" "pass_inv clock ws (cur, 1) p (length ws) q"
      using pass_ends [of ws cur True p clock] search_pass_start [OF inv] assms(2) by auto
    have "search_inv clock ws (cur + 1, 0) q \<or> (\<exists>c. found clock ws q c)"
    proof (cases "mycandidate q")
      case None
      then show ?thesis using pass_finds_none [OF inv q(2)] lb_group_next(2) by blast
    next
      case (Some c)
      then show ?thesis using pass_finds [OF inv q(2)] by blast
    qed
    moreover have "max_lbset q = max_lbset p" using q(2) by (simp add: pass_inv_def)
    ultimately show ?thesis using p(1) q(1) None max_p by (simp add: lb_set_def)
  qed
qed

definition none_found :: "(nat \<Rightarrow> int) \<Rightarrow> proxy_worker_shared list \<Rightarrow> pick \<Rightarrow> bool" where
  "none_found clock ws p \<longleftrightarrow>
    mycandidate p = None \<and> length (elts p) = length ws \<and> total_factor p = 0 \<and>
    (\<forall>j<length ws. \<not> available (clock j) (ws ! j) \<and> elts p ! j = touched (clock j) (ws ! j))"

lemma search_ends:
  assumes "search_inv clock ws (cur, 0) p0" and "\<And>j. j < length ws \<Longrightarrow> 0 < lbfactor (ws ! j)"
    and "\<And>j. j < length ws \<Longrightarrow> lbset (ws ! j) \<le> m" and "max_lbset p0 \<le> m"
  shows "\<exists>p. lb_search weigh clock cur p0 = Some p \<and> (none_found clock ws p \<or> (\<exists>c. found clock ws p c))"
  using assms
proof (induction "nat (m - cur)" arbitrary: cur p0 rule: less_induct)
  case less
  obtain p where p: "lb_set weigh clock cur p0 = Some p"
    "max_lbset p = Max (insert (max_lbset p0) ((\<lambda>j. lbset (ws ! j)) ` {..<length ws}))"
    "search_inv clock ws (cur + 1, 0) p \<or> (\<exists>c. found clock ws p c)"
    using set_ends [OF less.prems(1,2)] by blast
  have max_le: "max_lbset p \<le> m" unfolding p(2) using less.prems(3,4) by (intro Max.boundedI) auto
  have le_max: "lbset (ws ! j) \<le> max_lbset p" if "j < length ws" for j
    unfolding p(2) using that by (intro Max_ge) auto
  have eq: "lb_search weigh clock cur p0 =
      (if cur + 1 \<le> max_lbset p \<and> mycandidate p = None then lb_search weigh clock (cur + 1) p else Some p)"
    by (subst lb_search.simps) (simp add: p(1))
  show ?case
  proof (cases "cur + 1 \<le> max_lbset p \<and> mycandidate p = None")
    case True
    then have "search_inv clock ws (cur + 1, 0) p" using p(3) by (auto simp: found_def)
    moreover have "nat (m - (cur + 1)) < nat (m - cur)" using True max_le by simp
    ultimately show ?thesis
      using less.hyps [OF _ _ less.prems(2,3) max_le] True eq by simp
  next
    case False
    have "none_found clock ws p" if s: "search_inv clock ws (cur + 1, 0) p"
    proof -
      have "lb_group (ws ! j) < (cur + 1, 0)" if "j < length ws" for j
        using le_max [OF that] False s by (simp add: search_inv_def lb_group_def)
      then show ?thesis using s unfolding search_inv_def none_found_def by simp
    qed
    then show ?thesis using p(3) eq False by auto
  qed
qed

theorem search_result:
  assumes "\<And>j. j < length ws \<Longrightarrow> 0 \<le> lbset (ws ! j) \<and> 0 < lbfactor (ws ! j)"
  shows "\<exists>p. lb_search weigh clock 0 (pick_init ws) = Some p \<and>
    (none_found clock ws p \<or> (\<exists>c. found clock ws p c))"
proof (rule search_ends [where m = "Max (insert 0 (lbset ` set ws))"])
  have "\<not> lb_group (ws ! j) < (0, 0)" if "j < length ws" for j
    using assms [OF that] by (auto simp: lb_group_def)
  then show "search_inv clock ws (0, 0) (pick_init ws)" by (simp add: search_inv_def pick_init_def)
qed (use assms in \<open>simp_all add: pick_init_def\<close>)

end

section \<open>The three methods meet the contract\<close>

text \<open>The statement of each method for a usable worker, what it adds to the load status, the key by
  which it prefers workers (the least first), and where it keeps the key of the candidate.\<close>

definition weigh_by :: "lbmethod \<Rightarrow> nat \<Rightarrow> pick \<Rightarrow> pick option" where
  "weigh_by lb = (case lb of byrequests \<Rightarrow> weigh_byrequests
                  | bybusyness \<Rightarrow> weigh_bybusyness | bytraffic \<Rightarrow> weigh_bytraffic)"

definition counted :: "lbmethod \<Rightarrow> proxy_worker_shared \<Rightarrow> int" where
  "counted lb w = (case lb of bytraffic \<Rightarrow> 0 | _ \<Rightarrow> lbfactor w)"

definition bump :: "lbmethod \<Rightarrow> proxy_worker_shared \<Rightarrow> proxy_worker_shared" where
  "bump lb w = w\<lparr>lbstatus := lbstatus w + counted lb w\<rparr>"

definition lb_key :: "lbmethod \<Rightarrow> proxy_worker_shared \<Rightarrow> int \<times> int" where
  "lb_key lb w =
    (case lb of byrequests \<Rightarrow> (0, - (lbstatus w + lbfactor w))
     | bybusyness \<Rightarrow> (uint (busy w), - (lbstatus w + lbfactor w))
     | bytraffic \<Rightarrow> (transferred w sdiv lbfactor w + read w sdiv lbfactor w, 0))"

definition kept_key :: "lbmethod \<Rightarrow> pick \<Rightarrow> int \<times> int" where
  "kept_key lb p =
    (let w = elts p ! the (mycandidate p) in
     case lb of byrequests \<Rightarrow> (0, - lbstatus w)
     | bybusyness \<Rightarrow> (uint (busy w), - lbstatus w)
     | bytraffic \<Rightarrow> (curmin p, 0))"

lemmas method_defs = weigh_by_def counted_def bump_def lb_key_def kept_key_def weigh_byrequests_def
  weigh_bybusyness_def weigh_bytraffic_def add_factor_def c_div_def

lemma weigh_by_step:
  assumes "i < length (elts p)" and "0 < lbfactor (elts p ! i)" and "mycandidate p \<noteq> Some i"
  shows "\<exists>p'. weigh_by lb i p = Some p' \<and> elts p' = (elts p)[i := bump lb (elts p ! i)] \<and>
       total_factor p' = total_factor p + counted lb (elts p ! i) \<and> max_lbset p' = max_lbset p \<and>
       (if mycandidate p = None \<or> lb_key lb (elts p ! i) < kept_key lb p
        then mycandidate p' = Some i \<and> kept_key lb p' = lb_key lb (elts p ! i)
        else mycandidate p' = mycandidate p \<and> kept_key lb p' = kept_key lb p)"
proof (cases lb)
  case byrequests
  show ?thesis using assms unfolding byrequests
    by (cases "mycandidate p") (simp_all add: method_defs Let_def)
next
  case bybusyness
  show ?thesis using assms unfolding bybusyness
    by (cases "mycandidate p") (auto simp: method_defs Let_def word_less_def word_uint_eq_iff)
next
  case bytraffic
  show ?thesis using assms unfolding bytraffic
    by (cases "mycandidate p") (simp_all add: method_defs Let_def)
qed

interpretation any: lb_method "weigh_by lb" "bump lb" "counted lb" "lb_key lb" "kept_key lb" for lb
proof
  show "kept_key lb (p\<lparr>elts := (elts p)[i := w]\<rparr>) = kept_key lb p"
    if "mycandidate p = Some c" "i \<noteq> c" for p c i w
    using that by (simp add: kept_key_def Let_def split: lbmethod.split)
  show "kept_key lb (p\<lparr>max_lbset := s\<rparr>) = kept_key lb p" for p s
    by (simp add: kept_key_def Let_def split: lbmethod.split)
  show "lb_key lb (revived now w) = lb_key lb w" for now w
    by (simp add: lb_key_def split: lbmethod.split)
  show "counted lb (revived now w) = counted lb w" for now w
    by (simp add: counted_def split: lbmethod.split)
qed (use weigh_by_step in \<open>simp_all add: bump_def\<close>)

section \<open>What the finders return\<close>

text \<open>A worker after a call that returned \<open>c\<close>: the sets after the one of the candidate are not
  looked at; in its set, each worker that could be chosen has its factor added, and the candidate
  pays for all of them.\<close>

definition set_total :: "lbmethod \<Rightarrow> (nat \<Rightarrow> int) \<Rightarrow> proxy_worker_shared list \<Rightarrow> int \<times> int \<Rightarrow> int" where
  "set_total lb clock ws g =
    (\<Sum>j | j < length ws \<and> lb_group (ws ! j) = g \<and> available (clock j) (ws ! j). counted lb (ws ! j))"

definition after_call ::
  "lbmethod \<Rightarrow> (nat \<Rightarrow> int) \<Rightarrow> proxy_worker_shared list \<Rightarrow> nat option \<Rightarrow> nat \<Rightarrow> proxy_worker_shared" where
  "after_call lb clock ws c j =
    (let w = ws ! j in
     if PROXY_WORKER_IS_DRAINING w \<or> (\<exists>i. c = Some i \<and> lb_group (ws ! i) < lb_group w) then w
     else if available (clock j) w then
       (revived (clock j) w)\<lparr>lbstatus := lbstatus w + counted lb w
          - (if c = Some j then set_total lb clock ws (lb_group w) else 0)\<rparr>
     else revived (clock j) w)"

lemma finder_loaded:
  "finder lb True clock ws =
    map_option (\<lambda>p. if lb = bytraffic then (mycandidate p, elts p) else charge p)
      (lb_search (weigh_by lb) clock 0 (pick_init ws))"
  by (cases lb) (simp_all add: finder_def weigh_by_def find_best_byrequests_def
      find_best_bybusyness_def find_best_bytraffic_def)

lemma found_after_call:
  assumes "any.found lb clock ws p c" and "j < length ws"
  shows "snd (if lb = bytraffic then (mycandidate p, elts p) else charge p) ! j =
    after_call lb clock ws (Some c) j"
proof -
  have c: "mycandidate p = Some c" "length (elts p) = length ws" "c < length ws" "available (clock c) (ws ! c)"
    and tot: "total_factor p = set_total lb clock ws (lb_group (ws ! c))"
    and el: "elts p ! j = (if lb_group (ws ! j) \<le> lb_group (ws ! c)
      then any.touched lb (clock j) (ws ! j) else ws ! j)"
    using assms by (auto simp: any.found_def first_min_def set_total_def any.chosen_from_def conj_commute)
  have zero: "set_total bytraffic clock ws g = 0" for g by (simp add: set_total_def counted_def)
  show ?thesis
  proof (cases "j = c")
    case True
    then have "elts p ! c = bump lb (revived (clock c) (ws ! c))"
      using el c(4) by (simp add: any.touched_def available_def)
    then show ?thesis
      using True c tot zero by (auto simp: after_call_def charge_def bump_def Let_def available_def counted_def split: lbmethod.split)
  next
    case False
    then show ?thesis
      using el c by (auto simp: after_call_def charge_def bump_def Let_def any.touched_def available_def
          counted_def not_le split: lbmethod.split)
  qed
qed

lemma after_call_lbstatus:
  assumes "first_min (\<lambda>j. (lb_group (ws ! j), lb_key lb (ws ! j)))
      {j. j < length ws \<and> available (clock j) (ws ! j)} (Some c)" and "j < length ws"
  shows "lbstatus (after_call lb clock ws (Some c) j) =
    lbstatus (ws ! j) + (if lb_group (ws ! j) = lb_group (ws ! c) \<and> available (clock j) (ws ! j)
      then counted lb (ws ! j) else 0)
    - (if j = c then set_total lb clock ws (lb_group (ws ! c)) else 0)"
proof -
  have "available (clock c) (ws ! c)" and "\<not> lb_group (ws ! j) < lb_group (ws ! c)"
    if "available (clock j) (ws ! j)"
    using assms that by (auto simp: first_min_def)
  moreover have "available (clock c) (ws ! c)" using assms(1) by (simp add: first_min_def)
  ultimately show ?thesis
    by (auto simp: after_call_def Let_def available_def)
qed

lemma after_call_sum:
  assumes fm: "first_min (\<lambda>j. (lb_group (ws ! j), lb_key lb (ws ! j)))
      {j. j < length ws \<and> available (clock j) (ws ! j)} c"
  shows "(\<Sum>j<length ws. lbstatus (after_call lb clock ws c j)) = (\<Sum>j<length ws. lbstatus (ws ! j))"
proof (cases c)
  case None
  have "\<not> available (clock j) (ws ! j)" if "j < length ws" for j
    using fm None that by (auto simp: first_min_def)
  then show ?thesis by (intro sum.cong) (auto simp: after_call_def Let_def None)
next
  case (Some i)
  let ?G = "\<lambda>j. lb_group (ws ! j) = lb_group (ws ! i) \<and> available (clock j) (ws ! j)"
  have i: "i < length ws" using fm Some by (auto simp: first_min_def)
  have "(\<Sum>j<length ws. lbstatus (after_call lb clock ws c j)) =
      (\<Sum>j<length ws. lbstatus (ws ! j) + (if ?G j then counted lb (ws ! j) else 0)
        - (if j = i then set_total lb clock ws (lb_group (ws ! i)) else 0))"
    unfolding Some using fm Some by (intro sum.cong refl after_call_lbstatus) auto
  also have "\<dots> = (\<Sum>j<length ws. lbstatus (ws ! j)) + (\<Sum>j<length ws. if ?G j then counted lb (ws ! j) else 0)
        - set_total lb clock ws (lb_group (ws ! i))"
    using i by (simp add: sum.distrib sum_subtractf sum.delta)
  also have "(\<Sum>j<length ws. if ?G j then counted lb (ws ! j) else 0) = set_total lb clock ws (lb_group (ws ! i))"
    by (simp add: set_total_def sum.If_cases Int_def lessThan_def)
  finally show ?thesis by simp
qed

lemma finder_result:
  assumes "\<And>j. j < length ws \<Longrightarrow> 0 \<le> lbset (ws ! j) \<and> 0 < lbfactor (ws ! j)"
  shows "\<exists>c ws'. finder lb True clock ws = Some (c, ws') \<and> length ws' = length ws \<and>
    first_min (\<lambda>j. (lb_group (ws ! j), lb_key lb (ws ! j))) {j. j < length ws \<and> available (clock j) (ws ! j)} c \<and>
    (\<forall>j<length ws. ws' ! j = after_call lb clock ws c j)"
proof -
  obtain p where p: "lb_search (weigh_by lb) clock 0 (pick_init ws) = Some p"
    "any.none_found lb clock ws p \<or> (\<exists>c. any.found lb clock ws p c)"
    using any.search_result [of ws lb clock] assms by blast
  let ?r = "if lb = bytraffic then (mycandidate p, elts p) else charge p"
  have r: "finder lb True clock ws = Some (fst ?r, snd ?r)" by (simp add: finder_loaded p(1))
  from p(2) show ?thesis
  proof
    assume none: "any.none_found lb clock ws p"
    then have "?r = (None, elts p)" by (simp add: any.none_found_def charge_def)
    moreover have "{j. j < length ws \<and> available (clock j) (ws ! j)} = {}"
      using none by (auto simp: any.none_found_def)
    moreover have "elts p ! j = after_call lb clock ws None j" if "j < length ws" for j
      using none that by (simp add: any.none_found_def any.touched_def after_call_def Let_def)
    ultimately show ?thesis using r none by (auto simp: any.none_found_def first_min_def)
  next
    assume "\<exists>c. any.found lb clock ws p c"
    then obtain c where f: "any.found lb clock ws p c" by blast
    then have "fst ?r = Some c" and "length (snd ?r) = length ws"
      by (auto simp: any.found_def charge_def)
    then show ?thesis
      using r f found_after_call [OF f] by (auto simp: any.found_def)
  qed
qed


section \<open>A run of requests\<close>

text \<open>\<open>n\<close> requests that are balanced by requests, one after the other, \<open>clocks k\<close> being the clock
  during the \<open>k\<close>th: the workers that were chosen, and the workers after it.\<close>

primrec rounds ::
  "(nat \<Rightarrow> nat \<Rightarrow> int) \<Rightarrow> nat \<Rightarrow> proxy_worker_shared list \<Rightarrow> (nat option list \<times> proxy_worker_shared list) option" where
  "rounds clocks 0 ws = Some ([], ws)"
| "rounds clocks (Suc n) ws = Option.bind (rounds clocks n ws) (\<lambda>(cs, ws).
     Option.bind (find_best_byrequests True (clocks n) ws) (\<lambda>(c, ws). Some (cs @ [c], ws)))"

definition ready :: "proxy_worker_shared \<Rightarrow> bool" where
  "ready w \<longleftrightarrow> PROXY_WORKER_IS_USABLE w \<and> \<not> PROXY_WORKER_IS_DRAINING w \<and>
    \<not> PROXY_WORKER_IS_STANDBY w \<and> lbset w = 0 \<and> 0 < lbfactor w"

abbreviation factors :: "proxy_worker_shared list \<Rightarrow> int" where
  "factors ws \<equiv> \<Sum>j<length ws. lbfactor (ws ! j)"

abbreviation statuses :: "proxy_worker_shared list \<Rightarrow> int" where
  "statuses ws \<equiv> \<Sum>j<length ws. lbstatus (ws ! j)"

lemma ready_round:
  assumes rdy: "\<forall>w \<in> set ws. ready w" and "ws \<noteq> []"
  shows "\<exists>c ws'. find_best_byrequests True clock ws = Some (Some c, ws') \<and> c < length ws \<and>
    length ws' = length ws \<and> statuses ws' = statuses ws \<and>
    (\<forall>j<length ws. ws' ! j =
      (ws ! j)\<lparr>lbstatus := lbstatus (ws ! j) + lbfactor (ws ! j) - (if j = c then factors ws else 0)\<rparr>) \<and>
    (\<forall>j<length ws. lbstatus (ws ! j) + lbfactor (ws ! j) \<le> lbstatus (ws ! c) + lbfactor (ws ! c))"
proof -
  let ?A = "{j. j < length ws \<and> available (clock j) (ws ! j)}"
  have ok: "available (clock j) (ws ! j)" "revived (clock j) (ws ! j) = ws ! j" "lb_group (ws ! j) = (0, 0)"
    "\<not> PROXY_WORKER_IS_DRAINING (ws ! j)" if "j < length ws" for j
    using rdy that by (auto simp: ready_def available_usable revived_usable lb_group_def)
  obtain c ws' where r: "finder byrequests True clock ws = Some (c, ws')" "length ws' = length ws"
    and fm: "first_min (\<lambda>j. (lb_group (ws ! j), lb_key byrequests (ws ! j))) ?A c"
    and af: "\<forall>j<length ws. ws' ! j = after_call byrequests clock ws c j"
    using finder_result [of ws byrequests clock] rdy by (auto simp: ready_def)
  have "0 \<in> ?A" using ok(1) [of 0] assms(2) by simp
  then obtain i where c: "c = Some i" using fm by (cases c) (simp_all add: first_min_def, blast)
  then have i: "i < length ws" "\<And>j. j \<in> ?A \<Longrightarrow> (lb_group (ws ! i), lb_key byrequests (ws ! i)) \<le> (lb_group (ws ! j), lb_key byrequests (ws ! j))"
    using fm by (auto simp: first_min_def)
  have "{j. j < length ws \<and> lb_group (ws ! j) = (0, 0) \<and> available (clock j) (ws ! j)} = {..<length ws}"
    using ok by auto
  then have tot: "set_total byrequests clock ws (0, 0) = factors ws"
    by (simp add: set_total_def counted_def)
  have "ws' ! j = (ws ! j)\<lparr>lbstatus := lbstatus (ws ! j) + lbfactor (ws ! j) - (if j = i then factors ws else 0)\<rparr>"
    if "j < length ws" for j
    using af that ok [OF that] ok(3) [OF i(1)] tot c by (auto simp: after_call_def Let_def counted_def)
  moreover have "lbstatus (ws ! j) + lbfactor (ws ! j) \<le> lbstatus (ws ! i) + lbfactor (ws ! i)"
    if "j < length ws" for j
    using i(2) [of j] that ok [OF that] ok(3) [OF i(1)] by (simp add: lb_key_def)
  moreover have "statuses ws' = statuses ws" using after_call_sum [OF fm] af r(2) by simp
  ultimately show ?thesis using r c i(1) by (auto simp: finder_def)
qed

lemma sum_upper:
  fixes f :: "nat \<Rightarrow> int"
  assumes "\<And>j. j < n \<Longrightarrow> l \<le> f j" and "i < n"
  shows "f i \<le> (\<Sum>j<n. f j) - (int n - 1) * l"
proof -
  have "(\<Sum>j<n. f j) = f i + (\<Sum>j\<in>{..<n} - {i}. f j)" using assms(2) by (simp add: sum.remove)
  moreover have "(int n - 1) * l \<le> (\<Sum>j\<in>{..<n} - {i}. f j)"
    using sum_bounded_below [of "{..<n} - {i}" l f] assms by (simp add: of_nat_diff)
  ultimately show ?thesis by simp
qed

lemma sum_lower_max:
  fixes f :: "nat \<Rightarrow> int"
  assumes "\<And>j. j < n \<Longrightarrow> f j \<le> f i" and "0 < (\<Sum>j<n. f j)"
  shows "0 < f i"
proof (rule ccontr)
  assume "\<not> 0 < f i"
  then have "(\<Sum>j<n. f j) \<le> (\<Sum>j<n. 0)" using assms(1) by (intro sum_mono) force
  then show False using assms(2) by simp
qed

text \<open>The invariant of a run from \<open>ws\<close>: after the choices \<open>cs\<close>, only the load statuses have
  changed, by what is counted for the worker, and they stay above the negative of the total.\<close>

definition run_inv :: "proxy_worker_shared list \<Rightarrow> nat list \<Rightarrow> proxy_worker_shared list \<Rightarrow> bool" where
  "run_inv ws cs vs \<longleftrightarrow>
    length vs = length ws \<and> set cs \<subseteq> {..<length ws} \<and> statuses vs = statuses ws \<and>
    (\<forall>i<length ws. vs ! i = (ws ! i)\<lparr>lbstatus := lbstatus (ws ! i) + int (length cs) * lbfactor (ws ! i)
        - factors ws * int (count_list cs i)\<rparr> \<and> - factors ws < lbstatus (vs ! i))"

lemma factors_pos:
  assumes "\<And>j. j < length ws \<Longrightarrow> ready (ws ! j)" and "ws \<noteq> []"
  shows "0 < factors ws"
  using assms by (intro sum_pos) (auto simp: ready_def)

lemma run_inv_step:
  assumes "run_inv ws cs vs" and "\<And>j. j < length ws \<Longrightarrow> ready (ws ! j)" and "ws \<noteq> []"
    and "0 \<le> statuses ws"
  shows "\<exists>c us. find_best_byrequests True clock vs = Some (Some c, us) \<and> run_inv ws (cs @ [c]) us"
proof -
  have len: "length vs = length ws" and st: "statuses vs = statuses ws"
    and vs: "\<And>i. i < length ws \<Longrightarrow> vs ! i = (ws ! i)\<lparr>lbstatus := lbstatus (ws ! i)
        + int (length cs) * lbfactor (ws ! i) - factors ws * int (count_list cs i)\<rparr>"
    and low: "\<And>i. i < length ws \<Longrightarrow> - factors ws < lbstatus (vs ! i)"
    using assms(1) by (auto simp: run_inv_def)
  have fac: "lbfactor (vs ! j) = lbfactor (ws ! j)" and rdy: "ready (vs ! j)" if "j < length ws" for j
    using vs [OF that] assms(2) [OF that]
    by (simp_all add: ready_def PROXY_WORKER_IS_USABLE_def PROXY_WORKER_IS_INITIALIZED_def
        PROXY_WORKER_IS_DRAINING_def PROXY_WORKER_IS_STANDBY_def)
  then have facs: "factors vs = factors ws" using len by simp
  have "vs \<noteq> []" and "\<forall>w \<in> set vs. ready w" using rdy len assms(3) by (auto simp: in_set_conv_nth)
  from ready_round [OF this(2,1), of clock, unfolded facs st, unfolded len] obtain c us where
    r: "find_best_byrequests True clock vs = Some (Some c, us)" "c < length ws" "length us = length ws"
      "statuses us = statuses ws"
    and us': "\<forall>j<length ws. us ! j =
      (vs ! j)\<lparr>lbstatus := lbstatus (vs ! j) + lbfactor (vs ! j) - (if j = c then factors ws else 0)\<rparr>"
    and mx': "\<forall>j<length ws. lbstatus (vs ! j) + lbfactor (vs ! j) \<le> lbstatus (vs ! c) + lbfactor (vs ! c)"
    by (elim exE conjE) (rule that)
  note us = us' [rule_format] and mx = mx' [rule_format]
  have "0 < (\<Sum>j<length ws. lbstatus (vs ! j) + lbfactor (vs ! j))"
    using st facs len assms(4) factors_pos [OF assms(2,3)] by (simp add: sum.distrib)
  then have pos: "0 < lbstatus (vs ! c) + lbfactor (vs ! c)" using mx by (rule sum_lower_max [rotated])
  have "- factors ws < lbstatus (us ! j)" if "j < length ws" for j
    using us [OF that] low [OF that] pos fac [OF that] assms(2) [OF that] by (auto simp: ready_def)
  moreover have "us ! j = (ws ! j)\<lparr>lbstatus := lbstatus (ws ! j) + int (length (cs @ [c])) * lbfactor (ws ! j)
      - factors ws * int (count_list (cs @ [c]) j)\<rparr>" if "j < length ws" for j
    using us [OF that] vs [OF that] by (simp add: algebra_simps)
  ultimately have "run_inv ws (cs @ [c]) us" using r assms(1) by (simp add: run_inv_def)
  then show ?thesis using r(1) by blast
qed

lemma rounds_run:
  assumes "\<And>j. j < length ws \<Longrightarrow> ready (ws ! j)" and "ws \<noteq> []" and "0 \<le> statuses ws"
    and "\<And>j. j < length ws \<Longrightarrow> - factors ws < lbstatus (ws ! j)"
  shows "\<exists>cs vs. rounds clocks n ws = Some (map Some cs, vs) \<and> length cs = n \<and> run_inv ws cs vs"
proof (induction n)
  case 0
  then show ?case using assms(4) by (simp add: run_inv_def)
next
  case (Suc n)
  then obtain cs vs where "rounds clocks n ws = Some (map Some cs, vs)" "length cs = n" and i: "run_inv ws cs vs"
    by blast
  moreover obtain c us where "find_best_byrequests True (clocks n) vs = Some (Some c, us)" "run_inv ws (cs @ [c]) us"
    using run_inv_step [OF i assms(1-3)] by blast
  ultimately show ?case by (intro exI [of _ "cs @ [c]"] exI [of _ us]) simp
qed

lemma rounds_prefix:
  assumes "rounds clocks n ws = Some (cs, vs)" and "m \<le> n"
  shows "\<exists>us. rounds clocks m ws = Some (take m cs, us)"
  using assms
proof (induction n arbitrary: cs vs)
  case (Suc n)
  have len: "length cs = k" if "rounds clocks k ws = Some (cs, vs)" for k cs vs
    using that by (induction k arbitrary: cs vs) (auto split: bind_splits)
  show ?case
  proof (cases "m = Suc n")
    case True
    then show ?thesis using Suc.prems(1) len [OF Suc.prems(1)] by auto
  next
    case False
    then show ?thesis using Suc len by (fastforce split: bind_splits)
  qed
qed simp

lemma run_inv_upper:
  assumes "run_inv ws cs vs" and "i < length ws"
  shows "lbstatus (vs ! i) \<le> statuses ws + (int (length ws) - 1) * (factors ws - 1)"
proof -
  have "1 - factors ws \<le> lbstatus (vs ! j)" if "j < length vs" for j
    using assms(1) that by (force simp: run_inv_def)
  then have "lbstatus (vs ! i) \<le> statuses vs - (int (length vs) - 1) * (1 - factors ws)"
    using assms by (intro sum_upper) (auto simp: run_inv_def)
  moreover have "statuses vs = statuses ws" "length vs = length ws"
    using assms(1) unfolding run_inv_def by blast+
  ultimately show ?thesis by (simp add: algebra_simps)
qed

lemma count_list_window:
  assumes "i \<notin> set (take k (drop m cs))"
  shows "count_list (take (m + k) cs) i = count_list (take m cs) i"
  using assms by (simp add: take_add count_list_0_iff)

lemma run_not_starved:
  assumes "\<And>j. j < length ws \<Longrightarrow> ready (ws ! j)" and "ws \<noteq> []" and "0 \<le> statuses ws"
    and "\<And>j. j < length ws \<Longrightarrow> - factors ws < lbstatus (ws ! j)"
    and r: "rounds clocks n ws = Some (map Some cs, vs)" "length cs = n" and "m + k \<le> n" and i: "i < length ws"
    and big: "statuses ws + int (length ws) * (factors ws - 1) < int k * lbfactor (ws ! i)"
  shows "i \<in> set (take k (drop m cs))"
proof (rule ccontr)
  assume no: "i \<notin> set (take k (drop m cs))"
  have st: "\<exists>us. run_inv ws (take l cs) us" if l: "l \<le> n" for l
  proof -
    obtain us where "rounds clocks l ws = Some (map Some (take l cs), us)"
      using rounds_prefix [OF r(1) l] by (auto simp: take_map)
    moreover obtain ds xs where "rounds clocks l ws = Some (map Some ds, xs)" "run_inv ws ds xs"
      using rounds_run [OF assms(1-4)] by blast
    ultimately show ?thesis by (auto simp: inj_map_eq_map)
  qed
  obtain us xs where u: "run_inv ws (take m cs) us" and x: "run_inv ws (take (m + k) cs) xs"
    using st assms(7) by (meson le_add1 order_trans)
  have "lbstatus (xs ! i) = lbstatus (us ! i) + int k * lbfactor (ws ! i)"
    using u x i r(2) assms(7) count_list_window [OF no] by (simp add: run_inv_def min_def algebra_simps)
  moreover have "lbstatus (xs ! i) \<le> statuses ws + (int (length ws) - 1) * (factors ws - 1)"
    by (rule run_inv_upper [OF x i])
  moreover have "1 - factors ws \<le> lbstatus (us ! i)" using u i by (force simp: run_inv_def)
  ultimately show False using big by (simp add: algebra_simps)
qed

text \<open>The states in which a balancer starts: after the initialisation and after a reset.\<close>

lemma reset_start:
  assumes "\<forall>w \<in> set ws. 0 < lbfactor w" and "ws \<noteq> []"
  shows "0 \<le> statuses (reset byrequests ws)"
    and "\<forall>w \<in> set (reset byrequests ws). - factors (reset byrequests ws) < lbstatus w"
proof -
  have "0 < factors ws" using assms by (intro sum_pos) auto
  then show "\<forall>w \<in> set (reset byrequests ws). - factors (reset byrequests ws) < lbstatus w"
    by (auto simp: reset_def reset_byrequests_def)
qed (simp add: reset_def reset_byrequests_def)

lemma recalc_factors_start:
  assumes "\<forall>w \<in> set ws. 0 < lbfactor w"
  shows "0 \<le> statuses (recalc_factors ws)"
    and "\<forall>w \<in> set (recalc_factors ws). - factors (recalc_factors ws) < lbstatus w"
proof -
  have pos: "\<forall>w \<in> set (recalc_factors ws). 0 < lbfactor w \<and> lbstatus w = lbfactor w"
    using assms by (cases ws) (auto simp: recalc_factors_def)
  then have "0 \<le> factors (recalc_factors ws)" by (intro sum_nonneg) (auto intro: less_imp_le)
  with pos show "0 \<le> statuses (recalc_factors ws)"
    and "\<forall>w \<in> set (recalc_factors ws). - factors (recalc_factors ws) < lbstatus w"
    by (auto intro: order.strict_trans1)
qed

text \<open>
  C35: Balancing by requests serves every worker its share. Take a balancer whose workers are all
  usable, neither draining nor hot standbys, and in the first set, with the load statuses that
  the initialisation or a reset leaves (their sum is not negative and each is above the negative
  of the sum of the factors). Then each of \<open>n\<close> consecutive requests is given to a worker; the
  load status of a worker is its start value plus \<open>n\<close> times its factor minus the sum of the
  factors for each time it was chosen, and stays within fixed bounds, so that the times it was
  chosen are proportional to its factor up to a constant and no overflow of \<open>int\<close> occurs while
  these bounds fit in it; and no worker is starved: among any \<open>k\<close> consecutive requests there is
  one for it, as soon as \<open>k\<close> times its factor exceeds the bound.\<close>

theorem byrequests_fair:
  assumes "ws \<noteq> []" and "\<forall>w \<in> set ws. ready w" and "0 \<le> statuses ws"
    and "\<forall>w \<in> set ws. - factors ws < lbstatus w"
  shows "\<exists>cs vs. rounds clocks n ws = Some (map Some cs, vs) \<and> length cs = n \<and> length vs = length ws \<and>
    (\<forall>i<length ws.
      lbstatus (vs ! i) = lbstatus (ws ! i) + int n * lbfactor (ws ! i) - factors ws * int (count_list cs i) \<and>
      - factors ws < lbstatus (vs ! i) \<and>
      lbstatus (vs ! i) \<le> statuses ws + (int (length ws) - 1) * (factors ws - 1) \<and>
      (\<forall>m k. statuses ws + int (length ws) * (factors ws - 1) < int k * lbfactor (ws ! i) \<longrightarrow> m + k \<le> n \<longrightarrow>
        i \<in> set (take k (drop m cs))))"
proof -
  have a: "\<And>j. j < length ws \<Longrightarrow> ready (ws ! j)" "\<And>j. j < length ws \<Longrightarrow> - factors ws < lbstatus (ws ! j)"
    using assms(2,4) nth_mem by blast+
  obtain cs vs where r: "rounds clocks n ws = Some (map Some cs, vs)" "length cs = n" "run_inv ws cs vs"
    using rounds_run [OF a(1) assms(1,3) a(2)] by blast
  have "i \<in> set (take k (drop m cs))" if "i < length ws" "m + k \<le> n"
    "statuses ws + int (length ws) * (factors ws - 1) < int k * lbfactor (ws ! i)" for i m k
    by (rule run_not_starved [OF a(1) assms(1,3) a(2) r(1,2) that(2,1,3)])
  then show ?thesis
    using r run_inv_upper [OF r(3)] unfolding run_inv_def
    by (intro exI [of _ cs] exI [of _ vs]) auto
qed

definition sample_worker :: "int \<Rightarrow> 32 word \<Rightarrow> int \<Rightarrow> proxy_worker_shared" where
  "sample_worker f s l = \<lparr>lbset = l, retries = 0, lbstatus = 0, lbfactor = f, status = s, error_time = 0,
     retry = 60, elected = 0, busy = 0, transferred = 0, read = 0\<rparr>"

text \<open>Three workers with the factors 1, 1 and 2, after a reset.\<close>

theorem byrequests_fair_witness:
  "\<exists>cs vs. rounds (\<lambda>_ _. 0) 10 [sample_worker 1 1 0, sample_worker 1 1 0, sample_worker 2 1 0] = Some (map Some cs, vs) \<and>
    length cs = 10 \<and> 2 \<in> set (take 5 (drop 3 cs)) \<and> 0 \<in> set cs"
proof -
  let ?ws = "[sample_worker 1 1 0, sample_worker 1 1 0, sample_worker 2 1 0]"
  have r: "\<forall>w \<in> set ?ws. ready w"
    by (simp add: ready_def sample_worker_def PROXY_WORKER_IS_USABLE_def PROXY_WORKER_NOT_USABLE_BITMAP_def
        PROXY_WORKER_IS_INITIALIZED_def PROXY_WORKER_IS_DRAINING_def PROXY_WORKER_IS_STANDBY_def)
  have f: "statuses ?ws = 0" "factors ?ws = 4" "length ?ws = 3" "lbfactor (?ws ! 2) = 2" "lbfactor (?ws ! 0) = 1"
    by (simp_all add: sample_worker_def numeral_eq_Suc lessThan_Suc)
  have l: "\<forall>w \<in> set ?ws. - factors ?ws < lbstatus w" unfolding f(2) by (simp add: sample_worker_def)
  obtain cs vs where c: "rounds (\<lambda>_ _. 0) 10 ?ws = Some (map Some cs, vs)" "length cs = 10"
    and s: "\<And>i m k. i < length ?ws \<Longrightarrow> statuses ?ws + int (length ?ws) * (factors ?ws - 1) < int k * lbfactor (?ws ! i)
      \<Longrightarrow> m + k \<le> 10 \<Longrightarrow> i \<in> set (take k (drop m cs))"
    using byrequests_fair [OF _ r _ l, of "\<lambda>_ _. 0" 10, OF list.distinct(2) eq_refl [OF f(1) [symmetric]]]
    by blast
  have "2 \<in> set (take 5 (drop 3 cs))" using s [of 2 5 3] unfolding f(1,2) unfolding f(3-5) by simp
  moreover have "0 \<in> set (take 10 (drop 0 cs))" using s [of 0 10 0] unfolding f(1,2) unfolding f(3-5) by simp
  ultimately show ?thesis using c by auto
qed


end
