(* ===== verification/Regsub.thy ===== *)
theory Regsub
  imports Prelude
begin

text \<open>
  Substitution of the matches of a regular expression (\<open>regsub_core\<close>, \<open>ap_pregsub\<close> and
  \<open>ap_pregsub_ex\<close> of \<^verbatim>\<open>server/util.c\<close>). The function computes the size of the result in a
  first pass over the input, allocates that much, and fills it in a second pass; the theorem
  shows that the passes agree, with the sizes kept at their 64 bits.

  A match is the pair of offsets that \<open>ap_regexec\<close> reports, \<open>-1\<close> when the group took no part in the
  match; the array \<open>pmatch\<close> is a list. The caller that appends to a varbuf is not modelled.
\<close>

record ap_regmatch =
  rm_so :: int
  rm_eo :: int

abbreviation (input) "AP_MAX_REG_MATCH \<equiv> 10 :: nat"

definition AP_PREGSUB_MAXLEN :: "64 word" where
  "AP_PREGSUB_MAXLEN = 8192 * 8"

text \<open>The number of the group that starts at \<open>c\<close>, and the rest of the input.\<close>

definition regsub_no :: "char \<Rightarrow> string \<Rightarrow> nat \<times> string" where
  "regsub_no c src =
    (if c = CHR ''$'' \<and> c_isdigit (peek src) then (ord (peek src) - 48, tl src)
     else (AP_MAX_REG_MATCH, src))"

definition regsub_used :: "nat \<Rightarrow> ap_regmatch list \<Rightarrow> nat \<Rightarrow> bool" where
  "regsub_used nmatch pmatch no \<longleftrightarrow> no < nmatch \<and> rm_so (pmatch ! no) < rm_eo (pmatch ! no)"

definition regsub_len :: "ap_regmatch list \<Rightarrow> nat \<Rightarrow> int" where
  "regsub_len pmatch no = rm_eo (pmatch ! no) - rm_so (pmatch ! no)"

lemma regsub_no_length: "length (snd (regsub_no c src)) \<le> length src"
  by (simp add: regsub_no_def)

function regsub_size :: "nat \<Rightarrow> ap_regmatch list \<Rightarrow> string \<Rightarrow> 64 word \<Rightarrow> 64 word option" where
  "regsub_size nmatch pmatch [] len = Some len"
| "regsub_size nmatch pmatch (c # s) len =
    (let (no, src) = regsub_no c s in
     if no \<ge> AP_MAX_REG_MATCH then
       regsub_size nmatch pmatch (if c = CHR 0x5C \<and> peek src \<noteq> NUL then tl src else src) (len + 1)
     else if regsub_used nmatch pmatch no then
       if (- 1) - len \<le> word_of_int (regsub_len pmatch no) then None
       else regsub_size nmatch pmatch src (len + word_of_int (regsub_len pmatch no))
     else regsub_size nmatch pmatch src len)"
  by pat_completeness auto
termination
  by (relation "measure (\<lambda>(_, _, s, _). length s)")
    (auto simp: regsub_no_def le_imp_less_Suc split: if_splits)

function regsub_fill :: "nat \<Rightarrow> ap_regmatch list \<Rightarrow> string \<Rightarrow> string \<Rightarrow> string" where
  "regsub_fill nmatch pmatch source [] = []"
| "regsub_fill nmatch pmatch source (c # s) =
    (let (no, src) = regsub_no c s in
     if no \<ge> AP_MAX_REG_MATCH then
       if c = CHR 0x5C \<and> peek src \<noteq> NUL then peek src # regsub_fill nmatch pmatch source (tl src)
       else c # regsub_fill nmatch pmatch source src
     else if regsub_used nmatch pmatch no then
       take (nat (regsub_len pmatch no)) (drop (nat (rm_so (pmatch ! no))) source)
         @ regsub_fill nmatch pmatch source src
     else regsub_fill nmatch pmatch source src)"
  by pat_completeness auto
termination
  by (relation "measure (\<lambda>(_, _, _, s). length s)")
    (auto simp: regsub_no_def le_imp_less_Suc split: if_splits)

declare regsub_size.simps(2) [simp del] regsub_fill.simps(2) [simp del]

text \<open>The status, and with \<open>APR_SUCCESS\<close> the size of the allocated memory and the string in it.
  A null \<open>source\<close> is \<open>None\<close>.\<close>

definition regsub_core ::
  "string \<Rightarrow> string option \<Rightarrow> nat \<Rightarrow> ap_regmatch list \<Rightarrow> 64 word \<Rightarrow> apr_status + (64 word \<times> string)" where
  "regsub_core input source nmatch pmatch maxlen =
    (case source of
       None \<Rightarrow> Inl APR_EINVAL
     | Some source' \<Rightarrow>
         if nmatch > AP_MAX_REG_MATCH then Inl APR_EINVAL
         else if nmatch = 0 then
           let len = word_of_nat (length input) in
           if maxlen > 0 \<and> len \<ge> maxlen then Inl APR_ENOMEM else Inr (len + 1, input)
         else
           (case regsub_size nmatch pmatch input 0 of
              None \<Rightarrow> Inl APR_ENOMEM
            | Some len \<Rightarrow>
                if len \<ge> maxlen \<and> maxlen > 0 then Inl APR_ENOMEM
                else Inr (len + 1, regsub_fill nmatch pmatch source' input)))"

definition ap_pregsub :: "string \<Rightarrow> string option \<Rightarrow> nat \<Rightarrow> ap_regmatch list \<Rightarrow> string option" where
  "ap_pregsub input source nmatch pmatch =
    (case regsub_core input source nmatch pmatch AP_PREGSUB_MAXLEN of Inl _ \<Rightarrow> None | Inr (_, r) \<Rightarrow> Some r)"

definition ap_pregsub_ex ::
  "string \<Rightarrow> string option \<Rightarrow> nat \<Rightarrow> ap_regmatch list \<Rightarrow> 64 word \<Rightarrow> apr_status \<times> string option" where
  "ap_pregsub_ex input source nmatch pmatch maxlen =
    (case regsub_core input source nmatch pmatch maxlen of Inl rc \<Rightarrow> (rc, None) | Inr (_, r) \<Rightarrow> (APR_SUCCESS, Some r))"

section \<open>The two passes\<close>

text \<open>What \<open>ap_regexec\<close> reports for a group: a part of the string that was matched, or nothing.\<close>

definition match_ok :: "string \<Rightarrow> ap_regmatch \<Rightarrow> bool" where
  "match_ok source m \<longleftrightarrow>
    (0 \<le> rm_so m \<and> rm_so m \<le> rm_eo m \<and> rm_eo m \<le> int (length source)) \<or> (rm_so m = -1 \<and> rm_eo m = -1)"

lemma regsub_used_bounds:
  assumes "regsub_used nmatch pmatch no" and "\<forall>no<nmatch. match_ok source (pmatch ! no)"
  shows "0 < regsub_len pmatch no" "regsub_len pmatch no \<le> int (length source)"
    "length (take (nat (regsub_len pmatch no)) (drop (nat (rm_so (pmatch ! no))) source)) = nat (regsub_len pmatch no)"
proof -
  have "match_ok source (pmatch ! no)" and "rm_so (pmatch ! no) < rm_eo (pmatch ! no)"
    using assms by (auto simp: regsub_used_def)
  then show "0 < regsub_len pmatch no" "regsub_len pmatch no \<le> int (length source)"
    "length (take (nat (regsub_len pmatch no)) (drop (nat (rm_so (pmatch ! no))) source)) = nat (regsub_len pmatch no)"
    by (auto simp: match_ok_def regsub_len_def)
qed

lemma regsub_size_step:
  assumes "0 < l" and "l \<le> 2 ^ 31" and "unat len + 2 ^ 31 < 2 ^ 64 - 1"
  shows "\<not> (- 1) - len \<le> (word_of_int l :: 64 word)" and "unat (len + word_of_int l) = unat len + nat l"
proof -
  have "uint (word_of_int l :: 64 word) = l"
    using assms(1,2) by (simp add: uint_word_of_int_eq take_bit_int_eq_self)
  then have l: "unat (word_of_int l :: 64 word) = nat l" by (simp add: unat_eq_nat_uint)
  have nl: "nat l \<le> 2 ^ 31" using assms(2) by (simp add: nat_le_iff)
  have "unat (- 1 - len) = 2 ^ 64 - 1 - unat len"
    using unat_sub [OF word_order.extremum, of len] by (simp add: unsigned_minus_1_eq_mask mask_eq_exp_minus_1)
  then show "\<not> (- 1) - len \<le> (word_of_int l :: 64 word)"
    using assms(3) l nl by (simp add: word_le_nat_alt)
  show "unat (len + word_of_int l) = unat len + nat l"
    using assms(3) l nl by (simp add: unat_word_ariths)
qed

lemma unat_Suc: "unat (len :: 64 word) + 1 < 2 ^ 64 \<Longrightarrow> unat (len + 1) = Suc (unat len)"
  by (simp add: unat_word_ariths)

lemma regsub_size_fill:
  assumes "\<forall>no<nmatch. match_ok source (pmatch ! no)" and "length source < 2 ^ 31"
    and "unat len + length s * 2 ^ 31 < 2 ^ 64 - 1"
  shows "\<exists>n. regsub_size nmatch pmatch s len = Some n \<and> unat n = unat len + length (regsub_fill nmatch pmatch source s)"
  using assms
proof (induction nmatch pmatch source s arbitrary: len rule: regsub_fill.induct)
  case (2 nmatch pmatch source c s)
  obtain no src where n: "regsub_no c s = (no, src)" by (cases "regsub_no c s")
  note step = regsub_size.simps(2) regsub_fill.simps(2) n Let_def prod.case
  have len: "length src \<le> length s" "length (tl src) \<le> length src" using regsub_no_length [of c s] n by auto
  let ?l = "regsub_len pmatch no"
  have room: "unat len + 2 ^ 31 + length s * 2 ^ 31 < 2 ^ 64 - 1" using "2.prems"(3) by simp
  have later: "unat len' + length t * 2 ^ 31 < 2 ^ 64 - 1"
    if "unat len' \<le> unat len + 2 ^ 31" "length t \<le> length s" for len' :: "64 word" and t :: string
    using room that mult_le_mono1 [OF that(2), of "2 ^ 31"] by linarith
  have inc: "unat (len + 1) = Suc (unat len)" using room by (intro unat_Suc) simp
  consider "no \<ge> 10" "c = CHR 0x5C \<and> peek src \<noteq> NUL" | "no \<ge> 10" "\<not> (c = CHR 0x5C \<and> peek src \<noteq> NUL)"
    | "no < 10" "regsub_used nmatch pmatch no" | "no < 10" "\<not> regsub_used nmatch pmatch no" by linarith
  then show ?case
  proof cases
    case 1
    have "regsub_size nmatch pmatch (c # s) len = regsub_size nmatch pmatch (tl src) (len + 1)"
      "regsub_fill nmatch pmatch source (c # s) = peek src # regsub_fill nmatch pmatch source (tl src)"
      by (simp_all only: step) (use 1 in simp_all)
    moreover have "\<exists>k. regsub_size nmatch pmatch (tl src) (len + 1) = Some k \<and>
        unat k = unat (len + 1) + length (regsub_fill nmatch pmatch source (tl src))"
      by (rule "2.IH"(1) [OF n [symmetric] refl 1 "2.prems"(1,2)], rule later) (use inc len in simp_all)
    ultimately show ?thesis using inc by simp
  next
    case 2
    have "regsub_size nmatch pmatch (c # s) len = regsub_size nmatch pmatch src (len + 1)"
      "regsub_fill nmatch pmatch source (c # s) = c # regsub_fill nmatch pmatch source src"
      by (simp_all only: step) (use 2 in auto)
    moreover have "\<exists>k. regsub_size nmatch pmatch src (len + 1) = Some k \<and>
        unat k = unat (len + 1) + length (regsub_fill nmatch pmatch source src)"
      by (rule "2.IH"(2) [OF n [symmetric] refl 2 "2.prems"(1,2)], rule later) (use inc len in simp_all)
    ultimately show ?thesis using inc by simp
  next
    case 3
    note u = regsub_used_bounds [OF 3(2) "2.prems"(1)]
    have l: "?l \<le> 2 ^ 31" "nat ?l \<le> 2 ^ 31" using u(2) "2.prems"(2) by (simp_all add: nat_le_iff)
    have "unat len + 2 ^ 31 < 2 ^ 64 - 1" using room by linarith
    note st = regsub_size_step [OF u(1) l(1) this]
    have "regsub_size nmatch pmatch (c # s) len = regsub_size nmatch pmatch src (len + word_of_int ?l)"
      "length (regsub_fill nmatch pmatch source (c # s)) = nat ?l + length (regsub_fill nmatch pmatch source src)"
      by (simp_all only: step) (use 3 st(1) u(3) in simp_all)
    moreover have "\<exists>k. regsub_size nmatch pmatch src (len + word_of_int ?l) = Some k \<and>
        unat k = unat (len + word_of_int ?l) + length (regsub_fill nmatch pmatch source src)"
      by (rule "2.IH"(3) [OF n [symmetric] refl _ 3(2) "2.prems"(1,2)], use 3 in simp, rule later)
        (use st(2) l(2) len in simp_all)
    ultimately show ?thesis using st(2) by (simp add: add.assoc)
  next
    case 4
    have "regsub_size nmatch pmatch (c # s) len = regsub_size nmatch pmatch src len"
      "regsub_fill nmatch pmatch source (c # s) = regsub_fill nmatch pmatch source src"
      by (simp_all only: step) (use 4 in simp_all)
    moreover have "\<exists>k. regsub_size nmatch pmatch src len = Some k \<and>
        unat k = unat len + length (regsub_fill nmatch pmatch source src)"
      by (rule "2.IH"(4) [OF n [symmetric] refl _ 4(2) "2.prems"(1,2)], use 4 in simp, rule later)
        (use len in simp_all)
    ultimately show ?thesis by simp
  qed
qed simp

section \<open>Literal text\<close>

text \<open>Text in which a dollar and a backslash are preceded by a backslash.\<close>

definition regsub_quote :: "string \<Rightarrow> string" where
  "regsub_quote s = concat (map (\<lambda>c. if c = CHR ''$'' \<or> c = CHR 0x5C then [CHR 0x5C, c] else [c]) s)"

lemma regsub_fill_quote: "regsub_fill nmatch pmatch source (regsub_quote s) = s"
proof (induction s)
  case (Cons c s)
  then show ?case
    by (cases "c = CHR ''$'' \<or> c = CHR 0x5C")
      (auto simp: regsub_quote_def regsub_fill.simps(2) regsub_no_def)
qed (simp add: regsub_quote_def)

lemma regsub_quote_length: "length s \<le> length (regsub_quote s)" "length (regsub_quote s) \<le> 2 * length s"
  by (induction s) (auto simp: regsub_quote_def)

section \<open>Property\<close>

lemma regsub_fill_length:
  assumes "\<forall>no<nmatch. match_ok source (pmatch ! no)" and "length source < 2 ^ 31" and "length s < 2 ^ 32"
  shows "length (regsub_fill nmatch pmatch source s) \<le> length s * 2 ^ 31 + 1"
proof -
  define k where "k = 2 ^ 64 - 2 - length s * 2 ^ 31"
  have "length s * 2 ^ 31 \<le> 2 ^ 63" using assms(3) by simp
  then have k: "k + length s * 2 ^ 31 = 2 ^ 64 - 2" "k < 2 ^ 64" unfolding k_def by simp_all
  then have u: "unat (word_of_nat k :: 64 word) = k" by (simp add: unat_of_nat)
  obtain n where "regsub_size nmatch pmatch s (word_of_nat k) = Some n"
    "unat n = k + length (regsub_fill nmatch pmatch source s)"
    using regsub_size_fill [OF assms(1,2), of "word_of_nat k" s] u k by auto
  moreover have "unat n < 2 ^ 64" by (rule order_less_le_trans [OF unsigned_less]) simp
  ultimately show ?thesis using k by linarith
qed

lemma regsub_core_result:
  fixes input source :: string and nmatch :: nat and pmatch :: "ap_regmatch list"
  assumes "\<forall>no<nmatch. match_ok source (pmatch ! no)" and "length source < 2 ^ 31" and "length input < 2 ^ 32"
    and "nmatch \<le> 10"
  defines "out \<equiv> if nmatch = 0 then input else regsub_fill nmatch pmatch source input"
  shows "regsub_core input (Some source) nmatch pmatch maxlen =
    (if 0 < maxlen \<and> unat maxlen \<le> length out then Inl APR_ENOMEM else Inr (word_of_nat (length out + 1), out))"
    and "length out + 1 < 2 ^ 64"
proof -
  have small: "length input * 2 ^ 31 \<le> 2 ^ 63" using assms(3) by simp
  obtain n where n: "regsub_size nmatch pmatch input 0 = Some n" "unat n = length (regsub_fill nmatch pmatch source input)"
    using regsub_size_fill [OF assms(1,2), of 0 input] small by auto
  have len: "length out + 1 < 2 ^ 64"
    using regsub_fill_length [OF assms(1-3)] small assms(3) by (auto simp: out_def)
  then show "length out + 1 < 2 ^ 64" .
  have le: "maxlen \<le> word_of_nat k \<longleftrightarrow> unat maxlen \<le> k" if "k < 2 ^ 64" for k
    using that by (simp add: word_le_nat_alt unat_of_nat)
  have "n = word_of_nat (length (regsub_fill nmatch pmatch source input))" by (simp flip: n(2))
  then show "regsub_core input (Some source) nmatch pmatch maxlen =
    (if 0 < maxlen \<and> unat maxlen \<le> length out then Inl APR_ENOMEM else Inr (word_of_nat (length out + 1), out))"
    using assms(4) n(1) le [of "length out"] len
    by (auto simp: regsub_core_def out_def)
qed



end
