(* ===== verification/Translate.thy ===== *)
theory Translate
  imports Escape Paths Regsub Request_Line
begin

text \<open>
  From the path of a request to a file name: the start of \<open>ap_process_request_internal\<close>
  (\<^verbatim>\<open>server/request.c\<close>), the translation by \<^verbatim>\<open>modules/mappers/mod_alias.c\<close> and by the core
  (\<open>ap_core_translate\<close> of \<^verbatim>\<open>server/core.c\<close>, \<open>ap_server_root_relative\<close> of \<^verbatim>\<open>server/config.c\<close>).

  The request is the one of the theory on the request line with the fields that the translation
  sets. \<open>r->uri\<close> and \<open>r->parsed_uri.path\<close> are the same memory when there is a path, so both change
  together. What the server calls outside is in a record: the merging of paths and the
  parsing of URIs of APR, the construction of an absolute URL, and the evaluation of the
  expressions of \<open>Alias\<close> and \<open>Redirect\<close> within a location. A compiled regular expression is the function
  that gives its matches. \<open>None\<close> as a result of the translation is the read in front of an empty alias.
\<close>

section \<open>Data\<close>

record translated = request +
  proxyreq :: bool
  filename :: "string option"
  canonical_filename :: "string option"
  handler :: "string option"
  forced_type :: "string option"
  context_prefix :: "string option"
  context_document_root :: "string option"
  location :: "string option"

record alias_entry =
  real :: "string option"
  fake :: string
  alias_handler :: "string option"
  regexp :: "(string \<Rightarrow> ap_regmatch list option) option"
  redir_status :: int

record alias_server_conf =
  aliases :: "alias_entry list"
  redirects :: "alias_entry list"

record alias_dir_conf =
  alias_expr :: "(translated \<Rightarrow> string + string) option"
  dir_handler :: "string option"
  redirect_set :: bool
  redirect_expr :: "(translated \<Rightarrow> string + string) option"
  redirect_status :: int

record outside =
  apr_filepath_merge :: "string \<Rightarrow> string \<Rightarrow> bool \<Rightarrow> apr_status \<times> string option"
  apr_uri_parts :: "string \<Rightarrow> string \<times> string option \<times> string option"
  ap_construct_url :: "string \<Rightarrow> string"

text \<open>What the searches return: \<open>NULL\<close>, the address \<open>PREGSUB_ERROR\<close>, or a string.\<close>

datatype found = NotFound | PREGSUB_ERROR | Found string

section \<open>Aliases and redirects\<close>

definition ap_server_root_relative :: "outside \<Rightarrow> string \<Rightarrow> string \<Rightarrow> string option" where
  "ap_server_root_relative env sroot file =
    (case apr_filepath_merge env sroot file False of
       (rv, Some newpath) \<Rightarrow>
         if rv = APR_SUCCESS \<or> rv = APR_EPATHWILD \<or> rv = APR_ENOENT \<or> rv = APR_ENOTDIR then Some newpath else None
     | (rv, None) \<Rightarrow> None)"

text \<open>A redirect target: all but the query and the fragment is escaped.\<close>

definition escape_target :: "outside \<Rightarrow> string \<Rightarrow> string" where
  "escape_target env s =
    (case apr_uri_parts env s of (unparsed, qu, fr) \<Rightarrow>
       ap_os_escape_path unparsed True
         @ (case qu of None \<Rightarrow> [] | Some q \<Rightarrow> ''?'' @ q)
         @ (case fr of None \<Rightarrow> [] | Some f \<Rightarrow> ''#'' @ f))"

text \<open>\<open>apr_pstrcat\<close> ends at its first null argument.\<close>

definition pstrcat_real :: "string option \<Rightarrow> string \<Rightarrow> string" where
  "pstrcat_real rl s = (case rl of None \<Rightarrow> [] | Some x \<Rightarrow> x @ s)"

text \<open>One entry of the list, up to the test of \<open>found\<close>, with the request after \<open>ap_set_context_info\<close>.\<close>

definition ap_set_context_info :: "string \<Rightarrow> string option \<Rightarrow> translated \<Rightarrow> translated" where
  "ap_set_context_info pre root r =
    (let r = r\<lparr>context_prefix := Some pre\<rparr> in
     case root of None \<Rightarrow> r | Some d \<Rightarrow> r\<lparr>context_document_root := Some d\<rparr>)"

definition try_entry :: "outside \<Rightarrow> bool \<Rightarrow> alias_entry \<Rightarrow> translated \<Rightarrow> (found \<times> translated) option" where
  "try_entry env is_redir alias r =
    (case regexp alias of
       Some rx \<Rightarrow>
         (case rx (uri r) of
            None \<Rightarrow> Some (NotFound, r)
          | Some regm \<Rightarrow>
              (case real alias of
                 None \<Rightarrow> Some (Found [], r)
               | Some rl \<Rightarrow>
                   (case ap_pregsub rl (Some (uri r)) AP_MAX_REG_MATCH regm of
                      None \<Rightarrow> Some (PREGSUB_ERROR, r)
                    | Some f \<Rightarrow> Some (Found (if is_redir then escape_target env f else f), r))))
     | None \<Rightarrow>
         (case alias_matches (uri r) (fake alias) of
            None \<Rightarrow> None
          | Some l \<Rightarrow>
              if l > 0 then
                let r = ap_set_context_info (fake alias) (real alias) r in
                if is_redir then Some (Found (pstrcat_real (real alias) (ap_os_escape_path (drop l (uri r)) True)), r)
                else Some (Found (pstrcat_real (real alias) (drop l (uri r))), r)
              else Some (NotFound, r)))"

primrec try_alias_list ::
  "outside \<Rightarrow> string \<Rightarrow> bool \<Rightarrow> alias_entry list \<Rightarrow> translated \<Rightarrow> (found \<times> int \<times> translated) option" where
  "try_alias_list env sroot is_redir [] r = Some (NotFound, 0, r)"
| "try_alias_list env sroot is_redir (alias # rest) r =
    Option.bind (try_entry env is_redir alias r) (\<lambda>(fnd, r).
      case fnd of
        NotFound \<Rightarrow> try_alias_list env sroot is_redir rest r
      | PREGSUB_ERROR \<Rightarrow> Some (PREGSUB_ERROR, 0, r)
      | Found s \<Rightarrow>
          let r = (case alias_handler alias of None \<Rightarrow> r | Some h \<Rightarrow> r\<lparr>handler := Some h, forced_type := Some h\<rparr>);
              res = (if is_redir then Found s
                     else case ap_server_root_relative env sroot s of None \<Rightarrow> NotFound | Some x \<Rightarrow> Found x) in
          Some (res, redir_status alias, r))"

definition try_alias :: "outside \<Rightarrow> string \<Rightarrow> alias_dir_conf \<Rightarrow> translated \<Rightarrow> found \<times> translated" where
  "try_alias env sroot dirconf r =
    (case alias_expr dirconf of
       None \<Rightarrow> (NotFound, r)
     | Some expr \<Rightarrow>
         (case expr r of
            Inl err \<Rightarrow> (PREGSUB_ERROR, r)
          | Inr s \<Rightarrow>
              let r = (case dir_handler dirconf of None \<Rightarrow> r | Some h \<Rightarrow> r\<lparr>handler := Some h, forced_type := Some h\<rparr>) in
              (case ap_server_root_relative env sroot s of None \<Rightarrow> NotFound | Some x \<Rightarrow> Found x, r)))"

definition try_redirect :: "outside \<Rightarrow> alias_dir_conf \<Rightarrow> translated \<Rightarrow> found \<times> int" where
  "try_redirect env dirconf r =
    (if redirect_set dirconf then
       (case redirect_expr dirconf of
          None \<Rightarrow> (Found [], redirect_status dirconf)
        | Some expr \<Rightarrow>
            (case expr r of
               Inl err \<Rightarrow> (PREGSUB_ERROR, 0)
             | Inr s \<Rightarrow> (Found (escape_target env s), redirect_status dirconf)))
     else (NotFound, 0))"

definition ap_is_HTTP_REDIRECT :: "int \<Rightarrow> bool" where
  "ap_is_HTTP_REDIRECT x \<longleftrightarrow> x \<ge> 300 \<and> x < 400"

text \<open>What both hooks do with a redirect that was found.\<close>

definition answer_redirect :: "outside \<Rightarrow> string \<Rightarrow> int \<Rightarrow> translated \<Rightarrow> int \<times> translated" where
  "answer_redirect env s st r =
    (if ap_is_HTTP_REDIRECT st then
       let s = (if peek s = CHR ''/'' then ap_construct_url env s else s) in
       if \<not> ap_is_url s then (HTTP_INTERNAL_SERVER_ERROR, r)
       else (st, r\<lparr>location := Some (case args r of
                      Some a \<Rightarrow> if c_strchr s (CHR ''?'') = None then s @ ''?'' @ a else s
                    | None \<Rightarrow> s)\<rparr>)
     else (st, r))"

text \<open>The redirects: \<open>None\<close> when there is none for the request.\<close>

definition find_redirect ::
  "outside \<Rightarrow> string \<Rightarrow> alias_entry list \<Rightarrow> alias_dir_conf \<Rightarrow> translated \<Rightarrow> ((int \<times> translated) option \<times> translated) option" where
  "find_redirect env sroot entries dirconf r =
    Option.bind
      (case try_redirect env dirconf r of
         (NotFound, _) \<Rightarrow> try_alias_list env sroot True entries r
       | (fnd, st) \<Rightarrow> Some (fnd, st, r))
      (\<lambda>(fnd, st, r). Some (case fnd of
         NotFound \<Rightarrow> (None, r)
       | PREGSUB_ERROR \<Rightarrow> (Some (HTTP_INTERNAL_SERVER_ERROR, r), r)
       | Found s \<Rightarrow> (Some (answer_redirect env s st r), r)))"

definition translate_alias_redir ::
  "outside \<Rightarrow> string \<Rightarrow> alias_server_conf \<Rightarrow> alias_dir_conf \<Rightarrow> translated \<Rightarrow> (int \<times> translated) option" where
  "translate_alias_redir env sroot serverconf dirconf r =
    (if peek (uri r) \<noteq> CHR ''/'' \<and> peek (uri r) \<noteq> NUL then Some (DECLINED, r)
     else Option.bind (find_redirect env sroot (redirects serverconf) dirconf r) (\<lambda>(answer, r).
       case answer of
         Some res \<Rightarrow> Some res
       | None \<Rightarrow>
           Option.bind
             (case try_alias env sroot dirconf r of
                (NotFound, r) \<Rightarrow> try_alias_list env sroot False (aliases serverconf) r
              | (fnd, r) \<Rightarrow> Some (fnd, 0, r))
             (\<lambda>(ret, st, r). Some (case ret of
                NotFound \<Rightarrow> (DECLINED, r)
              | PREGSUB_ERROR \<Rightarrow> (OK, r\<lparr>filename := Some []\<rparr>)
              | Found s \<Rightarrow> (OK, r\<lparr>filename := Some s\<rparr>)))))"

definition fixup_redir ::
  "outside \<Rightarrow> string \<Rightarrow> alias_entry list \<Rightarrow> alias_dir_conf \<Rightarrow> translated \<Rightarrow> (int \<times> translated) option" where
  "fixup_redir env sroot entries dirconf r =
    map_option (\<lambda>(answer, r). case answer of Some res \<Rightarrow> res | None \<Rightarrow> (DECLINED, r))
      (find_redirect env sroot entries dirconf r)"

section \<open>The core\<close>

text \<open>\<open>droot\<close> is the document root and \<open>spath\<close> is \<open>r->server->path\<close> of the directive \<open>ServerPath\<close>; reads past the end of
  the URI do not happen after the comparison of the prefix.\<close>

definition skip_server_path :: "string option \<Rightarrow> string \<Rightarrow> string" where
  "skip_server_path spath u =
    (case spath of
       Some sp \<Rightarrow>
         if take (length sp) u = sp
            \<and> (at sp (length sp - 1) = CHR ''/'' \<or> at u (length sp) = CHR ''/'' \<or> at u (length sp) = NUL)
         then drop (length sp) u else u
     | None \<Rightarrow> u)"

definition ap_core_translate ::
  "outside \<Rightarrow> string \<Rightarrow> string option \<Rightarrow> translated \<Rightarrow> int \<times> translated" where
  "ap_core_translate env droot spath r =
    (if proxyreq r then (HTTP_FORBIDDEN, r)
     else if peek (uri r) \<noteq> CHR ''/'' \<and> uri r \<noteq> ''*'' then (HTTP_BAD_REQUEST, r)
     else
       let pth = dropWhile (\<lambda>c. c = CHR ''/'') (skip_server_path spath (uri r)) in
       case apr_filepath_merge env droot pth True of
         (rv, out) \<Rightarrow>
           if rv \<noteq> APR_SUCCESS then (HTTP_FORBIDDEN, r\<lparr>filename := out\<rparr>)
           else (OK, r\<lparr>filename := out, canonical_filename := out\<rparr>))"

section \<open>The start of request processing\<close>

text \<open>Writing to \<open>r->parsed_uri.path\<close> writes to \<open>r->uri\<close>.\<close>

definition set_path :: "string \<Rightarrow> translated \<Rightarrow> translated" where
  "set_path s r = r\<lparr>parsed_uri := (parsed_uri r)\<lparr>path := Some s\<rparr>, uri := s\<rparr>"

definition decode_path :: "bool \<Rightarrow> bool \<Rightarrow> translated \<Rightarrow> int \<times> translated" where
  "decode_path allow decode r =
    (case path (parsed_uri r) of
       None \<Rightarrow> (OK, r)
     | Some p \<Rightarrow>
         if proxyreq r then (OK, r)
         else
           (case (if allow then ap_unescape_url_keep2f p decode else ap_unescape_url p) of
              (st, s) \<Rightarrow> (st, set_path s r)))"

definition getparents_uri :: "translated \<Rightarrow> translated" where
  "getparents_uri r =
    (if path (parsed_uri r) = None then r\<lparr>uri := ap_getparents (uri r)\<rparr>
     else set_path (ap_getparents (uri r)) r)"

definition decl_die :: "int \<Rightarrow> int" where
  "decl_die st = (if st = DECLINED then HTTP_INTERNAL_SERVER_ERROR else st)"

text \<open>
  \<open>ap_process_request_internal\<close> up to the translation, for a request that is not a file
  subrequest. \<open>walks\<close> stands for \<open>ap_location_walk\<close> and \<open>ap_if_walk\<close>, which select the
  configuration; the hooks are those of \<open>mod_alias\<close> and, last, of the core.
\<close>

record translate_conf =
  allow_encoded_slashes :: bool
  decode_encoded_slashes :: bool
  server_root :: string
  document_root :: string
  server_path :: "string option"
  alias_server :: alias_server_conf
  alias_dir :: alias_dir_conf

definition ap_run_translate_name :: "outside \<Rightarrow> translate_conf \<Rightarrow> translated \<Rightarrow> (int \<times> translated) option" where
  "ap_run_translate_name env conf r =
    Option.bind (translate_alias_redir env (server_root conf) (alias_server conf) (alias_dir conf) r) (\<lambda>(st, r).
      Some (if st = DECLINED then ap_core_translate env (document_root conf) (server_path conf) r else (st, r)))"

definition process_uri :: "outside \<Rightarrow> translate_conf \<Rightarrow> (translated \<Rightarrow> int) \<Rightarrow> translated \<Rightarrow> (int \<times> translated) option" where
  "process_uri env conf walks r =
    (case decode_path (allow_encoded_slashes conf) (decode_encoded_slashes conf) r of
       (st, r) \<Rightarrow>
         if st \<noteq> OK then Some (st, r)
         else
           let r = getparents_uri r in
           if walks r \<noteq> OK then Some (walks r, r)
           else map_option (\<lambda>(st, r). (if st \<noteq> OK then decl_die st else OK, r)) (ap_run_translate_name env conf r))"

section \<open>Parts of a path\<close>

text \<open>No segment of the path is a dot segment.\<close>

definition no_dots :: "string \<Rightarrow> bool" where
  "no_dots s \<longleftrightarrow> ''.'' \<notin> set (segments s) \<and> ''..'' \<notin> set (segments s)"

lemma segments_at_slash: "segments (a @ CHR ''/'' # t) = segments a @ segments t"
  by (induction a) auto

lemma segments_concat: "segments (a @ b) = butlast (segments a) @ (last (segments a) @ hd (segments b)) # tl (segments b)"
proof (induction a)
  case (Cons c a)
  then show ?case by (cases "segments a") auto
qed simp

lemma no_dots_subset: "set (segments t) \<subseteq> insert [] (set (segments s)) \<Longrightarrow> no_dots s \<Longrightarrow> no_dots t"
  by (auto simp: no_dots_def)

lemma no_dots_append:
  assumes "no_dots a" and "no_dots b"
  shows "no_dots (a @ b)"
proof -
  have "last (segments a) \<in> set (segments a)" "hd (segments b) \<in> set (segments b)" by simp_all
  then have d: "last (segments a) \<notin> {''.'', ''..''}" "hd (segments b) \<notin> {''.'', ''..''}"
    using assms unfolding no_dots_def by (metis insertE singletonD)+
  have "x @ y \<notin> {''.'', ''..''}" if "x \<notin> {''.'', ''..''}" "y \<notin> {''.'', ''..''}" for x y :: string
    using that by (auto simp: append_eq_Cons_conv)
  from this [OF d] show ?thesis
    using assms by (auto simp: no_dots_def segments_concat dest: in_set_butlastD list.set_sel(2) [OF segments_not_Nil])
qed

text \<open>What is left of a path from a slash on, or after one.\<close>

lemma segments_suffix:
  assumes "s = p @ t" and "p = [] \<or> last p = CHR ''/'' \<or> t = [] \<or> hd t = CHR ''/''"
  shows "set (segments t) \<subseteq> insert [] (set (segments s))"
proof -
  consider "p = []" | q where "p = q @ [CHR ''/'']" | "t = []" | u where "t = CHR ''/'' # u"
    using assms(2) by (cases t; cases p rule: rev_cases) auto
  then show ?thesis
  proof cases
    case 2
    then show ?thesis using assms(1) segments_at_slash [of _ t] by auto
  next
    case 4
    then show ?thesis using assms(1) segments_at_slash [of p] by auto
  qed (use assms(1) in auto)
qed

lemma segments_skip_slashes: "set (segments (dropWhile (\<lambda>c. c = CHR ''/'') s)) \<subseteq> insert [] (set (segments s))"
proof (rule segments_suffix [OF takeWhile_dropWhile_id [symmetric]])
  have "takeWhile (\<lambda>c. c = CHR ''/'') s \<noteq> [] \<Longrightarrow> last (takeWhile (\<lambda>c. c = CHR ''/'') s) = CHR ''/''"
    using set_takeWhileD [OF last_in_set] by fast
  then show "takeWhile (\<lambda>c. c = CHR ''/'') s = [] \<or> last (takeWhile (\<lambda>c. c = CHR ''/'') s) = CHR ''/''
      \<or> dropWhile (\<lambda>c. c = CHR ''/'') s = [] \<or> hd (dropWhile (\<lambda>c. c = CHR ''/'') s) = CHR ''/''"
    by blast
qed

lemma last_no2slash: "p \<noteq> [] \<Longrightarrow> last (ap_no2slash p) = last p"
proof (induction p rule: ap_no2slash.induct)
  case (2 c s)
  show ?case
  proof (cases "c = CHR ''/''")
    case True
    show ?thesis
    proof (cases "dropWhile (\<lambda>x. x = CHR ''/'') s = []")
      case d: True
      then have "\<forall>x \<in> set s. x = CHR ''/''" by simp
      then have "last (c # s) = CHR ''/''" using True by (cases s rule: rev_cases) auto
      then show ?thesis using True d by simp
    next
      case False
      then have "last (dropWhile (\<lambda>x. x = CHR ''/'') s) = last s" "s \<noteq> []" by (auto simp: last_dropWhile)
      then show ?thesis using 2(1) True False by auto
    qed
  next
    case False
    then show ?thesis using 2 by simp
  qed
qed simp

lemma alias_rest:
  assumes "alias_matches u a = Some l" and "0 < l" and "cstring a" and "cstring u"
  shows "l \<le> length u" "set (segments (drop l u)) \<subseteq> insert [] (set (segments u))"
proof -
  obtain r where r: "alias_loop a u = Some r" "a \<noteq> []" "l = length u - length r"
    "last a = CHR ''/'' \<or> peek r = NUL \<or> peek r = CHR ''/''"
    using assms(1,2) by (auto simp: alias_matches_def split: option.splits if_splits)
  obtain p where p: "u = p @ r" "ap_no2slash p = ap_no2slash a" using alias_loop_sound [OF assms(3) r(1)] by blast
  then have "drop l u = r" using r(3) by simp
  have "p \<noteq> []" using p(2) r(2) no2slash_Nil by metis
  then have "last a = CHR ''/'' \<Longrightarrow> last p = CHR ''/''" using p(2) last_no2slash r(2) by metis
  moreover have "peek r = NUL \<Longrightarrow> r = []" using assms(4) p(1) cstring_peek by simp
  moreover have "peek r = CHR ''/'' \<Longrightarrow> r = [] \<or> hd r = CHR ''/''" by (cases r) simp_all
  ultimately have "set (segments r) \<subseteq> insert [] (set (segments u))"
    using r(4) p(1) by (intro segments_suffix [of u p r]) auto
  then show "set (segments (drop l u)) \<subseteq> insert [] (set (segments u))" using \<open>drop l u = r\<close> by simp
  show "l \<le> length u" using r(3) by simp
qed

section \<open>What the translation keeps and finds\<close>

text \<open>The fields that the search for aliases and redirects does not touch.\<close>

definition kept_fields :: "translated \<Rightarrow> translated \<Rightarrow> bool" where
  "kept_fields r r' \<longleftrightarrow> uri r' = uri r \<and> proxyreq r' = proxyreq r \<and> filename r' = filename r \<and> parsed_uri r' = parsed_uri r"

lemma kept_fields_simps [simp]:
  "kept_fields r r" "kept_fields r (ap_set_context_info pre root r)"
  "kept_fields r (case h of None \<Rightarrow> r' | Some x \<Rightarrow> r'\<lparr>handler := Some x, forced_type := Some x\<rparr>) = kept_fields r r'"
  by (auto simp: kept_fields_def ap_set_context_info_def Let_def split: option.split)

lemma kept_fields_trans: "kept_fields r s \<Longrightarrow> kept_fields s t \<Longrightarrow> kept_fields r t"
  by (simp add: kept_fields_def)

text \<open>Entries whose test does not read in front of the alias.\<close>

definition entry_ok :: "alias_entry \<Rightarrow> bool" where
  "entry_ok e \<longleftrightarrow> regexp e = None \<longrightarrow> fake e \<noteq> []"

lemma alias_matches_Some: "a \<noteq> [] \<Longrightarrow> \<exists>l. alias_matches u a = Some l"
  by (auto simp: alias_matches_def split: option.split)

lemma try_entry_kept:
  assumes "entry_ok e"
  shows "\<exists>fnd r'. try_entry env rd e r = Some (fnd, r') \<and> kept_fields r r'"
proof (cases "regexp e")
  case None
  then obtain l where "alias_matches (uri r) (fake e) = Some l"
    using assms alias_matches_Some by (auto simp: entry_ok_def)
  then show ?thesis using None by (auto simp: try_entry_def Let_def)
qed (auto simp: try_entry_def split: option.splits)

lemma try_alias_list_kept:
  assumes "\<forall>e \<in> set es. entry_ok e"
  shows "\<exists>fnd st r'. try_alias_list env sroot rd es r = Some (fnd, st, r') \<and> kept_fields r r'"
  using assms
proof (induction es arbitrary: r)
  case (Cons e es)
  then obtain fnd r' where e: "try_entry env rd e r = Some (fnd, r')" "kept_fields r r'"
    using try_entry_kept by fastforce
  then show ?case
    using Cons.IH [of r'] Cons.prems kept_fields_trans by (cases fnd) (force simp: Let_def)+
qed simp

text \<open>Aliases that are not regular expressions.\<close>

definition plain_alias :: "alias_entry \<Rightarrow> bool" where
  "plain_alias e \<longleftrightarrow> regexp e = None \<and> fake e \<noteq> [] \<and> cstring (fake e) \<and> (\<exists>d. real e = Some d \<and> no_dots d)"

lemma try_alias_list_plain:
  assumes "\<forall>e \<in> set es. plain_alias e" and "cstring (uri r)" and "no_dots (uri r)"
  shows "\<exists>fnd st r'. try_alias_list env sroot False es r = Some (fnd, st, r') \<and> kept_fields r r' \<and> fnd \<noteq> PREGSUB_ERROR \<and>
    (\<forall>f. fnd = Found f \<longrightarrow> (\<exists>a. ap_server_root_relative env sroot a = Some f \<and> no_dots a))"
  using assms
proof (induction es arbitrary: r)
  case (Cons e es)
  have e: "regexp e = None" "cstring (fake e)" and "fake e \<noteq> []" using Cons.prems(1) by (auto simp: plain_alias_def)
  obtain d where d: "real e = Some d" "no_dots d" using Cons.prems(1) by (auto simp: plain_alias_def)
  obtain l where l: "alias_matches (uri r) (fake e) = Some l" using alias_matches_Some [OF \<open>fake e \<noteq> []\<close>] by blast
  show ?case
  proof (cases "l > 0")
    case False
    then show ?thesis using Cons l e by (simp add: try_entry_def)
  next
    case True
    have "no_dots (drop l (uri r))"
      using alias_rest(2) [OF l True e(2) Cons.prems(2)] Cons.prems(3) by (rule no_dots_subset)
    then have "no_dots (d @ drop l (uri r))" by (rule no_dots_append [OF d(2)])
    moreover have "uri (ap_set_context_info (fake e) (Some d) r) = uri r"
      by (simp add: ap_set_context_info_def)
    ultimately show ?thesis
      using True l e(1) d(1)
      by (auto simp: try_entry_def Let_def pstrcat_real_def split: option.splits)
  qed
qed simp

lemma no_dots_getparents: "no_dots (ap_getparents s)"
  using resolve_props(2) [of "[]" "segments s"] unfolding no_dots_def getparents_segments by auto

lemma cstring_join: "(\<forall>s \<in> set ss. cstring s) \<Longrightarrow> cstring (join ss)"
  by (induction ss rule: join.induct) (auto simp: cstring_def)

lemma cstring_segments: "cstring s \<Longrightarrow> x \<in> set (segments s) \<Longrightarrow> cstring x"
proof (induction s arbitrary: x)
  case (Cons c s)
  then show ?case by (cases "segments s") (auto simp: cstring_def split: if_splits)
qed (simp add: cstring_def)

lemma cstring_getparents: "cstring s \<Longrightarrow> cstring (ap_getparents s)"
  unfolding ap_getparents_resolve
proof (rule cstring_join, rule ballI)
  fix x assume "cstring s" and x: "x \<in> set (resolve [] (segments s))"
  then have "x = [] \<or> x \<in> set (segments s)" using resolve_props(2) [of "[]" "segments s"] by auto
  then show "cstring x" using cstring_segments [OF \<open>cstring s\<close>] by (auto simp: cstring_def)
qed

lemma find_redirect_kept:
  assumes "\<forall>e \<in> set es. entry_ok e"
  shows "\<exists>answer r'. find_redirect env sroot es dconf r = Some (answer, r') \<and> kept_fields r r' \<and>
    (\<forall>st r''. answer = Some (st, r'') \<longrightarrow> kept_fields r r'')"
proof -
  obtain fnd st r' where
    f: "(case try_redirect env dconf r of (NotFound, _) \<Rightarrow> try_alias_list env sroot True es r
         | (fnd, st) \<Rightarrow> Some (fnd, st, r)) = Some (fnd, st, r')" "kept_fields r r'"
    using try_alias_list_kept [OF assms, of env sroot True r]
    by (cases "try_redirect env dconf r" rule: prod.exhaust; cases "fst (try_redirect env dconf r)") auto
  have "find_redirect env sroot es dconf r = Some (case fnd of
         NotFound \<Rightarrow> (None, r')
       | PREGSUB_ERROR \<Rightarrow> (Some (HTTP_INTERNAL_SERVER_ERROR, r'), r')
       | Found s \<Rightarrow> (Some (answer_redirect env s st r'), r'))"
    unfolding find_redirect_def f(1) by simp
  moreover have "kept_fields r r''" if "answer_redirect env s st r' = (st', r'')" for s st' r''
    using f(2) that by (auto simp: answer_redirect_def Let_def kept_fields_def split: if_splits option.splits)
  ultimately show ?thesis using f(2) by (cases fnd) auto
qed

text \<open>Where a file name may come from: a path without dot segments below the server root (which a
  real name of the configuration starts), or one relative to the document root.\<close>

definition safe_file :: "outside \<Rightarrow> translate_conf \<Rightarrow> string option \<Rightarrow> bool" where
  "safe_file env conf f \<longleftrightarrow>
    (\<exists>a. no_dots a \<and>
      (f \<noteq> None \<and> ap_server_root_relative env (server_root conf) a = f \<or>
       peek a \<noteq> CHR ''/'' \<and> apr_filepath_merge env (document_root conf) a True = (APR_SUCCESS, f)))"

definition conf_ok :: "translate_conf \<Rightarrow> bool" where
  "conf_ok conf \<longleftrightarrow>
    (\<forall>e \<in> set (aliases (alias_server conf)). plain_alias e) \<and>
    (\<forall>e \<in> set (redirects (alias_server conf)). entry_ok e) \<and> alias_expr (alias_dir conf) = None"

lemma translate_alias_safe:
  assumes "conf_ok conf" and "cstring (uri r)" and "no_dots (uri r)"
  shows "\<exists>st r'. translate_alias_redir env (server_root conf) (alias_server conf) (alias_dir conf) r = Some (st, r') \<and>
    uri r' = uri r \<and> proxyreq r' = proxyreq r \<and> (filename r' = filename r \<or> safe_file env conf (filename r'))"
proof (cases "peek (uri r) \<noteq> CHR ''/'' \<and> peek (uri r) \<noteq> NUL")
  case False
  obtain answer r1 where a: "find_redirect env (server_root conf) (redirects (alias_server conf)) (alias_dir conf) r = Some (answer, r1)"
    "kept_fields r r1" "\<And>st r''. answer = Some (st, r'') \<Longrightarrow> kept_fields r r''"
    using find_redirect_kept [of "redirects (alias_server conf)"] assms(1) unfolding conf_ok_def by metis
  show ?thesis
  proof (cases answer)
    case (Some res)
    then show ?thesis using a False by (cases res) (auto simp: translate_alias_redir_def kept_fields_def)
  next
    case None
    have none: "try_alias env (server_root conf) (alias_dir conf) r1 = (NotFound, r1)"
      using assms(1) by (simp add: try_alias_def conf_ok_def)
    obtain fnd st r2 where l: "try_alias_list env (server_root conf) False (aliases (alias_server conf)) r1 = Some (fnd, st, r2)"
      "kept_fields r1 r2" "fnd \<noteq> PREGSUB_ERROR"
      "\<And>f. fnd = Found f \<Longrightarrow> \<exists>a. ap_server_root_relative env (server_root conf) a = Some f \<and> no_dots a"
      using try_alias_list_plain [of "aliases (alias_server conf)" r1 env "server_root conf"] assms a(2)
      unfolding conf_ok_def kept_fields_def by metis
    show ?thesis
      using l a(1,2) none None False
      by (cases fnd) (auto simp: translate_alias_redir_def kept_fields_def safe_file_def)
  qed
qed (simp add: translate_alias_redir_def)

lemma segments_skip_server_path:
  assumes "cstring u"
  shows "set (segments (skip_server_path spath u)) \<subseteq> insert [] (set (segments u))"
proof (cases "skip_server_path spath u = u")
  case False
  then obtain sp where sp: "spath = Some sp" "take (length sp) u = sp" "skip_server_path spath u = drop (length sp) u"
    "at sp (length sp - 1) = CHR ''/'' \<or> at u (length sp) = CHR ''/'' \<or> at u (length sp) = NUL"
    by (auto simp: skip_server_path_def split: option.splits if_splits)
  have u: "u = sp @ drop (length sp) u" using sp(2) append_take_drop_id by metis
  have "sp = [] \<or> last sp = CHR ''/'' \<or> drop (length sp) u = [] \<or> hd (drop (length sp) u) = CHR ''/''"
    using sp(4) assms u
    by (auto simp: at_def last_conv_nth hd_drop_conv_nth cstring_def not_less split: if_splits dest: nth_mem)
  then show ?thesis using segments_suffix [OF u] sp(3) by simp
qed auto

lemma core_translate_safe:
  assumes "no_dots (uri r)" and "cstring (uri r)"
  shows "\<exists>st r'. ap_core_translate env (document_root conf) (server_path conf) r = (st, r') \<and>
    uri r' = uri r \<and> (st = OK \<longrightarrow> safe_file env conf (filename r'))"
proof -
  let ?a = "dropWhile (\<lambda>c. c = CHR ''/'') (skip_server_path (server_path conf) (uri r))"
  have "no_dots ?a"
    using no_dots_subset [OF segments_skip_slashes] no_dots_subset [OF segments_skip_server_path [OF assms(2)] assms(1)]
    by blast
  moreover have "peek ?a \<noteq> CHR ''/''" by (rule peek_dropWhile_slash)
  ultimately show ?thesis
    by (auto simp: ap_core_translate_def safe_file_def Let_def split: prod.split)
qed

lemma process_uri_safe:
  assumes "conf_ok conf" and "cstring (uri r)" and "path (parsed_uri r) = None \<or> path (parsed_uri r) = Some (uri r)"
  shows "\<exists>st r'. process_uri env conf walks r = Some (st, r') \<and>
    (st = OK \<longrightarrow> no_dots (uri r') \<and> cstring (uri r') \<and> (filename r' = filename r \<or> safe_file env conf (filename r')))"
proof -
  obtain st r1 where d: "decode_path (allow_encoded_slashes conf) (decode_encoded_slashes conf) r = (st, r1)"
    by (cases "decode_path (allow_encoded_slashes conf) (decode_encoded_slashes conf) r")
  show ?thesis
  proof (cases "st = OK")
    case True
    have c1: "cstring (uri r1)" and f1: "filename r1 = filename r"
      using d True assms(2,3) unescape_url_cstring
      by (auto simp: decode_path_def set_path_def ap_unescape_url_def ap_unescape_url_keep2f_def split: if_splits prod.splits)
    let ?r = "getparents_uri r1"
    have u: "uri ?r = ap_getparents (uri r1)" and f: "filename ?r = filename r"
      by (simp_all add: getparents_uri_def set_path_def f1)
    then have n: "no_dots (uri ?r)" and c: "cstring (uri ?r)"
      using no_dots_getparents cstring_getparents [OF c1] by simp_all
    obtain st2 r2 where a: "translate_alias_redir env (server_root conf) (alias_server conf) (alias_dir conf) ?r = Some (st2, r2)"
      "uri r2 = uri ?r" "filename r2 = filename ?r \<or> safe_file env conf (filename r2)"
      using translate_alias_safe [OF assms(1) c n] by blast
    obtain st3 r3 where b: "ap_core_translate env (document_root conf) (server_path conf) r2 = (st3, r3)"
      "uri r3 = uri r2" "st3 = OK \<longrightarrow> safe_file env conf (filename r3)"
      using core_translate_safe [of r2] n c a(2) by metis
    show ?thesis
      using d True a b n c f by (auto simp: process_uri_def ap_run_translate_name_def Let_def decl_die_def split: if_splits)
  qed (simp add: process_uri_def d)
qed

text \<open>
  A substitution that fails makes a regular expression alias return \<open>PREGSUB_ERROR\<close>. Unlike the
  branch for redirects, the one for aliases does not test for it: the request is translated, and its
  file name is the NUL byte whose address is the error value.
\<close>

lemma alias_error_becomes_file:
  assumes "aliases sconf = [e]" and "redirects sconf = []" and "\<not> redirect_set dconf" and "alias_expr dconf = None"
    and "regexp e = Some rx" and "rx (uri r) = Some pm" and "real e = Some d"
    and "ap_pregsub d (Some (uri r)) 10 pm = None" and "peek (uri r) = CHR ''/''"
  shows "translate_alias_redir env sroot sconf dconf r = Some (OK, r\<lparr>filename := Some []\<rparr>)"
  using assms by (simp add: translate_alias_redir_def find_redirect_def try_redirect_def try_alias_def try_entry_def)

end
