(* ===== verification/Authz.thy ===== *)
theory Authz
  imports Words Methods
begin

text \<open>
  Authorization (\<^verbatim>\<open>modules/aaa/mod_authz_core.c\<close>): how the directives \<open>Require\<close>, \<open><RequireAll>\<close>,
  \<open><RequireAny>\<close> and \<open><RequireNone>\<close> build a tree of sections, how the tree is checked and rewritten when
  the server starts, how the trees of nested directories are merged, and how a tree decides a request.

  A section is a node with the list of its children, where the source links them by \<open>next\<close>. The
  provider of a node stands for \<open>provider\<close>, its name and its arguments; what a provider
  answers for the request is an argument, and so are the lookup of providers by name and the parsing of their arguments.
  A directive is given with the methods of the \<open><Limit>\<close> around it (\<open>cmd->limited\<close>).

  The tree is flattened twice: a container within one of the same kind, and a negated
  one by De Morgan's law. The negation of the module is not an involution and results are
  ordered, so that this is not obvious; the lemmas show that neither step changes a decision,
  and the theorem at the end that the decision is the one the documentation of the directives describes.
\<close>

unbundle bit_operations_syntax

section \<open>Data\<close>

datatype authz_status =
  AUTHZ_DENIED | AUTHZ_GRANTED | AUTHZ_NEUTRAL | AUTHZ_GENERAL_ERROR | AUTHZ_DENIED_NO_USER

datatype authz_logic_op = AUTHZ_LOGIC_AND | AUTHZ_LOGIC_OR | AUTHZ_LOGIC_OFF | AUTHZ_LOGIC_UNSET

datatype 'p authz_section_conf =
  Section (provider: "'p option") (limited: "64 word") (logic: authz_logic_op) (negate: bool) (is_merged: bool)
    (children: "'p authz_section_conf list")

record 'p authz_core_dir_conf =
  section_of :: "'p authz_section_conf option"
  merge_op :: authz_logic_op
  authz_forbidden_on_fail :: int

abbreviation (input) UNSET :: int where "UNSET \<equiv> -1"

section \<open>Evaluation\<close>

definition negate_result :: "bool \<Rightarrow> authz_status \<Rightarrow> authz_status" where
  "negate_result neg res =
    (if neg then
       if res = AUTHZ_GRANTED then AUTHZ_DENIED
       else if res = AUTHZ_DENIED \<or> res = AUTHZ_DENIED_NO_USER then AUTHZ_NEUTRAL
       else res
     else res)"

text \<open>The body of the loop over the children: \<open>None\<close> is a \<open>break\<close> with the result of the child.\<close>

definition combine :: "authz_logic_op \<Rightarrow> authz_status \<Rightarrow> authz_status \<Rightarrow> authz_status option" where
  "combine lop child_result auth_result =
    (if child_result \<noteq> AUTHZ_NEUTRAL then
       if lop = AUTHZ_LOGIC_AND then
         if child_result = AUTHZ_DENIED then None
         else if child_result = AUTHZ_DENIED_NO_USER \<and> auth_result \<noteq> AUTHZ_DENIED \<or> auth_result = AUTHZ_NEUTRAL
         then Some child_result else Some auth_result
       else
         if child_result = AUTHZ_GRANTED then None
         else if child_result = AUTHZ_DENIED_NO_USER \<and> auth_result = AUTHZ_DENIED \<or> auth_result = AUTHZ_NEUTRAL
         then Some child_result else Some auth_result
     else Some auth_result)"

fun apply_authz_sections :: "('p \<Rightarrow> authz_status) \<Rightarrow> int \<Rightarrow> authz_logic_op \<Rightarrow> 'p authz_section_conf \<Rightarrow> authz_status"
  and apply_children :: "('p \<Rightarrow> authz_status) \<Rightarrow> int \<Rightarrow> authz_logic_op \<Rightarrow> authz_status \<Rightarrow> 'p authz_section_conf list \<Rightarrow> authz_status" where
  "apply_authz_sections check m parent_op (Section prov lim lop neg mg cs) =
    (if lim AND method_bit m = 0 then
       if parent_op = AUTHZ_LOGIC_AND then AUTHZ_GRANTED else AUTHZ_NEUTRAL
     else
       negate_result neg (case prov of Some p \<Rightarrow> check p | None \<Rightarrow> apply_children check m lop AUTHZ_NEUTRAL cs))"
| "apply_children check m lop auth_result [] = auth_result"
| "apply_children check m lop auth_result (c # cs) =
    (let child_result = apply_authz_sections check m lop c in
     if child_result = AUTHZ_GENERAL_ERROR then AUTHZ_GENERAL_ERROR
     else case combine lop child_result auth_result of
       None \<Rightarrow> child_result
     | Some res \<Rightarrow> apply_children check m lop res cs)"

text \<open>The answer of the module, and whether \<open>ap_note_auth_failure\<close> is called.\<close>

definition authorize_user_core ::
  "('p \<Rightarrow> authz_status) \<Rightarrow> int \<Rightarrow> string option \<Rightarrow> string option \<Rightarrow> 'p authz_core_dir_conf \<Rightarrow> bool \<Rightarrow> int \<times> bool" where
  "authorize_user_core check m auth_type user conf after_authn =
    (case section_of conf of
       None \<Rightarrow> if auth_type \<noteq> None then (HTTP_INTERNAL_SERVER_ERROR, False) else (OK, False)
     | Some sec \<Rightarrow>
         (let auth_result = apply_authz_sections check m AUTHZ_LOGIC_AND sec in
          if auth_result = AUTHZ_GRANTED then (OK, False)
          else if auth_result = AUTHZ_DENIED_NO_USER then
            if after_authn then (HTTP_UNAUTHORIZED, user \<noteq> None) else (DECLINED, False)
          else if auth_result = AUTHZ_DENIED \<or> auth_result = AUTHZ_NEUTRAL then
            if \<not> after_authn \<or> auth_type = None then (HTTP_FORBIDDEN, False)
            else if authz_forbidden_on_fail conf > 0 then (HTTP_FORBIDDEN, False)
            else (HTTP_UNAUTHORIZED, user \<noteq> None)
          else (HTTP_INTERNAL_SERVER_ERROR, False)))"

definition authz_some_auth_required :: "int \<Rightarrow> 'p authz_core_dir_conf \<Rightarrow> bool" where
  "authz_some_auth_required m conf =
    (case section_of conf of None \<Rightarrow> False | Some sec \<Rightarrow> limited sec AND method_bit m \<noteq> 0)"

section \<open>Directives\<close>

datatype container = RequireAll | RequireAny | RequireNone

datatype directive = Require string | Container container "directive list"

datatype authz_error = Unknown_Provider string | Bad_Arguments string | Negative_In_Or | No_Directives

text \<open>\<open>lookup\<close> finds a provider and gives the parser of its arguments, which answers with a message or
  with the provider for a request.\<close>

type_synonym 'p lookup = "string \<Rightarrow> (string \<Rightarrow> string + 'p) option"

definition create_default_section :: "'p authz_section_conf" where
  "create_default_section = Section None 0 AUTHZ_LOGIC_OR False False []"

definition default_section :: "'p authz_section_conf option \<Rightarrow> 'p authz_section_conf" where
  "default_section sec = (case sec of None \<Rightarrow> create_default_section | Some s \<Rightarrow> s)"

text \<open>Appending to the list of children, and widening \<open>limited\<close>.\<close>

fun append_section :: "64 word \<Rightarrow> 'p authz_section_conf list \<Rightarrow> 'p authz_section_conf \<Rightarrow> 'p authz_section_conf" where
  "append_section l ss (Section prov lim lop neg mg cs) = Section prov (lim OR l) lop neg mg (cs @ ss)"

definition parse_require :: "'p lookup \<Rightarrow> string \<Rightarrow> authz_error + (bool \<times> 'p)" where
  "parse_require lookup line =
    (let (w, rest) = ap_getword_conf line;
         neg = strcaseeq w ''not'';
         (provider_name, args) = (if neg then ap_getword_conf rest else (w, rest)) in
     case lookup provider_name of
       None \<Rightarrow> Inl (Unknown_Provider provider_name)
     | Some parse \<Rightarrow> (case parse args of Inl err \<Rightarrow> Inl (Bad_Arguments err) | Inr p \<Rightarrow> Inr (neg, p)))"

definition add_authz_provider ::
  "'p lookup \<Rightarrow> 64 word \<Rightarrow> 'p authz_section_conf option \<Rightarrow> string \<Rightarrow> authz_error + 'p authz_section_conf" where
  "add_authz_provider lookup lim sec line =
    (case parse_require lookup line of
       Inl e \<Rightarrow> Inl e
     | Inr (neg, p) \<Rightarrow>
         let cur = default_section sec in
         if neg \<and> logic cur = AUTHZ_LOGIC_OR then Inl Negative_In_Or
         else Inr (append_section lim [Section (Some p) lim AUTHZ_LOGIC_AND neg False []] cur))"

definition container_op :: "container \<Rightarrow> authz_logic_op \<times> bool" where
  "container_op k =
    (case k of RequireAll \<Rightarrow> (AUTHZ_LOGIC_AND, False) | RequireAny \<Rightarrow> (AUTHZ_LOGIC_OR, False)
     | RequireNone \<Rightarrow> (AUTHZ_LOGIC_OR, True))"

text \<open>The end of \<open>add_authz_section\<close>: the section that was read joins the one around it.\<close>

definition join_section ::
  "'p authz_section_conf \<Rightarrow> 'p authz_section_conf option \<Rightarrow> authz_error + 'p authz_section_conf" where
  "join_section sec old_section =
    (if children sec \<noteq> [] then
       let old = default_section old_section in
       if negate sec \<and> logic old = AUTHZ_LOGIC_OR then Inl Negative_In_Or
       else Inr (append_section (limited sec)
         (if \<not> negate sec \<and> logic sec = logic old then children sec else [sec]) old)
     else Inl No_Directives)"

fun add_directive ::
  "'p lookup \<Rightarrow> 64 word \<Rightarrow> 'p authz_section_conf option \<Rightarrow> directive \<Rightarrow> authz_error + 'p authz_section_conf"
  and walk_config ::
  "'p lookup \<Rightarrow> 64 word \<Rightarrow> 'p authz_section_conf \<Rightarrow> directive list \<Rightarrow> authz_error + 'p authz_section_conf" where
  "add_directive lookup lim sec (Require line) = add_authz_provider lookup lim sec line"
| "add_directive lookup lim sec (Container k ds) =
    (let (lop, neg) = container_op k in
     case walk_config lookup (lim AND NOT (method_bit 63)) (Section None 0 lop neg False []) ds of
       Inl e \<Rightarrow> Inl e
     | Inr s \<Rightarrow> join_section s sec)"
| "walk_config lookup lim sec [] = Inr sec"
| "walk_config lookup lim sec (d # ds) =
    (case add_directive lookup lim (Some sec) d of Inl e \<Rightarrow> Inl e | Inr s \<Rightarrow> walk_config lookup lim s ds)"

text \<open>The directives of a directory section, each with the methods it is limited to.\<close>

fun directory_config ::
  "'p lookup \<Rightarrow> 'p authz_section_conf option \<Rightarrow> (64 word \<times> directive) list \<Rightarrow> authz_error + 'p authz_section_conf option" where
  "directory_config lookup sec [] = Inr sec"
| "directory_config lookup sec ((lim, d) # ds) =
    (case add_directive lookup lim sec d of Inl e \<Rightarrow> Inl e | Inr s \<Rightarrow> directory_config lookup (Some s) ds)"

definition authz_merge_sections :: "string \<Rightarrow> 'p authz_core_dir_conf \<Rightarrow> string + 'p authz_core_dir_conf" where
  "authz_merge_sections arg conf =
    (if strcaseeq arg ''Off'' then Inr (conf\<lparr>merge_op := AUTHZ_LOGIC_OFF\<rparr>)
     else if strcaseeq arg ''And'' then Inr (conf\<lparr>merge_op := AUTHZ_LOGIC_AND\<rparr>)
     else if strcaseeq arg ''Or'' then Inr (conf\<lparr>merge_op := AUTHZ_LOGIC_OR\<rparr>)
     else Inl '' must be one of: Off | And | Or'')"

section \<open>The check at startup\<close>

fun flip :: "'p authz_section_conf \<Rightarrow> 'p authz_section_conf" where
  "flip (Section prov lim lop neg mg cs) = Section prov lim lop (\<not> neg) mg cs"

text \<open>\<open>None\<close> is the failure of the check, with which the server does not start.\<close>

fun authz_core_check_section :: "'p authz_section_conf \<Rightarrow> 'p authz_section_conf option"
  and check_children :: "authz_logic_op \<Rightarrow> 'p authz_section_conf list \<Rightarrow> 'p authz_section_conf list option" where
  "authz_core_check_section (Section prov lim lop neg mg cs) =
    (case check_children lop cs of
       None \<Rightarrow> None
     | Some cs' \<Rightarrow> if \<exists>c \<in> set cs'. \<not> negate c then Some (Section prov lim lop neg mg cs') else None)"
| "check_children lop [] = Some []"
| "check_children lop (c # cs) =
    (if children c \<noteq> [] then
       (case authz_core_check_section c of
          None \<Rightarrow> None
        | Some c' \<Rightarrow>
            map_option ((@) (if negate c' \<and> logic c' \<noteq> lop then map flip (children c') else [c'])) (check_children lop cs))
     else map_option ((#) c) (check_children lop cs))"

fun authz_core_check_config :: "'p authz_core_dir_conf list \<Rightarrow> 'p authz_core_dir_conf list option" where
  "authz_core_check_config [] = Some []"
| "authz_core_check_config (conf # confs) =
    (case section_of conf of
       None \<Rightarrow> map_option ((#) conf) (authz_core_check_config confs)
     | Some sec \<Rightarrow>
         (case authz_core_check_section sec of
            None \<Rightarrow> None
          | Some s \<Rightarrow> map_option ((#) (conf\<lparr>section_of := Some s\<rparr>)) (authz_core_check_config confs)))"

section \<open>Merging\<close>

definition create_authz_core_dir_config :: "'p authz_core_dir_conf" where
  "create_authz_core_dir_config = \<lparr>section_of = None, merge_op = AUTHZ_LOGIC_UNSET, authz_forbidden_on_fail = UNSET\<rparr>"

definition merge_authz_core_dir_config ::
  "'p authz_core_dir_conf \<Rightarrow> 'p authz_core_dir_conf \<Rightarrow> 'p authz_core_dir_conf" where
  "merge_authz_core_dir_config base new =
    (let conf =
       (if merge_op new = AUTHZ_LOGIC_UNSET \<and> section_of new = None \<and> section_of base \<noteq> None then base
        else if merge_op new = AUTHZ_LOGIC_OFF \<or> merge_op new = AUTHZ_LOGIC_UNSET
                \<or> (section_of base = None \<and> section_of new = None) then new
        else \<lparr>section_of =
                (case (section_of base, section_of new) of
                   (Some b, Some n) \<Rightarrow> Some (Section None (limited b OR limited n) (merge_op new) False True [b, n])
                 | (Some b, None) \<Rightarrow> Some b
                 | (None, n) \<Rightarrow> n),
              merge_op = merge_op new, authz_forbidden_on_fail = 0\<rparr>) in
     conf\<lparr>authz_forbidden_on_fail :=
       (if authz_forbidden_on_fail new = UNSET then authz_forbidden_on_fail base else authz_forbidden_on_fail new)\<rparr>)"

section \<open>Providers of the module\<close>

definition all_parse_config :: "string \<Rightarrow> string + bool" where
  "all_parse_config require_line =
    (if strcaseeq require_line ''granted'' then Inr True
     else if strcaseeq require_line ''denied'' then Inr False
     else Inl (''Argument for '' @ CHR 0x27 # ''Require all'' @ CHR 0x27 # '' must be ''
       @ CHR 0x27 # ''granted'' @ CHR 0x27 # '' or '' @ CHR 0x27 # ''denied'' @ [CHR 0x27]))"

definition all_check_authorization :: "bool \<Rightarrow> authz_status" where
  "all_check_authorization parsed = (if parsed then AUTHZ_GRANTED else AUTHZ_DENIED)"

lemma getword_conf_shorter: "(w, rest) = ap_getword_conf t \<Longrightarrow> w \<noteq> [] \<Longrightarrow> length rest < length t"
  using conf_words.rest_shorter [of t] by (cases "blank t") (auto simp: ap_getword_conf_def blank_def dest: sym)

function env_check_authorization :: "(string \<Rightarrow> string option) \<Rightarrow> string \<Rightarrow> authz_status" where
  "env_check_authorization env t =
    (let (w, rest) = ap_getword_conf t in
     if w = [] then AUTHZ_DENIED
     else if env w \<noteq> None then AUTHZ_GRANTED
     else env_check_authorization env rest)"
  by pat_completeness auto
termination
  by (relation "measure (\<lambda>(_, t). length t)") (auto intro: getword_conf_shorter)

function method_parse_loop :: "methods \<Rightarrow> string \<Rightarrow> 64 word \<Rightarrow> string + 64 word" where
  "method_parse_loop ms t allowed =
    (let (w, rest) = ap_getword_conf t in
     if w = [] then Inr allowed
     else let m = ap_method_number_of ms w in
       if m = M_INVALID then Inl (''Invalid Method '' @ CHR 0x27 # w @ [CHR 0x27])
       else method_parse_loop ms rest (allowed OR method_bit m))"
  by pat_completeness auto
termination
  by (relation "measure (\<lambda>(_, t, _). length t)") (auto intro: getword_conf_shorter)

definition method_parse_config :: "methods \<Rightarrow> string \<Rightarrow> string + 64 word" where
  "method_parse_config ms require_line = method_parse_loop ms require_line 0"

definition method_check_authorization :: "int \<Rightarrow> 64 word \<Rightarrow> authz_status" where
  "method_check_authorization m allowed = (if allowed AND method_bit m \<noteq> 0 then AUTHZ_GRANTED else AUTHZ_DENIED)"

declare env_check_authorization.simps [simp del] method_parse_loop.simps [simp del]

section \<open>Lists of results\<close>

text \<open>What the loop over the children makes of their results.\<close>

primrec outcome :: "authz_logic_op \<Rightarrow> authz_status \<Rightarrow> authz_status list \<Rightarrow> authz_status" where
  "outcome lop acc [] = acc"
| "outcome lop acc (r # rs) =
    (if r = AUTHZ_GENERAL_ERROR then AUTHZ_GENERAL_ERROR
     else case combine lop r acc of None \<Rightarrow> r | Some a \<Rightarrow> outcome lop a rs)"

lemma apply_children_outcome:
  "apply_children check m lop acc cs = outcome lop acc (map (apply_authz_sections check m lop) cs)"
  by (induction cs arbitrary: acc) (auto simp: Let_def split: option.split)

text \<open>The results that do not end the loop, and with which it can go on.\<close>

definition going :: "authz_logic_op \<Rightarrow> authz_status \<Rightarrow> bool" where
  "going lop r \<longleftrightarrow> r \<noteq> AUTHZ_GENERAL_ERROR \<and> r \<noteq> (if lop = AUTHZ_LOGIC_AND then AUTHZ_DENIED else AUTHZ_GRANTED)"

lemma combine_going:
  "going lop r \<Longrightarrow> going lop acc \<Longrightarrow> \<exists>a. combine lop r acc = Some a \<and> going lop a"
  by (auto simp: combine_def going_def split: if_splits)

lemma combine_stop: "r \<noteq> AUTHZ_GENERAL_ERROR \<Longrightarrow> combine lop r acc = None \<longleftrightarrow> \<not> going lop r"
  by (auto simp: combine_def going_def)

lemma combine_neutral [simp]:
  "combine lop AUTHZ_NEUTRAL acc = Some acc" "going lop AUTHZ_NEUTRAL"
  by (auto simp: combine_def going_def)

lemma combine_assoc:
  assumes "combine lop b a = Some c" and "combine lop r b = Some b'" and "going lop b"
  shows "combine lop r c = combine lop b' a"
  using assms by (cases "lop = AUTHZ_LOGIC_AND"; cases a; cases b; cases r) (auto simp: combine_def going_def)

lemma outcome_append:
  "going lop acc \<Longrightarrow> outcome lop acc (rs @ ss) =
    (if going lop (outcome lop acc rs) then outcome lop (outcome lop acc rs) ss else outcome lop acc rs)"
proof (induction rs arbitrary: acc)
  case (Cons r rs)
  show ?case
  proof (cases "going lop r")
    case True
    then obtain a where "combine lop r acc = Some a" "going lop a" using combine_going Cons.prems by blast
    then show ?thesis using Cons.IH True by (simp add: going_def)
  next
    case False
    then show ?thesis using combine_stop [of r lop acc] by (auto simp: going_def)
  qed
qed simp

lemma outcome_nested:
  assumes "going lop a" and "going lop b" and "combine lop b a = Some c"
  shows "outcome lop a [outcome lop b rs] = outcome lop c rs"
  using assms(2,3)
proof (induction rs arbitrary: b c)
  case Nil
  then show ?case by (simp add: going_def)
next
  case (Cons r rs)
  show ?case
  proof (cases "going lop r")
    case True
    then obtain b' where b': "combine lop r b = Some b'" "going lop b'" using combine_going Cons.prems(1) by blast
    then obtain c' where c': "combine lop b' a = Some c'" using combine_going assms(1) by blast
    then have "combine lop r c = Some c'" using combine_assoc [OF Cons.prems(2) b'(1) Cons.prems(1)] by simp
    then show ?thesis using Cons.IH [OF b'(2) c'] b'(1) True by (simp add: going_def)
  next
    case False
    then show ?thesis
      using combine_stop [of r lop b] combine_stop [of r lop a] combine_stop [of r lop c]
      by (auto simp: going_def)
  qed
qed

text \<open>Grouping: a nested section of the same kind can be replaced by its members.\<close>

lemma outcome_group:
  assumes "going lop acc"
  shows "outcome lop acc (outcome lop AUTHZ_NEUTRAL rs # ss) = outcome lop acc (rs @ ss)"
  using outcome_append [OF assms, of "[outcome lop AUTHZ_NEUTRAL rs]" ss] outcome_append [OF assms, of rs ss]
    outcome_nested [OF assms combine_neutral(2) combine_neutral(1)] by simp

text \<open>Negation: the members of a negated disjunction can be negated one by one.\<close>

lemma outcome_demorgan:
  "going AUTHZ_LOGIC_OR b \<Longrightarrow>
   outcome AUTHZ_LOGIC_AND AUTHZ_NEUTRAL (map (negate_result True) rs) = negate_result True (outcome AUTHZ_LOGIC_OR b rs)"
proof (induction rs arbitrary: b)
  case Nil
  then show ?case by (cases b) (simp_all add: going_def negate_result_def)
next
  case (Cons r rs)
  then show ?case
    by (cases r; cases b) (simp_all add: combine_def going_def negate_result_def)
qed

lemma outcome_granted: "n > 0 \<Longrightarrow> outcome AUTHZ_LOGIC_AND AUTHZ_NEUTRAL (replicate n AUTHZ_GRANTED) = AUTHZ_GRANTED"
proof -
  have "outcome AUTHZ_LOGIC_AND AUTHZ_GRANTED (replicate k AUTHZ_GRANTED) = AUTHZ_GRANTED" for k
    by (induction k) (simp_all add: combine_def)
  then show "n > 0 \<Longrightarrow> ?thesis" by (cases n) (simp_all add: combine_def)
qed

section \<open>Well-formed sections\<close>

text \<open>
  The discipline of the trees: a provider is a leaf; a container combines by conjunction or
  disjunction, has children, is limited to the methods of its children, a disjunction has no negated
  child, and all sections in a negated container are for the same methods.
\<close>

fun uniform :: "64 word \<Rightarrow> 'p authz_section_conf \<Rightarrow> bool" where
  "uniform l (Section prov lim lop neg mg cs) \<longleftrightarrow> lim = l \<and> (\<forall>c \<in> set cs. uniform l c)"

definition limits :: "'p authz_section_conf list \<Rightarrow> 64 word" where
  "limits cs = foldr (\<lambda>c l. limited c OR l) cs 0"

definition members_ok :: "64 word \<Rightarrow> authz_logic_op \<Rightarrow> bool \<Rightarrow> 'p authz_section_conf list \<Rightarrow> bool" where
  "members_ok lim lop neg cs \<longleftrightarrow>
    (lop = AUTHZ_LOGIC_AND \<or> lop = AUTHZ_LOGIC_OR) \<and> lim = limits cs \<and>
    (lop = AUTHZ_LOGIC_OR \<longrightarrow> (\<forall>c \<in> set cs. \<not> negate c)) \<and> (neg \<longrightarrow> (\<forall>c \<in> set cs. uniform lim c))"

fun typed :: "'p authz_section_conf \<Rightarrow> bool" where
  "typed (Section prov lim lop neg mg cs) \<longleftrightarrow>
    (if prov = None then cs \<noteq> [] \<and> members_ok lim lop neg cs else cs = []) \<and> (\<forall>c \<in> set cs. typed c)"

lemma limits_append [simp]: "limits (cs @ ds) = limits cs OR limits ds"
  by (induction cs) (simp_all add: limits_def or.assoc)

lemma limits_simps [simp]: "limits [] = 0" "limits (c # cs) = limited c OR limits cs"
  by (simp_all add: limits_def)

lemma limits_same: "cs \<noteq> [] \<Longrightarrow> \<forall>c \<in> set cs. limited c = l \<Longrightarrow> limits cs = l"
proof (induction cs)
  case (Cons c cs)
  then show ?case by (cases "cs = []") simp_all
qed simp

lemma flip_simps [simp]:
  "limited (flip c) = limited c" "negate (flip c) = (\<not> negate c)" "children (flip c) = children c"
  "logic (flip c) = logic c"
  by (cases c; simp)+

lemma limits_flip [simp]: "limits (map flip cs) = limits cs"
  by (induction cs) simp_all

text \<open>A section that has members for the method gives the same to every parent.\<close>

lemma apply_flip:
  assumes "limited c AND method_bit m \<noteq> 0" and "\<not> negate c"
  shows "apply_authz_sections check m lop (flip c) = negate_result True (apply_authz_sections check m lop' c)"
  using assms by (cases c) (simp add: negate_result_def)

lemma apply_unlimited:
  "limited c AND method_bit m = 0 \<Longrightarrow>
   apply_authz_sections check m lop c = (if lop = AUTHZ_LOGIC_AND then AUTHZ_GRANTED else AUTHZ_NEUTRAL)"
  by (cases c) simp

lemma uniform_limited: "uniform l c \<Longrightarrow> limited c = l"
  by (cases c) simp

lemma uniform_flip [simp]: "uniform l (flip c) = uniform l c"
  by (cases c) simp

lemma typed_flip: "typed c \<Longrightarrow> uniform l c \<Longrightarrow> typed (flip c)"
  by (cases c) (auto simp: members_ok_def split: if_splits)

text \<open>De Morgan's law for a negated disjunction within a conjunction.\<close>

lemma demorgan_section:
  assumes "typed c" and "children c \<noteq> []" and "negate c" and "logic c = AUTHZ_LOGIC_OR"
  shows "outcome AUTHZ_LOGIC_AND AUTHZ_NEUTRAL
      (map (apply_authz_sections check m AUTHZ_LOGIC_AND) (map flip (children c))) =
    apply_authz_sections check m AUTHZ_LOGIC_AND c"
proof -
  obtain lim mg cs where c: "c = Section None lim AUTHZ_LOGIC_OR True mg cs" "cs \<noteq> []"
    and cs: "\<And>d. d \<in> set cs \<Longrightarrow> \<not> negate d \<and> limited d = lim"
    using assms uniform_limited by (cases c) (auto simp: members_ok_def split: if_splits)
  show ?thesis
  proof (cases "lim AND method_bit m = 0")
    case True
    then have "map (apply_authz_sections check m AUTHZ_LOGIC_AND) (map flip cs) = replicate (length cs) AUTHZ_GRANTED"
      using cs by (auto simp: apply_unlimited list_eq_iff_nth_eq)
    then show ?thesis using c True outcome_granted [of "length cs"] by simp
  next
    case False
    then have eq: "map (apply_authz_sections check m AUTHZ_LOGIC_AND) (map flip cs) =
        map (negate_result True) (map (apply_authz_sections check m AUTHZ_LOGIC_OR) cs)"
      using cs by (auto simp: apply_flip)
    show ?thesis
      unfolding c(1) authz_section_conf.sel eq outcome_demorgan [OF combine_neutral(2)]
      using False by (simp add: apply_children_outcome)
  qed
qed

section \<open>The check at startup\<close>

text \<open>What the rewriting keeps of a section, and of a list of children.\<close>

definition same_decisions :: "'p authz_section_conf \<Rightarrow> 'p authz_section_conf \<Rightarrow> bool" where
  "same_decisions s s' \<longleftrightarrow>
    typed s' \<and> limited s' = limited s \<and> logic s' = logic s \<and> negate s' = negate s \<and> provider s' = provider s \<and>
    (\<forall>l. uniform l s \<longrightarrow> uniform l s') \<and>
    (\<forall>check m lop. apply_authz_sections check m lop s' = apply_authz_sections check m lop s)"

definition same_members :: "authz_logic_op \<Rightarrow> 'p authz_section_conf list \<Rightarrow> 'p authz_section_conf list \<Rightarrow> bool" where
  "same_members lop cs cs' \<longleftrightarrow>
    (\<forall>c \<in> set cs'. typed c) \<and> limits cs' = limits cs \<and> (cs \<noteq> [] \<longrightarrow> cs' \<noteq> []) \<and>
    ((\<forall>c \<in> set cs. \<not> negate c) \<longrightarrow> lop = AUTHZ_LOGIC_OR \<longrightarrow> (\<forall>c \<in> set cs'. \<not> negate c)) \<and>
    (\<forall>l. (\<forall>c \<in> set cs. uniform l c) \<longrightarrow> (\<forall>c \<in> set cs'. uniform l c)) \<and>
    (\<forall>check m acc. going lop acc \<longrightarrow>
       outcome lop acc (map (apply_authz_sections check m lop) cs') =
       outcome lop acc (map (apply_authz_sections check m lop) cs))"

lemma same_members_Nil: "same_members lop [] []"
  by (simp add: same_members_def)

lemma outcome_Cons_cong:
  assumes "\<And>acc. going lop acc \<Longrightarrow> outcome lop acc rs = outcome lop acc ss" and "going lop acc"
  shows "outcome lop acc (r # rs) = outcome lop acc (r # ss)"
  using outcome_append [OF assms(2), of "[r]" rs] outcome_append [OF assms(2), of "[r]" ss] assms(1) by simp

lemma same_members_Cons:
  assumes "same_members lop cs cs'" and "same_decisions c c'"
  shows "same_members lop (c # cs) (c' # cs')"
proof -
  have "outcome lop acc (apply_authz_sections check m lop c # map (apply_authz_sections check m lop) cs') =
      outcome lop acc (apply_authz_sections check m lop c # map (apply_authz_sections check m lop) cs)"
    if "going lop acc" for check m acc
    using assms(1) that by (intro outcome_Cons_cong) (auto simp: same_members_def)
  then show ?thesis using assms by (auto simp: same_members_def same_decisions_def)
qed

lemma same_members_demorgan:
  assumes "same_members AUTHZ_LOGIC_AND cs cs'" and d: "same_decisions c c'" and "children c' \<noteq> []" and "provider c' = None"
    and "negate c'" and "logic c' = AUTHZ_LOGIC_OR"
  shows "same_members AUTHZ_LOGIC_AND (c # cs) (map flip (children c') @ cs')"
proof -
  let ?ap = "\<lambda>check m. apply_authz_sections check m AUTHZ_LOGIC_AND"
  have t: "typed c'" using d by (simp add: same_decisions_def)
  then obtain lim mg gs where c': "c' = Section None lim AUTHZ_LOGIC_OR True mg gs" "gs \<noteq> []" "lim = limits gs"
    and gs: "\<And>g. g \<in> set gs \<Longrightarrow> typed g \<and> uniform lim g"
    using assms(3-6) by (cases c') (auto simp: members_ok_def split: if_splits)
  have k: "children c' = gs" by (simp add: c')
  have "outcome AUTHZ_LOGIC_AND acc (map (?ap check m) (map flip gs @ cs')) = outcome AUTHZ_LOGIC_AND acc (map (?ap check m) (c # cs))"
    if "going AUTHZ_LOGIC_AND acc" for check m acc
  proof -
    note dm = demorgan_section [OF t assms(3,5,6), of check m, unfolded k]
    have "outcome AUTHZ_LOGIC_AND acc (map (?ap check m) (map flip gs @ cs')) =
        outcome AUTHZ_LOGIC_AND acc (?ap check m c' # map (?ap check m) cs')"
      unfolding dm [symmetric] outcome_group [OF that] by simp
    also have "\<dots> = outcome AUTHZ_LOGIC_AND acc (?ap check m c # map (?ap check m) cs)"
      using same_members_Cons [OF assms(1) d] that by (simp add: same_members_def)
    finally show ?thesis by simp
  qed
  moreover have "\<forall>g \<in> set (map flip gs @ cs'). typed g"
    using gs typed_flip assms(1) by (auto simp: same_members_def)
  moreover have "limits (map flip gs @ cs') = limits (c # cs)"
    using assms(1) d c' by (simp add: same_members_def same_decisions_def)
  moreover have "\<forall>g \<in> set (map flip gs @ cs'). uniform l g" if "\<forall>g \<in> set (c # cs). uniform l g" for l
  proof -
    have "uniform l c'" using d that by (simp add: same_decisions_def)
    moreover have "\<forall>g \<in> set cs'. uniform l g" using assms(1) that by (simp add: same_members_def)
    ultimately show ?thesis using c' by auto
  qed
  ultimately show ?thesis unfolding same_members_def k using c'(2) by blast
qed

lemma check_section_same:
  fixes s s' :: "'p authz_section_conf" and cs cs' :: "'p authz_section_conf list"
  shows "typed s \<Longrightarrow> authz_core_check_section s = Some s' \<Longrightarrow> same_decisions s s' \<and> children s' \<noteq> []"
  "\<forall>c \<in> set cs. typed c \<Longrightarrow> lop = AUTHZ_LOGIC_OR \<longrightarrow> (\<forall>c \<in> set cs. \<not> negate c) \<Longrightarrow>
   lop = AUTHZ_LOGIC_AND \<or> lop = AUTHZ_LOGIC_OR \<Longrightarrow>
   check_children lop cs = Some cs' \<Longrightarrow> same_members lop cs cs'"
proof (induction s and lop cs arbitrary: s' and cs' rule: authz_core_check_section_check_children.induct)
  case (1 prov lim lop neg mg cs)
  obtain cs' where cs': "check_children lop cs = Some cs'" "s' = Section prov lim lop neg mg cs'" "\<exists>c \<in> set cs'. \<not> negate c"
    using "1.prems"(2) by (cases "check_children lop cs") (auto split: if_splits)
  then have "cs' \<noteq> []" by auto
  have "cs \<noteq> []" using cs'(1) \<open>cs' \<noteq> []\<close> by auto
  then have p: "prov = None" and ok: "members_ok lim lop neg cs" and t: "\<forall>c \<in> set cs. typed c"
    using "1.prems"(1) by (auto split: if_splits)
  have m: "same_members lop cs cs'"
    using "1.IH" [OF t _ _ cs'(1)] ok by (auto simp: members_ok_def)
  have "apply_authz_sections check k l s' = apply_authz_sections check k l (Section prov lim lop neg mg cs)" for check k l
    using cs'(2) p m by (simp add: apply_children_outcome same_members_def)
  moreover have "limits cs' = limits cs" "\<forall>c \<in> set cs'. typed c"
    "\<And>l. \<forall>c \<in> set cs. uniform l c \<Longrightarrow> \<forall>c \<in> set cs'. uniform l c"
    "lop = AUTHZ_LOGIC_OR \<Longrightarrow> \<forall>c \<in> set cs. \<not> negate c \<Longrightarrow> \<forall>c \<in> set cs'. \<not> negate c"
    using m unfolding same_members_def by blast+
  moreover from this have "members_ok lim lop neg cs'" using ok unfolding members_ok_def by metis
  ultimately show ?case using cs'(2) \<open>cs' \<noteq> []\<close> p unfolding same_decisions_def by simp
next
  case (2 lop)
  then show ?case by (simp add: same_members_Nil)
next
  case (3 lop c cs)
  show ?case
  proof (cases "children c = []")
    case True
    then obtain ds where ds: "check_children lop cs = Some ds" "cs' = c # ds"
      using "3.prems"(4) by (auto split: option.splits)
    have "same_decisions c c" using "3.prems"(1) by (simp add: same_decisions_def)
    moreover have "same_members lop cs ds" using "3.IH"(3) [OF _ _ _ _ ds(1)] True "3.prems"(1-3) by auto
    ultimately show ?thesis using same_members_Cons ds(2) by blast
  next
    case False
    obtain c' ds where c': "authz_core_check_section c = Some c'" and ds: "check_children lop cs = Some ds"
      "cs' = (if negate c' \<and> logic c' \<noteq> lop then map flip (children c') else [c']) @ ds"
      using "3.prems"(4) False by (auto split: option.splits)
    have d: "same_decisions c c'" "children c' \<noteq> []" using "3.IH"(1) [OF False] "3.prems"(1) c' by auto
    have m: "same_members lop cs ds" using "3.IH"(2) [OF False c' _ _ _ ds(1)] "3.prems"(1-3) by auto
    show ?thesis
    proof (cases "negate c' \<and> logic c' \<noteq> lop")
      case False
      show ?thesis unfolding ds(2) if_not_P [OF False] append.simps by (rule same_members_Cons [OF m d(1)])
    next
      case True
      then have "lop = AUTHZ_LOGIC_AND" using "3.prems"(2,3) d(1) by (auto simp: same_decisions_def)
      moreover have "provider c' = None \<and> (logic c' = AUTHZ_LOGIC_AND \<or> logic c' = AUTHZ_LOGIC_OR)"
        using d by (cases c') (auto simp: same_decisions_def members_ok_def split: if_splits)
      ultimately show ?thesis unfolding ds(2) if_P [OF True] using same_members_demorgan [OF _ d] m True by auto
    qed
  qed
qed

section \<open>Sections built from directives\<close>

text \<open>A section while it is read; with \<open>Some l\<close>, all of it is for the methods \<open>l\<close>.\<close>

definition building :: "64 word option \<Rightarrow> 'p authz_section_conf \<Rightarrow> bool" where
  "building u s \<longleftrightarrow>
    provider s = None \<and> (logic s = AUTHZ_LOGIC_AND \<or> logic s = AUTHZ_LOGIC_OR) \<and> limited s = limits (children s) \<and>
    (logic s = AUTHZ_LOGIC_OR \<longrightarrow> (\<forall>c \<in> set (children s). \<not> negate c)) \<and> (\<forall>c \<in> set (children s). typed c) \<and>
    (negate s \<longrightarrow> u \<noteq> None) \<and> (\<forall>l. u = Some l \<longrightarrow> (\<forall>c \<in> set (children s). uniform l c))"

lemma building_default [simp]: "building u create_default_section"
  by (simp add: building_def create_default_section_def)

lemma building_typed:
  assumes "building u s" and "children s \<noteq> []"
  shows "typed s" and "u = Some l \<Longrightarrow> uniform l s"
proof -
  obtain lim lop neg mg cs where s: "s = Section None lim lop neg mg cs"
    using assms(1) by (cases s) (simp add: building_def)
  have un: "\<forall>c \<in> set cs. uniform l c" if "u = Some l" for l
    using assms(1) that unfolding s building_def by simp
  have lim: "lim = l" if "u = Some l" for l
    using assms un [OF that] limits_same [of cs l] uniform_limited unfolding s building_def by fastforce
  show "uniform l s" if "u = Some l" for l using un [OF that] lim [OF that] by (simp add: s)
  have "neg \<longrightarrow> (\<forall>c \<in> set cs. uniform lim c)"
    using assms(1) un lim unfolding s building_def by auto
  then show "typed s" using assms unfolding s building_def by (simp add: members_ok_def)
qed

lemma append_section_simps [simp]:
  "children (append_section l ss s) = children s @ ss" "logic (append_section l ss s) = logic s"
  "negate (append_section l ss s) = negate s" "provider (append_section l ss s) = provider s"
  "limited (append_section l ss s) = limited s OR l"
  by (cases s; simp)+

lemma building_append:
  assumes "building u s" and "\<And>c. c \<in> set ss \<Longrightarrow> typed c" and "\<And>c. c \<in> set ss \<Longrightarrow> logic s = AUTHZ_LOGIC_OR \<Longrightarrow> \<not> negate c"
    and "\<And>c l. c \<in> set ss \<Longrightarrow> u = Some l \<Longrightarrow> uniform l c" and "l = limits ss"
  shows "building u (append_section l ss s)"
  using assms unfolding building_def by auto

text \<open>What a directive means: containers as they are written, none of them replaced.\<close>

fun meaning :: "'p lookup \<Rightarrow> ('p \<Rightarrow> authz_status) \<Rightarrow> directive \<Rightarrow> authz_status" where
  "meaning lookup check (Require line) =
    (case parse_require lookup line of Inl _ \<Rightarrow> AUTHZ_NEUTRAL | Inr (neg, p) \<Rightarrow> negate_result neg (check p))"
| "meaning lookup check (Container k ds) =
    negate_result (snd (container_op k)) (outcome (fst (container_op k)) AUTHZ_NEUTRAL (map (meaning lookup check) ds))"

text \<open>\<open>s\<close> is \<open>s0\<close> with the directives \<open>ds\<close> added, for the methods in \<open>lim\<close>.\<close>

definition extends :: "'p lookup \<Rightarrow> 64 word \<Rightarrow> 'p authz_section_conf \<Rightarrow> directive list \<Rightarrow> 'p authz_section_conf \<Rightarrow> bool" where
  "extends lookup lim s0 ds s \<longleftrightarrow>
    logic s = logic s0 \<and> negate s = negate s0 \<and> (children s0 \<noteq> [] \<or> ds \<noteq> [] \<longrightarrow> children s \<noteq> []) \<and>
    (\<forall>m. limited s0 AND method_bit m \<noteq> 0 \<or> ds \<noteq> [] \<and> lim AND method_bit m \<noteq> 0 \<longrightarrow> limited s AND method_bit m \<noteq> 0) \<and>
    (\<forall>check m acc. lim AND method_bit m \<noteq> 0 \<longrightarrow> going (logic s0) acc \<longrightarrow>
       outcome (logic s0) acc (map (apply_authz_sections check m (logic s0)) (children s)) =
       outcome (logic s0) acc (map (apply_authz_sections check m (logic s0)) (children s0) @ map (meaning lookup check) ds))"

lemma extends_Nil [simp]: "extends lookup lim s [] s"
  by (simp add: extends_def)

lemma outcome_suffix_cong:
  assumes "going lop acc" and "\<And>acc. going lop acc \<Longrightarrow> outcome lop acc rs = outcome lop acc ss"
  shows "outcome lop acc (qs @ rs) = outcome lop acc (qs @ ss)"
  using assms by (simp add: outcome_append)

lemma outcome_prefix_cong:
  assumes "going lop acc" and "outcome lop acc rs = outcome lop acc ss"
  shows "outcome lop acc (rs @ qs) = outcome lop acc (ss @ qs)"
  using assms by (simp add: outcome_append)

lemma extends_trans:
  assumes "extends lookup lim s0 ds s" and "extends lookup lim s es t"
  shows "extends lookup lim s0 (ds @ es) t"
proof -
  have l: "logic s = logic s0" "logic t = logic s0" using assms by (simp_all add: extends_def)
  have "outcome (logic s0) acc (map (apply_authz_sections check m (logic s0)) (children t)) =
      outcome (logic s0) acc (map (apply_authz_sections check m (logic s0)) (children s0) @ map (meaning lookup check) (ds @ es))"
    if m: "lim AND method_bit m \<noteq> 0" and g: "going (logic s0) acc" for check m acc
  proof -
    have "outcome (logic s0) acc (map (apply_authz_sections check m (logic s0)) (children t)) =
        outcome (logic s0) acc (map (apply_authz_sections check m (logic s0)) (children s) @ map (meaning lookup check) es)"
      using assms(2) m g unfolding extends_def l by blast
    also have "\<dots> = outcome (logic s0) acc ((map (apply_authz_sections check m (logic s0)) (children s0) @ map (meaning lookup check) ds)
        @ map (meaning lookup check) es)"
      using assms(1) m g by (intro outcome_prefix_cong) (simp_all add: extends_def)
    finally show ?thesis by simp
  qed
  moreover have "negate t = negate s0" "children s0 \<noteq> [] \<or> ds @ es \<noteq> [] \<longrightarrow> children t \<noteq> []"
    "\<forall>m. limited s0 AND method_bit m \<noteq> 0 \<or> ds @ es \<noteq> [] \<and> lim AND method_bit m \<noteq> 0 \<longrightarrow> limited t AND method_bit m \<noteq> 0"
    using assms unfolding extends_def by auto
  ultimately show ?thesis using l unfolding extends_def by blast
qed

lemma and_nonzero:
  fixes a b c :: "64 word"
  assumes "(a AND b) AND c \<noteq> 0"
  shows "a AND c \<noteq> 0"
proof
  assume "a AND c = 0"
  then have "b AND (a AND c) = 0" by simp
  then show False using assms by (simp add: and.left_commute and.assoc)
qed

lemma apply_container:
  assumes "provider s = None" and "limited s AND method_bit m \<noteq> 0"
  shows "apply_authz_sections check m parent_op s =
    negate_result (negate s) (outcome (logic s) AUTHZ_NEUTRAL (map (apply_authz_sections check m (logic s)) (children s)))"
  using assms by (cases s) (simp add: apply_children_outcome)

lemma extends_append:
  assumes "\<And>check m acc. lim AND method_bit m \<noteq> 0 \<Longrightarrow> going (logic s) acc \<Longrightarrow>
      outcome (logic s) acc (map (apply_authz_sections check m (logic s)) ss) = outcome (logic s) acc (map (meaning lookup check) ds)"
    and "ss \<noteq> []" and "\<And>m. lim AND method_bit m \<noteq> 0 \<Longrightarrow> l AND method_bit m \<noteq> 0"
  shows "extends lookup lim s ds (append_section l ss s)"
proof -
  have "(limited s OR l) AND method_bit m \<noteq> 0" if "limited s AND method_bit m \<noteq> 0 \<or> l AND method_bit m \<noteq> 0" for m
    using that by (auto simp: bit.conj_disj_distrib2 or_eq_0_iff)
  moreover
  have "outcome (logic s) acc (map (apply_authz_sections check m (logic s)) (children s @ ss)) =
      outcome (logic s) acc (map (apply_authz_sections check m (logic s)) (children s) @ map (meaning lookup check) ds)"
    if "lim AND method_bit m \<noteq> 0" and "going (logic s) acc" for check m acc
    unfolding map_append using that by (intro outcome_suffix_cong assms(1))
  ultimately show ?thesis using assms(2,3) by (simp add: extends_def)
qed

lemma join_section_built:
  fixes old :: "'p authz_section_conf option"
  assumes "join_section s old = Inr t" and b: "building (Some l) s" and e: "extends lookup l (Section None 0 lop neg False []) ds s"
    and k: "container_op k = (lop, neg)" and "building u (default_section old)" and "\<And>l'. u = Some l' \<Longrightarrow> l' = l"
  shows "building u t \<and> extends lookup l (default_section old) [Container k ds] t"
proof -
  define d where "d = default_section old"
  define ss where "ss = (if \<not> negate s \<and> logic s = logic d then children s else [s])"
  have s: "logic s = lop" "negate s = neg" using e by (simp_all add: extends_def)
  have cs: "children s \<noteq> []" "\<not> (neg \<and> logic d = AUTHZ_LOGIC_OR)" "t = append_section (limited s) ss d"
    using assms(1) s by (auto simp: join_section_def Let_def d_def ss_def split: if_splits)
  have t: "typed s" "uniform l s" using building_typed [OF b cs(1)] by simp_all
  have m: "outcome lop acc (map (apply_authz_sections check m lop) (children s)) = outcome lop acc (map (meaning lookup check) ds)"
    if "l AND method_bit m \<noteq> 0" and "going lop acc" for check m acc
    using e that by (simp add: extends_def)
  have sl: "limited s = l" using uniform_limited [OF t(2)] .
  have a: "apply_authz_sections check m op s = meaning lookup check (Container k ds)" if "l AND method_bit m \<noteq> 0" for check m op
  proof -
    have "provider s = None" using b by (simp add: building_def)
    then show ?thesis using sl apply_container [of s m check op] m [OF that, of AUTHZ_NEUTRAL] that s k by simp
  qed
  have "outcome (logic d) acc (map (apply_authz_sections check m (logic d)) ss) =
      outcome (logic d) acc (map (meaning lookup check) [Container k ds])"
    if l: "l AND method_bit m \<noteq> 0" and g: "going (logic d) acc" for check m acc
  proof (cases "\<not> neg \<and> lop = logic d")
    case True
    then have ss: "ss = children s" using s by (simp add: ss_def)
    have "outcome (logic d) acc (map (apply_authz_sections check m (logic d)) ss) = outcome lop acc (map (meaning lookup check) ds)"
      using m [OF l] g True unfolding ss by simp
    also have "\<dots> = outcome lop acc [outcome lop AUTHZ_NEUTRAL (map (meaning lookup check) ds)]"
      using outcome_group [of lop acc "map (meaning lookup check) ds" "[]"] g True by simp
    finally show ?thesis using True k by (simp add: negate_result_def)
  next
    case False
    then have "ss = [s]" using s by (auto simp: ss_def)
    then show ?thesis using a [OF l] by simp
  qed
  then have "extends lookup l d [Container k ds] t"
    unfolding cs(3) using cs(1) sl by (intro extends_append) (auto simp: ss_def)
  moreover have "building u t" unfolding cs(3)
  proof (rule building_append)
    show "building u d" using assms(5) by (simp add: d_def)
    show "typed c" if "c \<in> set ss" for c using that t b by (auto simp: ss_def building_def split: if_splits)
    show "\<not> negate c" if "c \<in> set ss" and "logic d = AUTHZ_LOGIC_OR" for c
      using that b cs(2) s by (auto simp: ss_def building_def split: if_splits)
    show "uniform l' c" if "c \<in> set ss" and "u = Some l'" for c l'
      using that assms(6) t b by (auto simp: ss_def building_def split: if_splits)
    show "limited s = limits ss" using b by (simp add: ss_def building_def)
  qed
  ultimately show ?thesis by (simp add: d_def)
qed

lemma add_directive_built:
  "add_directive lookup lim sec d = Inr s \<Longrightarrow> building u (default_section sec) \<Longrightarrow>
     (\<And>l. u = Some l \<Longrightarrow> l = lim \<and> lim AND NOT (method_bit 63) = lim) \<Longrightarrow>
     building u s \<and> extends lookup (lim AND NOT (method_bit 63)) (default_section sec) [d] s"
  "walk_config lookup lim sc ds = Inr s \<Longrightarrow> building (Some lim) sc \<Longrightarrow> lim AND NOT (method_bit 63) = lim \<Longrightarrow>
     building (Some lim) s \<and> extends lookup lim sc ds s"
proof (induction lookup lim sec d and lookup lim sc ds arbitrary: u s and s rule: add_directive_walk_config.induct)
  case (1 lookup lim sec line)
  let ?d = "default_section sec"
  obtain neg p where p: "parse_require lookup line = Inr (neg, p)" "\<not> (neg \<and> logic ?d = AUTHZ_LOGIC_OR)"
    "s = append_section lim [Section (Some p) lim AUTHZ_LOGIC_AND neg False []] ?d"
    using 1(1) by (auto simp: add_authz_provider_def Let_def split: sum.splits if_splits)
  have "building u s" unfolding p(3) using 1(2,3) p(2) by (intro building_append) auto
  moreover have "extends lookup (lim AND NOT (method_bit 63)) ?d [Require line] s"
    unfolding p(3)
  proof (rule extends_append)
    fix check :: "'a \<Rightarrow> authz_status" and m acc
    assume "(lim AND NOT (method_bit 63)) AND method_bit m \<noteq> 0"
    then have "lim AND method_bit m \<noteq> 0" by (rule and_nonzero)
    then show "outcome (logic ?d) acc (map (apply_authz_sections check m (logic ?d)) [Section (Some p) lim AUTHZ_LOGIC_AND neg False []]) =
       outcome (logic ?d) acc (map (meaning lookup check) [Require line])"
      using p(1) by simp
    show "lim AND method_bit m \<noteq> 0" if "(lim AND NOT (method_bit 63)) AND method_bit m \<noteq> 0" for m
      using that by (rule and_nonzero)
  qed simp
  ultimately show ?case by simp
next
  case (2 lookup lim sec k ds)
  obtain lop neg where k: "container_op k = (lop, neg)" by fastforce
  let ?l = "lim AND NOT (method_bit 63)" and ?s = "Section None 0 lop neg False []"
  obtain s1 where s1: "walk_config lookup ?l ?s ds = Inr s1" "join_section s1 sec = Inr s"
    using 2(2) k by (auto split: sum.splits)
  have "building (Some ?l) ?s"
    using k by (auto simp: building_def container_op_def split: container.splits)
  moreover have "?l AND NOT (method_bit 63) = ?l" by (simp add: and.assoc)
  ultimately have "building (Some ?l) s1 \<and> extends lookup ?l ?s ds s1"
    using 2(1) [OF k [symmetric] refl] s1(1) by simp
  then show ?case using join_section_built [OF s1(2) _ _ k 2(3)] 2(4) by metis
next
  case (3 lookup lim sec)
  then show ?case by simp
next
  case (4 lookup lim sec d ds)
  obtain s1 where s1: "add_directive lookup lim (Some sec) d = Inr s1" "walk_config lookup lim s1 ds = Inr s"
    using 4(3) by (auto split: sum.splits)
  have a: "building (Some lim) s1 \<and> extends lookup lim sec [d] s1"
    using 4(1) [OF s1(1), of "Some lim"] 4(4,5) by (simp add: default_section_def)
  have "building (Some lim) s \<and> extends lookup lim s1 ds s"
    using 4(2) [OF s1(1) s1(2)] a 4(5) by simp
  then show ?case using a extends_trans [of lookup lim sec "[d]" s1 ds s] by simp
qed

lemma directory_config_built:
  "directory_config lookup sec (map (Pair lim) ds) = Inr sec' \<Longrightarrow> building None (default_section sec) \<Longrightarrow>
   building None (default_section sec') \<and>
   extends lookup (lim AND NOT (method_bit 63)) (default_section sec) ds (default_section sec')"
proof (induction ds arbitrary: sec)
  case (Cons d ds)
  obtain s where s: "add_directive lookup lim sec d = Inr s" "directory_config lookup (Some s) (map (Pair lim) ds) = Inr sec'"
    using Cons.prems(1) by (auto split: sum.splits)
  have b: "building None s \<and> extends lookup (lim AND NOT (method_bit 63)) (default_section sec) [d] s"
    using add_directive_built(1) [OF s(1) Cons.prems(2)] by simp
  then show ?case
    using Cons.IH [OF s(2)] extends_trans [of lookup _ "default_section sec" "[d]" s ds] by (simp add: default_section_def)
qed simp

section \<open>The documented meaning\<close>

text \<open>When a directive passes and when it fails, as the table of commands describes it; it may do neither.\<close>

fun passes :: "'p lookup \<Rightarrow> ('p \<Rightarrow> authz_status) \<Rightarrow> directive \<Rightarrow> bool"
  and fails :: "'p lookup \<Rightarrow> ('p \<Rightarrow> authz_status) \<Rightarrow> directive \<Rightarrow> bool" where
  "passes lookup check (Require line) \<longleftrightarrow>
    (case parse_require lookup line of Inl _ \<Rightarrow> False | Inr (neg, p) \<Rightarrow> \<not> neg \<and> check p = AUTHZ_GRANTED)"
| "passes lookup check (Container k ds) \<longleftrightarrow>
    (case k of
       RequireAll \<Rightarrow> (\<exists>d \<in> set ds. passes lookup check d) \<and> \<not> (\<exists>d \<in> set ds. fails lookup check d)
     | RequireAny \<Rightarrow> \<exists>d \<in> set ds. passes lookup check d
     | RequireNone \<Rightarrow> False)"
| "fails lookup check (Require line) \<longleftrightarrow>
    (case parse_require lookup line of Inl _ \<Rightarrow> False
     | Inr (neg, p) \<Rightarrow> if neg then check p = AUTHZ_GRANTED else check p = AUTHZ_DENIED \<or> check p = AUTHZ_DENIED_NO_USER)"
| "fails lookup check (Container k ds) \<longleftrightarrow>
    (case k of
       RequireAll \<Rightarrow> \<exists>d \<in> set ds. fails lookup check d
     | RequireAny \<Rightarrow> (\<exists>d \<in> set ds. fails lookup check d) \<and> \<not> (\<exists>d \<in> set ds. passes lookup check d)
     | RequireNone \<Rightarrow> \<exists>d \<in> set ds. passes lookup check d)"

abbreviation denies :: "authz_status \<Rightarrow> bool" where
  "denies r \<equiv> r = AUTHZ_DENIED \<or> r = AUTHZ_DENIED_NO_USER"

lemma outcome_all:
  assumes "AUTHZ_GENERAL_ERROR \<notin> set rs" and "acc \<noteq> AUTHZ_GENERAL_ERROR"
  shows "denies (outcome AUTHZ_LOGIC_AND acc rs) \<longleftrightarrow> denies acc \<or> (\<exists>r \<in> set rs. denies r)"
    and "outcome AUTHZ_LOGIC_AND acc rs = AUTHZ_GRANTED \<longleftrightarrow>
      \<not> denies acc \<and> \<not> (\<exists>r \<in> set rs. denies r) \<and> (acc = AUTHZ_GRANTED \<or> AUTHZ_GRANTED \<in> set rs)"
    and "outcome AUTHZ_LOGIC_AND acc rs \<noteq> AUTHZ_GENERAL_ERROR"
  using assms
proof (induction rs arbitrary: acc)
  case (Cons r rs)
  { case 1 then show ?case using Cons.IH by (cases r; cases acc) (simp_all add: combine_def) }
  { case 2 then show ?case using Cons.IH by (cases r; cases acc) (simp_all add: combine_def) }
  { case 3 then show ?case using Cons.IH by (cases r; cases acc) (simp_all add: combine_def) }
qed auto

lemma outcome_any:
  assumes "AUTHZ_GENERAL_ERROR \<notin> set rs" and "acc \<noteq> AUTHZ_GENERAL_ERROR" and "acc \<noteq> AUTHZ_GRANTED"
  shows "outcome AUTHZ_LOGIC_OR acc rs = AUTHZ_GRANTED \<longleftrightarrow> AUTHZ_GRANTED \<in> set rs"
    and "denies (outcome AUTHZ_LOGIC_OR acc rs) \<longleftrightarrow> AUTHZ_GRANTED \<notin> set rs \<and> (denies acc \<or> (\<exists>r \<in> set rs. denies r))"
    and "outcome AUTHZ_LOGIC_OR acc rs \<noteq> AUTHZ_GENERAL_ERROR"
  using assms
proof (induction rs arbitrary: acc)
  case (Cons r rs)
  { case 1 then show ?case using Cons.IH by (cases r; cases acc) (simp_all add: combine_def) }
  { case 2 then show ?case using Cons.IH by (cases r; cases acc) (simp_all add: combine_def) }
  { case 3 then show ?case using Cons.IH by (cases r; cases acc) (simp_all add: combine_def) }
qed auto

lemma negate_result_cases:
  "negate_result neg r = AUTHZ_GRANTED \<longleftrightarrow> \<not> neg \<and> r = AUTHZ_GRANTED"
  "denies (negate_result neg r) \<longleftrightarrow> (if neg then r = AUTHZ_GRANTED else denies r)"
  "negate_result neg r = AUTHZ_GENERAL_ERROR \<longleftrightarrow> r = AUTHZ_GENERAL_ERROR"
  by (auto simp: negate_result_def split: if_splits)

lemma meaning_passes:
  assumes "\<And>p. check p \<noteq> AUTHZ_GENERAL_ERROR"
  shows "(meaning lookup check d = AUTHZ_GRANTED \<longleftrightarrow> passes lookup check d) \<and>
    (denies (meaning lookup check d) \<longleftrightarrow> fails lookup check d) \<and> meaning lookup check d \<noteq> AUTHZ_GENERAL_ERROR"
proof (induction d)
  case (Require line)
  show ?case
    using assms by (auto simp: negate_result_cases split: sum.splits)
next
  case (Container k ds)
  define rs where "rs = map (meaning lookup check) ds"
  have e: "AUTHZ_GENERAL_ERROR \<notin> set rs" using Container by (auto simp: rs_def dest: sym)
  have g: "AUTHZ_GRANTED \<in> set rs \<longleftrightarrow> (\<exists>d \<in> set ds. passes lookup check d)"
    using Container by (auto simp: rs_def image_iff dest: sym)
  have d: "(\<exists>r \<in> set rs. denies r) \<longleftrightarrow> (\<exists>d \<in> set ds. fails lookup check d)"
    using Container by (simp add: rs_def)
  note all = outcome_all [OF e, of AUTHZ_NEUTRAL] and any = outcome_any [OF e, of AUTHZ_NEUTRAL]
  show ?case
  proof (cases k)
    case RequireAll
    then show ?thesis using all g d by (simp add: container_op_def negate_result_def flip: rs_def) blast
  next
    case RequireAny
    then show ?thesis using any g d by (simp add: container_op_def negate_result_def flip: rs_def) blast
  next
    case RequireNone
    then show ?thesis using any g by (simp add: container_op_def negate_result_cases flip: rs_def)
  qed
qed

section \<open>Decisions\<close>

text \<open>
  C3: Access is granted exactly when the documentation says so. Take the authorization directives of a
  directory, nested to any depth, which the parser accepted for the methods in \<open>lim\<close> and whose sections
  passed the check at startup (and were rewritten by it), and a request with one of those methods for
  which no provider reports an internal error. The handler answers \<open>OK\<close> if and only if one of the top-level directives
  passes in the documented sense: all of \<open>RequireAll\<close>'s members must not fail and one pass, one of \<open>RequireAny\<close>'s
  pass, and \<open>RequireNone\<close> only fails, when one of its members passes.\<close>

theorem authz_decision_documented:
  assumes "directory_config lookup None (map (Pair lim) ds) = Inr (Some sec)"
    and "authz_core_check_section sec = Some sec'" and "section_of conf = Some sec'"
    and "(lim AND NOT (method_bit 63)) AND method_bit m \<noteq> 0"
    and "\<forall>p. check p \<noteq> AUTHZ_GENERAL_ERROR"
  shows "fst (authorize_user_core check m auth_type user conf after_authn) = OK \<longleftrightarrow> (\<exists>d \<in> set ds. passes lookup check d)"
proof -
  have b: "building None sec" and e: "extends lookup (lim AND NOT (method_bit 63)) create_default_section ds sec"
    using directory_config_built [OF assms(1)] by (simp_all add: default_section_def)
  have "children sec \<noteq> []"
  proof -
    obtain prov l lop neg mg cs where "sec = Section prov l lop neg mg cs" by (cases sec)
    then show ?thesis using assms(2) by (cases cs) (auto split: if_splits)
  qed
  then have t: "typed sec" using building_typed(1) [OF b] by simp
  have l: "logic sec = AUTHZ_LOGIC_OR" "negate sec = False" using e by (simp_all add: extends_def create_default_section_def)
  have same: "apply_authz_sections check m AUTHZ_LOGIC_AND sec' = apply_authz_sections check m AUTHZ_LOGIC_AND sec"
    using check_section_same(1) [OF t assms(2)] by (simp add: same_decisions_def)
  define rs where "rs = map (meaning lookup check) ds"
  have "limited sec AND method_bit m \<noteq> 0"
  proof (cases "ds = []")
    case True
    then show ?thesis using assms(1) by simp
  next
    case False
    then show ?thesis using e assms(4) by (simp add: extends_def)
  qed
  then have a: "apply_authz_sections check m AUTHZ_LOGIC_AND sec = outcome AUTHZ_LOGIC_OR AUTHZ_NEUTRAL rs"
    using apply_container [of sec m check] b e assms(4) l
    by (simp add: building_def extends_def create_default_section_def negate_result_def rs_def)
  have "AUTHZ_GENERAL_ERROR \<notin> set rs" and "AUTHZ_GRANTED \<in> set rs \<longleftrightarrow> (\<exists>d \<in> set ds. passes lookup check d)"
    using meaning_passes [of check lookup] assms(5) by (auto simp: rs_def image_iff dest: sym)
  then have "apply_authz_sections check m AUTHZ_LOGIC_AND sec' = AUTHZ_GRANTED \<longleftrightarrow> (\<exists>d \<in> set ds. passes lookup check d)"
    using outcome_any(1) [of rs AUTHZ_NEUTRAL] same a by simp
  then show ?thesis using assms(3) by (simp add: authorize_user_core_def Let_def)
qed

definition example_lookup :: "string lookup" where
  "example_lookup name =
    (if name = ''all'' then Some (\<lambda>args. case all_parse_config args of Inl e \<Rightarrow> Inl e | Inr b \<Rightarrow> Inr (if b then [] else ''all''))
     else if name = ''user'' then Some (\<lambda>args. if args = [] then Inl ''no user'' else Inr args)
     else None)"

definition example_check :: "string \<Rightarrow> authz_status" where
  "example_check p = (if p = [] then AUTHZ_GRANTED else if p = ''bob'' then AUTHZ_GRANTED else AUTHZ_DENIED)"

definition example_directives :: "directive list" where
  "example_directives =
    [Require ''user alice'',
     Container RequireAll [Require ''all granted'', Container RequireNone [Require ''user eve'', Require ''all denied'']]]"

definition example_section :: "string authz_section_conf" where
  "example_section = Section None (-1) AUTHZ_LOGIC_OR False False
     [Section (Some ''alice'') (-1) AUTHZ_LOGIC_AND False False [],
      Section None (NOT (method_bit 63)) AUTHZ_LOGIC_AND False False
        [Section (Some []) (NOT (method_bit 63)) AUTHZ_LOGIC_AND False False [],
         Section (Some ''eve'') (NOT (method_bit 63)) AUTHZ_LOGIC_AND True False [],
         Section (Some ''all'') (NOT (method_bit 63)) AUTHZ_LOGIC_AND True False []]]"

theorem authz_decision_documented_witness:
  "fst (authorize_user_core example_check 0 None None (create_authz_core_dir_config\<lparr>section_of := Some example_section\<rparr>) False) = OK"
proof -
  have "(case directory_config example_lookup None (map (Pair (-1)) example_directives) of
      Inr (Some sec) \<Rightarrow> authz_core_check_section sec | _ \<Rightarrow> None) = Some example_section"
    by code_simp
  then obtain sec where "directory_config example_lookup None (map (Pair (-1)) example_directives) = Inr (Some sec)"
    "authz_core_check_section sec = Some example_section"
    by (auto split: sum.splits option.splits)
  moreover have "((-1) AND NOT (method_bit 63)) AND method_bit 0 \<noteq> 0" by code_simp
  moreover have "\<forall>p. example_check p \<noteq> AUTHZ_GENERAL_ERROR" by (simp add: example_check_def)
  moreover have "\<exists>d \<in> set example_directives. passes example_lookup example_check d" by code_simp
  ultimately show ?thesis
    using authz_decision_documented [where conf = "create_authz_core_dir_config\<lparr>section_of := Some example_section\<rparr>"]
    by simp
qed

section \<open>The sections that the server holds\<close>

text \<open>The directory configurations that directives, the check at startup and merging can make.\<close>

inductive dir_conf :: "'p lookup \<Rightarrow> 'p authz_core_dir_conf \<Rightarrow> bool" for lookup where
  create: "dir_conf lookup create_authz_core_dir_config"
| require: "dir_conf lookup conf \<Longrightarrow> add_directive lookup lim (section_of conf) d = Inr s \<Longrightarrow>
    dir_conf lookup (conf\<lparr>section_of := Some s\<rparr>)"
| merging: "dir_conf lookup conf \<Longrightarrow> authz_merge_sections arg conf = Inr conf' \<Longrightarrow> dir_conf lookup conf'"
| forbidden: "dir_conf lookup conf \<Longrightarrow> dir_conf lookup (conf\<lparr>authz_forbidden_on_fail := flag\<rparr>)"
| check: "dir_conf lookup conf \<Longrightarrow> authz_core_check_config [conf] = Some [conf'] \<Longrightarrow> dir_conf lookup conf'"
| merge: "dir_conf lookup base \<Longrightarrow> dir_conf lookup new \<Longrightarrow> dir_conf lookup (merge_authz_core_dir_config base new)"

definition top_level :: "'p authz_section_conf \<Rightarrow> bool" where
  "top_level s \<longleftrightarrow> typed s \<and> provider s = None \<and> \<not> negate s"

lemma top_level_building: "top_level s \<Longrightarrow> building None s"
  by (cases s) (simp add: top_level_def building_def members_ok_def split: if_splits)

lemma top_level_add:
  assumes "pred_option top_level sec" and "add_directive lookup lim sec d = Inr s"
  shows "top_level s"
proof -
  have b: "building None (default_section sec)" and n: "\<not> negate (default_section sec)"
  proof -
    have "default_section sec = create_default_section \<or> top_level (default_section sec)"
      using assms(1) by (cases sec) (simp_all add: default_section_def)
    moreover have "\<not> negate (create_default_section :: 'a authz_section_conf)" by (simp add: create_default_section_def)
    ultimately show "building None (default_section sec)" "\<not> negate (default_section sec)"
      using top_level_building building_default unfolding top_level_def by metis+
  qed
  have "building None s \<and> extends lookup (lim AND NOT (method_bit 63)) (default_section sec) [d] s"
    using add_directive_built(1) [OF assms(2) b] by simp
  then have "building None s" "children s \<noteq> []" "\<not> negate s" using n by (simp_all add: extends_def)
  then show ?thesis using building_typed(1) [of None s] by (simp add: top_level_def building_def)
qed

lemma top_level_check:
  "top_level s \<Longrightarrow> authz_core_check_section s = Some s' \<Longrightarrow> top_level s'"
  using check_section_same(1) [of s s'] by (simp add: top_level_def same_decisions_def)

lemma top_level_pair:
  "top_level b \<Longrightarrow> top_level n \<Longrightarrow> lop = AUTHZ_LOGIC_AND \<or> lop = AUTHZ_LOGIC_OR \<Longrightarrow>
   top_level (Section None (limited b OR limited n) lop False mg [b, n])"
  by (simp add: top_level_def members_ok_def)

lemma dir_conf_top_level: "dir_conf lookup conf \<Longrightarrow> pred_option top_level (section_of conf)"
proof (induction rule: dir_conf.induct)
  case create
  then show ?case by (simp add: create_authz_core_dir_config_def)
next
  case (require conf lim d s)
  then show ?case using top_level_add by simp
next
  case (merging conf arg conf')
  then show ?case by (auto simp: authz_merge_sections_def split: if_splits)
next
  case (forbidden conf flag)
  then show ?case by simp
next
  case (check conf conf')
  then show ?case using top_level_check by (auto split: option.splits)
next
  case (merge base new)
  have "pred_option top_level (case (section_of base, section_of new) of
      (Some b, Some n) \<Rightarrow> Some (Section None (limited b OR limited n) (merge_op new) False True [b, n])
    | (Some b, None) \<Rightarrow> Some b | (None, n) \<Rightarrow> n)"
    if "merge_op new = AUTHZ_LOGIC_AND \<or> merge_op new = AUTHZ_LOGIC_OR"
    using merge.IH that by (auto intro!: top_level_pair split: option.split)
  then show ?case
    using merge.IH by (cases "merge_op new") (auto simp: merge_authz_core_dir_config_def Let_def split: if_splits)
qed

text \<open>
  C37: Every section that the module ever evaluates is well typed, however the configuration was put together
  from directives (each limited to any methods), the check at startup and merges of directories: a provider has no
  children, a container has some, its operator is a conjunction or a disjunction, a disjunction has no negated child,
  it applies to exactly the methods of its children, and what is under a negation is for the same methods.
  A section that the check accepts decides every request as before it was rewritten.\<close>

theorem authz_sections_typed:
  assumes "dir_conf lookup conf" and "section_of conf = Some sec"
  shows "typed sec \<and> provider sec = None \<and> \<not> negate sec \<and>
    (case authz_core_check_section sec of
       None \<Rightarrow> True
     | Some sec' \<Rightarrow> typed sec' \<and> (\<forall>check m lop. apply_authz_sections check m lop sec' = apply_authz_sections check m lop sec))"
proof -
  have t: "top_level sec" using dir_conf_top_level [OF assms(1)] assms(2) by simp
  have "typed sec' \<and> (\<forall>check m lop. apply_authz_sections check m lop sec' = apply_authz_sections check m lop sec)"
    if "authz_core_check_section sec = Some sec'" for sec'
    using check_section_same(1) [OF _ that] t unfolding top_level_def same_decisions_def by blast
  then show ?thesis using t unfolding top_level_def by (simp split: option.split)
qed

theorem authz_sections_typed_witness:
  "(case add_directive example_lookup (-1) None (Require ''all granted'') of
      Inr s \<Rightarrow> typed s \<and> \<not> negate s \<and> section_of (create_authz_core_dir_config\<lparr>section_of := Some s\<rparr>) = Some s
    | Inl _ \<Rightarrow> False)"
proof -
  have "(case add_directive example_lookup (-1) None (Require ''all granted'') of Inr s \<Rightarrow> True | Inl _ \<Rightarrow> False)" by code_simp
  then obtain s where s: "add_directive example_lookup (-1) None (Require ''all granted'') = Inr s"
    by (auto split: sum.splits)
  have "dir_conf example_lookup (create_authz_core_dir_config\<lparr>section_of := Some s\<rparr>)"
    using dir_conf.require [OF dir_conf.create, of example_lookup "-1" "Require ''all granted''" s] s
    by (simp add: create_authz_core_dir_config_def)
  from authz_sections_typed [OF this] show ?thesis using s by simp
qed

end
