(* ===== verification/Tables.thy ===== *)
theory Tables
  imports Prelude
begin

text \<open>
  The tables of APR (\<^verbatim>\<open>apr_tables.h\<close>), in which a request keeps its header fields. APR is not part
  of the sources: its functions are a parameter, a record of operations over any type of tables, and the
  laws are what its documentation says of them. The implementation by lists shows that the laws can hold.
\<close>

record 't table_ops =
  apr_table_get :: "'t \<Rightarrow> string \<Rightarrow> string option"
  apr_table_set :: "'t \<Rightarrow> string \<Rightarrow> string \<Rightarrow> 't"
  apr_table_addn :: "'t \<Rightarrow> string \<Rightarrow> string \<Rightarrow> 't"
  apr_table_mergen :: "'t \<Rightarrow> string \<Rightarrow> string \<Rightarrow> 't"
  apr_table_unset :: "'t \<Rightarrow> string \<Rightarrow> 't"
  apr_table_compress :: "'t \<Rightarrow> 't"
  apr_table_elts :: "'t \<Rightarrow> (string \<times> string) list"

fun comma_join :: "string list \<Rightarrow> string" where
  "comma_join [] = []"
| "comma_join [v] = v"
| "comma_join (v # vs) = v @ '', '' @ comma_join vs"

text \<open>The values of a key, which is compared without case.\<close>

definition values_of :: "string \<Rightarrow> (string \<times> string) list \<Rightarrow> string list" where
  "values_of k es = map snd (filter (\<lambda>e. strcaseeq (fst e) k) es)"

definition table_laws :: "'t table_ops \<Rightarrow> bool" where
  "table_laws T \<longleftrightarrow>
    (\<forall>t k. apr_table_get T t k = (case values_of k (apr_table_elts T t) of [] \<Rightarrow> None | v # _ \<Rightarrow> Some v)) \<and>
    (\<forall>t k v. apr_table_elts T (apr_table_addn T t k v) = apr_table_elts T t @ [(k, v)]) \<and>
    (\<forall>t k v k'. apr_table_get T (apr_table_set T t k v) k' = (if strcaseeq k k' then Some v else apr_table_get T t k')) \<and>
    (\<forall>t k k'. apr_table_get T (apr_table_unset T t k) k' = (if strcaseeq k k' then None else apr_table_get T t k')) \<and>
    (\<forall>t k v k'. apr_table_get T (apr_table_mergen T t k v) k' =
       (if strcaseeq k k' then Some (case apr_table_get T t k of None \<Rightarrow> v | Some w \<Rightarrow> w @ '', '' @ v)
        else apr_table_get T t k')) \<and>
    (\<forall>t k. values_of k (apr_table_elts T (apr_table_compress T t)) =
       (case values_of k (apr_table_elts T t) of [] \<Rightarrow> [] | vs \<Rightarrow> [comma_join vs]))"

lemma table_lawsD:
  assumes "table_laws T"
  shows table_get: "apr_table_get T t k = (case values_of k (apr_table_elts T t) of [] \<Rightarrow> None | v # _ \<Rightarrow> Some v)"
    and table_addn: "apr_table_elts T (apr_table_addn T t k v) = apr_table_elts T t @ [(k, v)]"
    and table_set: "apr_table_get T (apr_table_set T t k v) k' = (if strcaseeq k k' then Some v else apr_table_get T t k')"
    and table_unset: "apr_table_get T (apr_table_unset T t k) k' = (if strcaseeq k k' then None else apr_table_get T t k')"
    and table_mergen: "apr_table_get T (apr_table_mergen T t k v) k' =
       (if strcaseeq k k' then Some (case apr_table_get T t k of None \<Rightarrow> v | Some w \<Rightarrow> w @ '', '' @ v)
        else apr_table_get T t k')"
    and table_compress: "values_of k (apr_table_elts T (apr_table_compress T t)) =
       (case values_of k (apr_table_elts T t) of [] \<Rightarrow> [] | vs \<Rightarrow> [comma_join vs])"
  using assms unfolding table_laws_def by blast+

lemma strcaseeq_refl [simp]: "strcaseeq s s"
  by (simp add: strcaseeq_def)

lemma strcaseeq_sym: "strcaseeq s t \<Longrightarrow> strcaseeq t s"
  by (simp add: strcaseeq_def)

lemma strcaseeq_trans: "strcaseeq s t \<Longrightarrow> strcaseeq t u \<Longrightarrow> strcaseeq s u"
  by (simp add: strcaseeq_def)

lemma values_of_mem: "(k, v) \<in> set es \<Longrightarrow> v \<in> set (values_of k es)"
  by (force simp: values_of_def)

section \<open>Tables as lists\<close>

fun list_merge :: "string \<Rightarrow> string \<Rightarrow> (string \<times> string) list \<Rightarrow> (string \<times> string) list" where
  "list_merge k v [] = [(k, v)]"
| "list_merge k v ((k', w) # es) = (if strcaseeq k' k then (k', w @ '', '' @ v) # es else (k', w) # list_merge k v es)"

fun list_compress :: "(string \<times> string) list \<Rightarrow> (string \<times> string) list" where
  "list_compress [] = []"
| "list_compress ((k, v) # es) =
    (k, comma_join (v # values_of k es)) # list_compress (filter (\<lambda>e. \<not> strcaseeq (fst e) k) es)"

definition list_tables :: "(string \<times> string) list table_ops" where
  "list_tables = \<lparr>
     apr_table_get = (\<lambda>t k. case values_of k t of [] \<Rightarrow> None | v # _ \<Rightarrow> Some v),
     apr_table_set = (\<lambda>t k v. (k, v) # filter (\<lambda>e. \<not> strcaseeq (fst e) k) t),
     apr_table_addn = (\<lambda>t k v. t @ [(k, v)]),
     apr_table_mergen = (\<lambda>t k v. list_merge k v t),
     apr_table_unset = (\<lambda>t k. filter (\<lambda>e. \<not> strcaseeq (fst e) k) t),
     apr_table_compress = list_compress,
     apr_table_elts = (\<lambda>t. t)\<rparr>"

lemma values_of_simps [simp]:
  "values_of k [] = []" "values_of k ((k', v) # es) = (if strcaseeq k' k then v # values_of k es else values_of k es)"
  by (simp_all add: values_of_def)

lemma values_of_filter:
  "values_of k' (filter (\<lambda>e. \<not> strcaseeq (fst e) k) es) = (if strcaseeq k k' then [] else values_of k' es)"
  by (induction es) (auto simp: strcaseeq_def)

lemma values_of_merge:
  "values_of k' (list_merge k v es) =
    (if strcaseeq k k' then (case values_of k' es of [] \<Rightarrow> [v] | w # ws \<Rightarrow> (w @ '', '' @ v) # ws) else values_of k' es)"
  by (induction es) (auto simp: strcaseeq_def split: list.splits if_splits)

lemma values_of_cong: "strcaseeq k k' \<Longrightarrow> values_of k es = values_of k' es"
  by (simp add: values_of_def strcaseeq_def)

lemma values_of_compress:
  "values_of k (list_compress es) = (case values_of k es of [] \<Rightarrow> [] | vs \<Rightarrow> [comma_join vs])"
proof (induction es rule: list_compress.induct)
  case (2 k' v es)
  then show ?case
    using values_of_filter [of k k' es] values_of_cong [of k' k es] by (cases "strcaseeq k' k") (auto split: list.split)
qed simp

lemma list_tables_laws: "table_laws list_tables"
  unfolding table_laws_def list_tables_def
  by (auto simp: values_of_filter values_of_merge values_of_compress values_of_cong split: list.split)

end
