(* ===== verification/Header_Fields.thy ===== *)
theory Header_Fields
  imports Tables Request_Line
begin

text \<open>
  Reading lines and header fields: \<open>ap_rgetline_core\<close> (without the flag \<open>AP_GETLINE_FOLD\<close>, which no caller in the
  server core uses) and \<open>ap_get_mime_headers_core\<close> of \<^verbatim>\<open>server/protocol.c\<close>. The input filters and
  the tables of APR are arguments. Logging and the growth of the buffers are not modelled.
\<close>

section \<open>Lines\<close>

abbreviation CR :: char where "CR \<equiv> CHR 0x0D"
abbreviation LF :: char where "LF \<equiv> CHR 0x0A"

datatype bucket = Bucket_EOS | Bucket string | Bucket_Error apr_status

text \<open>The loop over the buckets: what the buffer of \<open>n\<close> bytes holds afterwards, or the error.\<close>

fun copy_buckets :: "nat \<Rightarrow> string \<Rightarrow> bucket list \<Rightarrow> apr_status + string" where
  "copy_buckets n s [] = Inr s"
| "copy_buckets n s (Bucket_EOS # bb) = Inr s"
| "copy_buckets n s (Bucket_Error rv # bb) = Inl rv"
| "copy_buckets n s (Bucket str # bb) =
    (if str = [] then copy_buckets n s bb
     else if n < length s + length str then Inl APR_ENOSPC
     else copy_buckets n (s @ str) bb)"

partial_function (option) fill_line ::
  "('s \<Rightarrow> (apr_status + bucket list) \<times> 's) \<Rightarrow> nat \<Rightarrow> 's \<Rightarrow> string \<Rightarrow> ((apr_status + string) \<times> 's) option" where
  "fill_line ap_get_brigade n f s =
    (case ap_get_brigade f of
       (Inl rv, f') \<Rightarrow> Some (Inl rv, f')
     | (Inr bb, f') \<Rightarrow>
         if bb = [] then Some (Inl APR_EGENERAL, f')
         else (case copy_buckets n s bb of
                 Inl rv \<Rightarrow> Some (Inl rv, f')
               | Inr s' \<Rightarrow> if s' \<noteq> [] \<and> last s' = LF then Some (Inr s', f') else fill_line ap_get_brigade n f' s'))"

definition end_line :: "bool \<Rightarrow> string \<Rightarrow> apr_status + string" where
  "end_line crlf s =
    (let line = butlast s; cr = (line \<noteq> [] \<and> last line = CR) in
     if crlf \<and> \<not> cr then Inl APR_EINVAL
     else let line = (if cr then butlast line else line) in
       if NUL \<in> set line then Inl APR_EINVAL else Inr line)"

definition ap_rgetline_core ::
  "('s \<Rightarrow> (apr_status + bucket list) \<times> 's) \<Rightarrow> nat \<Rightarrow> bool \<Rightarrow> 's \<Rightarrow> ((apr_status + string) \<times> 's) option" where
  "ap_rgetline_core ap_get_brigade n crlf f =
    map_option (\<lambda>(res, f). (case res of Inl rv \<Rightarrow> Inl rv | Inr s \<Rightarrow> end_line crlf s, f)) (fill_line ap_get_brigade n f [])"

section \<open>One field\<close>

abbreviation (input) ws :: "char \<Rightarrow> bool" where "ws c \<equiv> c = CHR 0x09 \<or> c = CHR '' ''"

text \<open>Trailing white space is removed, but never the last character.\<close>

function collapse :: "string \<Rightarrow> string" where
  "collapse field = (if length field > 1 \<and> ws (last field) then collapse (butlast field) else field)"
  by pat_completeness auto
termination by (relation "measure length") auto

declare collapse.simps [simp del]

text \<open>\<open>strpbrk(s, "\n\v\f\r")\<close>.\<close>

definition bad_value_char :: "char \<Rightarrow> bool" where
  "bad_value_char c \<longleftrightarrow> c \<in> {CHR 0x0A, CHR 0x0B, CHR 0x0C, CHR 0x0D}"

definition parse_field :: "bool \<Rightarrow> string \<Rightarrow> (string \<times> string) option" where
  "parse_field st last_field =
    (if \<not> st then
       (case c_strchr last_field CHR '':'' of
          None \<Rightarrow> None
        | Some i \<Rightarrow>
            let tmp_field = (if i > 0 then i - 1 else i); name = take i last_field;
                val = dropWhile ws (drop (i + 1) last_field) in
            if strpbrk_ws name \<noteq> None then None
            else if \<exists>c \<in> set val. bad_value_char c then None
            else if tmp_field = 0 then None
            else Some (name, val))
     else
       (let val = ap_scan_http_token last_field in
        if val = last_field \<or> peek val \<noteq> CHR '':'' then None
        else let name = cut_at last_field val; val = dropWhile ws (tl val) in
          if ap_scan_http_field_content val \<noteq> [] then None else Some (name, val)))"

section \<open>The header section\<close>

record mime_limits =
  limit_req_fields :: nat
  limit_req_fieldsize :: nat

definition size_note :: string where "size_note = ''Size of a request header field exceeds server limit.''"

definition count_note :: string where
  "count_note = ''The number of request header fields exceeds this server'' @ CHR 0x27 # ''s limit.''"

text \<open>A field that is complete goes to the table; an error has the text of \<open>error-notes\<close>, if any.\<close>

definition store_field ::
  "'t table_ops \<Rightarrow> bool \<Rightarrow> mime_limits \<Rightarrow> string \<Rightarrow> nat \<Rightarrow> 't \<Rightarrow> string option + (nat \<times> 't)" where
  "store_field T st lims last_field fields_read t =
    (let n = (if limit_req_fields lims \<noteq> 0 then fields_read + 1 else fields_read) in
     if limit_req_fields lims \<noteq> 0 \<and> n > limit_req_fields lims then Inl (Some count_note)
     else case parse_field st last_field of
         None \<Rightarrow> Inl None
       | Some (name, val) \<Rightarrow> Inr (n, apr_table_addn T t name val))"

datatype 't mime_step = Mime_Fail "string option" | Mime_End 't | Mime_More string nat 't

definition fold_line :: "mime_limits \<Rightarrow> string \<Rightarrow> string \<Rightarrow> string option + string" where
  "fold_line lims last_field field =
    (if tl field = [] then Inl None
     else let rest = dropWhile ws (tl field) in
       if length last_field + (length rest + 1) + 1 \<ge> limit_req_fieldsize lims then Inl (Some size_note)
       else Inr (last_field @ '' '' @ rest))"

definition mime_line ::
  "'t table_ops \<Rightarrow> bool \<Rightarrow> mime_limits \<Rightarrow> string \<Rightarrow> string option \<Rightarrow> nat \<Rightarrow> 't \<Rightarrow> 't mime_step" where
  "mime_line T st lims line last_field fields_read t =
    (let field = collapse line in
     if ws (peek field) then
       (case last_field of
          None \<Rightarrow> Mime_Fail None
        | Some l \<Rightarrow> (case fold_line lims l field of Inl note \<Rightarrow> Mime_Fail note | Inr l' \<Rightarrow> Mime_More l' fields_read t))
     else
       (case (case last_field of None \<Rightarrow> Inr (fields_read, t) | Some l \<Rightarrow> store_field T st lims l fields_read t) of
          Inl note \<Rightarrow> Mime_Fail note
        | Inr (n, t') \<Rightarrow> if field = [] then Mime_End t' else Mime_More field n t'))"

text \<open>The loop: the table, or the status and the note of a failure with the fields read before it.\<close>

partial_function (option) mime_loop ::
  "'t table_ops \<Rightarrow> bool \<Rightarrow> mime_limits \<Rightarrow> ('s \<Rightarrow> (apr_status + string) \<times> 's) \<Rightarrow>
    's \<Rightarrow> string option \<Rightarrow> nat \<Rightarrow> 't \<Rightarrow> ((int \<times> string option \<times> 't + 't) \<times> 's) option" where
  "mime_loop T st lims getline s last_field fields_read t =
    (case getline s of
       (Inl rv, s') \<Rightarrow>
         Some (Inl (if rv = APR_TIMEUP then HTTP_REQUEST_TIME_OUT else HTTP_BAD_REQUEST,
                    if rv = APR_ENOSPC then Some size_note else None, t), s')
     | (Inr line, s') \<Rightarrow>
         (case mime_line T st lims line last_field fields_read t of
            Mime_Fail note \<Rightarrow> Some (Inl (HTTP_BAD_REQUEST, note, t), s')
          | Mime_End t' \<Rightarrow> Some (Inr t', s')
          | Mime_More l n t' \<Rightarrow> mime_loop T st lims getline s' (Some l) n t'))"

text \<open>Status, note and table after the call, for a request whose status was \<open>HTTP_OK\<close>.\<close>

definition ap_get_mime_headers_core ::
  "'t table_ops \<Rightarrow> bool \<Rightarrow> mime_limits \<Rightarrow> ('s \<Rightarrow> (apr_status + string) \<times> 's) \<Rightarrow>
    's \<Rightarrow> 't \<Rightarrow> ((int \<times> string option \<times> 't) \<times> 's) option" where
  "ap_get_mime_headers_core T st lims getline s t =
    map_option (\<lambda>(res, s'). (case res of
         Inl e \<Rightarrow> e
       | Inr t' \<Rightarrow>
           let t'' = apr_table_compress T t' in
           if \<forall>e \<in> set (apr_table_elts T t''). length (snd e) \<le> limit_req_fieldsize lims
           then (HTTP_OK, None, t'') else (HTTP_BAD_REQUEST, Some size_note, t''), s'))
     (mime_loop T st lims getline s None 0 t)"

declare mime_loop.simps [code] fill_line.simps [code]

section \<open>What a line is\<close>

lemmas fill_line_induct [consumes 1, case_names step] = fill_line.raw_induct [rotated]

lemma copy_buckets_length: "copy_buckets n s bb = Inr s' \<Longrightarrow> length s \<le> n \<Longrightarrow> length s' \<le> n"
  by (induction n s bb rule: copy_buckets.induct) (auto split: if_splits)

lemma fill_line_full:
  "fill_line get n f s = Some y \<Longrightarrow> length s \<le> n \<longrightarrow> (\<forall>s' f'. y = (Inr s', f') \<longrightarrow> s' \<noteq> [] \<and> last s' = LF \<and> length s' \<le> n)"
proof (induction get n f s y rule: fill_line_induct)
  case (step loop get n f s y)
  show ?case
  proof (intro impI allI)
    fix s' f' assume len: "length s \<le> n" and y: "y = (Inr s', f')"
    obtain bb f1 s1 where g: "get f = (Inr bb, f1)" "bb \<noteq> []" "copy_buckets n s bb = Inr s1"
      using step(2) y by (auto split: prod.splits sum.splits if_splits)
    have l: "length s1 \<le> n" using copy_buckets_length [OF g(3) len] .
    show "s' \<noteq> [] \<and> last s' = LF \<and> length s' \<le> n"
    proof (cases "s1 \<noteq> [] \<and> last s1 = LF")
      case True
      then show ?thesis using step(2) y g l by simp
    next
      case False
      then have "loop get n f1 s1 = Some y" using step(2) g by (simp split: if_splits)
      then show ?thesis using step(1) l y by blast
    qed
  qed
qed

lemma end_line_length: "s \<noteq> [] \<Longrightarrow> end_line crlf s = Inr l \<Longrightarrow> NUL \<notin> set l \<and> length l + (if crlf then 2 else 1) \<le> length s"
proof -
  assume a: "s \<noteq> []" "end_line crlf s = Inr l"
  define line where "line = butlast s"
  define cr where "cr \<longleftrightarrow> line \<noteq> [] \<and> last line = CR"
  have e: "\<not> (crlf \<and> \<not> cr)" "l = (if cr then butlast line else line)" "NUL \<notin> set l"
    using a(2) by (auto simp: end_line_def Let_def line_def cr_def split: if_splits)
  have "length s = length line + 1" using a(1) by (simp add: line_def)
  moreover have "length line = length l + (if cr then 1 else 0)" using e(2) by (auto simp: cr_def)
  ultimately show ?thesis using e by auto
qed

fun supplies :: "('s \<Rightarrow> (apr_status + bucket list) \<times> 's) \<Rightarrow> 's \<Rightarrow> string list list \<Rightarrow> 's \<Rightarrow> bool" where
  "supplies get f [] f' \<longleftrightarrow> f' = f"
| "supplies get f (xs # xss) f' \<longleftrightarrow> xs \<noteq> [] \<and> (\<exists>f1. get f = (Inr (map Bucket xs), f1) \<and> supplies get f1 xss f')"

lemma copy_buckets_data: "length s + length (concat xs) \<le> n \<Longrightarrow> copy_buckets n s (map Bucket xs) = Inr (s @ concat xs)"
  by (induction xs arbitrary: s) auto

lemma fill_line_supplies:
  "supplies get f xss f' \<Longrightarrow> xss \<noteq> [] \<Longrightarrow> concat (last xss) \<noteq> [] \<Longrightarrow> s @ concat (concat xss) = line @ [LF] \<Longrightarrow>
   LF \<notin> set line \<Longrightarrow> length line + 1 \<le> n \<Longrightarrow> fill_line get n f s = Some (Inr (line @ [LF]), f')"
proof (induction xss arbitrary: f s)
  case (Cons xs xss)
  obtain f1 where f1: "get f = (Inr (map Bucket xs), f1)" "supplies get f1 xss f'" "xs \<noteq> []" using Cons.prems(1) by auto
  have len: "length s + length (concat xs) + length (concat (concat xss)) = length line + 1"
    using arg_cong [OF Cons.prems(4), of length] by simp
  then have c: "copy_buckets n s (map Bucket xs) = Inr (s @ concat xs)" using Cons.prems(6) by (intro copy_buckets_data) linarith
  show ?case
  proof (cases "xss = []")
    case True
    then have "s @ concat xs = line @ [LF]" using Cons.prems(4) by simp
    then show ?thesis using True f1 c by (subst fill_line.simps) simp
  next
    case False
    have "concat (concat xss) \<noteq> []" using Cons.prems(3) False by (metis append_butlast_last_id concat_append concat_eq_Nil_conv concat.simps last.simps append_is_Nil_conv append_Nil2)
    then obtain w where w: "line = s @ concat xs @ w"
    proof -
      obtain w c where "concat (concat xss) = w @ [c]" using \<open>concat (concat xss) \<noteq> []\<close> by (metis rev_exhaust)
      then show thesis using that [of w] Cons.prems(4) by simp
    qed
    define s1 where "s1 = s @ concat xs"
    have "\<not> (s1 \<noteq> [] \<and> last s1 = LF)"
      using Cons.prems(5) w by (metis UnI1 append_assoc last_in_set set_append s1_def)
    moreover have "fill_line get n f1 s1 = Some (Inr (line @ [LF]), f')"
      using Cons.IH [OF f1(2) False] Cons.prems(3-6) False by (simp add: s1_def)
    ultimately show ?thesis using f1 c by (subst fill_line.simps) (auto simp flip: s1_def)
  qed
qed simp

text \<open>
  C38: \<open>ap_rgetline_core\<close> reads one line within its buffer. Whatever the input filters return, a line it accepts has no NUL byte and fits with its
  terminating NUL into \<open>n\<close> bytes; and when the filters deliver a line that ends in LF, cut into any number of buckets and brigades, it returns the line without
  CRLF or LF, and \<open>APR_EINVAL\<close> if a CR was asked for and is missing or if there is a NUL byte.\<close>

theorem rgetline_exact:
  "(case ap_rgetline_core get n crlf f of
      Some (Inr l, f') \<Rightarrow> NUL \<notin> set l \<and> length l + (if crlf then 2 else 1) \<le> n | _ \<Rightarrow> True) \<and>
   (\<forall>xss line f'. supplies get f xss f' \<and> concat (concat xss) = line @ [LF] \<and> LF \<notin> set line \<and> concat (last xss) \<noteq> [] \<and> length line < n \<longrightarrow>
      ap_rgetline_core get n crlf f = Some (
        let cr = (line \<noteq> [] \<and> last line = CR); l = (if cr then butlast line else line) in
        if crlf \<and> \<not> cr \<or> NUL \<in> set l then Inl APR_EINVAL else Inr l, f'))"
proof (intro conjI allI impI)
  show "case ap_rgetline_core get n crlf f of
      Some (Inr l, f') \<Rightarrow> NUL \<notin> set l \<and> length l + (if crlf then 2 else 1) \<le> n | _ \<Rightarrow> True"
  proof (cases "fill_line get n f []")
    case (Some y)
    obtain r f' where y: "y = (r, f')" by fastforce
    show ?thesis
    proof (cases r)
      case (Inr s)
      then have "s \<noteq> []" "length s \<le> n" using fill_line_full [OF Some] y by auto
      then show ?thesis using Some y Inr end_line_length [of s crlf]
        by (cases "end_line crlf s") (auto simp: ap_rgetline_core_def split: if_splits)
    qed (simp add: ap_rgetline_core_def Some y)
  qed (simp add: ap_rgetline_core_def)
next
  fix xss line f'
  assume a: "supplies get f xss f' \<and> concat (concat xss) = line @ [LF] \<and> LF \<notin> set line \<and> concat (last xss) \<noteq> [] \<and> length line < n"
  then have "fill_line get n f [] = Some (Inr (line @ [LF]), f')" using fill_line_supplies [of get f xss f' "[]" line n] by (cases xss) auto
  then show "ap_rgetline_core get n crlf f = Some (
        let cr = (line \<noteq> [] \<and> last line = CR); l = (if cr then butlast line else line) in
        if crlf \<and> \<not> cr \<or> NUL \<in> set l then Inl APR_EINVAL else Inr l, f')"
    by (simp add: ap_rgetline_core_def end_line_def Let_def)
qed

fun next_brigade :: "bucket list list \<Rightarrow> (apr_status + bucket list) \<times> bucket list list" where
  "next_brigade [] = (Inr [], [])"
| "next_brigade (bb # bbs) = (Inr bb, bbs)"

theorem rgetline_exact_witness:
  "ap_rgetline_core next_brigade 8 True [[Bucket ''a'', Bucket ''b''], [Bucket [CR, LF]], [Bucket ''c'']] = Some (Inr ''ab'', [[Bucket ''c'']])"
  using conjunct2 [OF rgetline_exact [where get = next_brigade and n = 8 and crlf = True and f = "[[Bucket ''a'', Bucket ''b''], [Bucket [CR, LF]], [Bucket ''c'']]"],
      rule_format, of "[[''a'', ''b''], [[CR, LF]]]" "[[Bucket ''c'']]" "''ab'' @ [CR]"]
  by (simp add: Let_def)

section \<open>What a field is\<close>

definition trimmed :: "string \<Rightarrow> bool" where
  "trimmed s \<longleftrightarrow> s \<noteq> [] \<and> \<not> ws (hd s) \<and> \<not> ws (last s)"

text \<open>A name is a token; a value has printing characters, blanks and bytes above 127, and no blank around it.\<close>

definition field_ok :: "string \<Rightarrow> string \<Rightarrow> bool" where
  "field_ok name val \<longleftrightarrow>
    name \<noteq> [] \<and> list_all (\<lambda>c. c_isalnum c \<or> has_chr token_chars c \<and> c \<noteq> NUL) name \<and>
    list_all (\<lambda>c. c = CHR 0x09 \<or> (ord c \<ge> 32 \<and> ord c \<noteq> 127)) val \<and> (val = [] \<or> trimmed val)"

lemma collapse_props:
  "field \<noteq> [] \<Longrightarrow> collapse field \<noteq> [] \<and> hd (collapse field) = hd field \<and>
    (length (collapse field) > 1 \<longrightarrow> \<not> ws (last (collapse field)))"
proof (induction field rule: collapse.induct)
  case (1 field)
  show ?case
  proof (cases "length field > 1 \<and> ws (last field)")
    case True
    then have "butlast field \<noteq> []" "hd (butlast field) = hd field"
      by (cases field; cases "tl field"; simp)+
    moreover have "collapse field = collapse (butlast field)" using collapse.simps [of field] True by simp
    ultimately show ?thesis using 1(1) [OF True] by simp
  next
    case False
    then have "collapse field = field" using collapse.simps [of field] by auto
    then show ?thesis using 1(2) False by simp
  qed
qed

lemma collapse_Nil [simp]: "collapse [] = []" and collapse_eq_Nil [simp]: "collapse s = [] \<longleftrightarrow> s = []"
  using collapse_props [of s] by (auto simp: collapse.simps [of "[]"])

lemma collapse_ws: "list_all ws b \<Longrightarrow> s \<noteq> [] \<Longrightarrow> \<not> ws (last s) \<Longrightarrow> collapse (s @ b) = s"
proof (induction b rule: rev_induct)
  case Nil
  then show ?case by (subst collapse.simps) auto
next
  case (snoc c b)
  then show ?case by (subst collapse.simps) (simp flip: append_assoc)
qed

lemma fold_line_trimmed:
  assumes "fold_line lims l field = Inr l'" and "trimmed l" and "length field > 1 \<Longrightarrow> \<not> ws (last field)"
  shows "trimmed l' \<and> length l' + 1 < limit_req_fieldsize lims"
proof -
  have t: "tl field \<noteq> []" using assms(1) by (auto simp: fold_line_def)
  then have "length field > 1" by (cases field) auto
  then have n: "\<not> ws (last (tl field))" using assms(3) t by (simp add: last_tl)
  define r where "r = dropWhile ws (tl field)"
  have "r \<noteq> []" unfolding r_def using n t last_in_set [OF t] unfolding dropWhile_eq_Nil_conv by blast
  moreover have "last r = last (tl field)" using calculation unfolding r_def by (rule last_dropWhile)
  moreover have "l' = l @ '' '' @ r" "length l + (length r + 1) + 1 < limit_req_fieldsize lims"
    using assms(1) t unfolding fold_line_def Let_def r_def by (simp_all split: if_splits)
  ultimately show ?thesis using assms(2) n by (simp add: trimmed_def)
qed

lemma mime_line_trimmed:
  assumes "mime_line T st lims line last_field n t = Mime_More l n' t'" and "pred_option trimmed last_field"
  shows "trimmed l"
proof (cases "ws (peek (collapse line))")
  case True
  obtain l0 where l0: "last_field = Some l0" "fold_line lims l0 (collapse line) = Inr l"
    using assms(1) True by (auto simp: mime_line_def Let_def split: option.splits sum.splits)
  have "line \<noteq> []" using True by (cases line) auto
  then show ?thesis using fold_line_trimmed [OF l0(2)] assms(2) l0(1) collapse_props [of line] by simp
next
  case False
  then have l: "l = collapse line" "collapse line \<noteq> []"
    using assms(1) by (auto simp: mime_line_def Let_def split: option.splits sum.splits prod.splits if_splits)
  have "peek (collapse line) = hd (collapse line)" using l(2) by (cases "collapse line") simp_all
  then have h: "\<not> ws (hd l)" using False l(1) by simp
  have "\<not> ws (last l)"
  proof (cases "length l > 1")
    case True
    then show ?thesis using collapse_props [of line] l by auto
  next
    case False
    then obtain c where "l = [c]" using l by (metis One_nat_def length_0_conv length_Suc_conv less_one linorder_neqE_nat)
    then have "last l = hd l" by simp
    then show ?thesis using h by simp
  qed
  then show ?thesis using h l by (simp add: trimmed_def)
qed

lemma field_content_iff:
  "ap_scan_http_field_content s = [] \<longleftrightarrow> list_all (\<lambda>c. c = CHR 0x09 \<or> (ord c \<ge> 32 \<and> ord c \<noteq> 127)) s"
proof -
  have "\<not> TEST_CHAR c T_HTTP_CTRLS \<longleftrightarrow> c = CHR 0x09 \<or> (ord c \<ge> 32 \<and> ord c \<noteq> 127)" for c
    by (cases "c = NUL") (auto simp: TEST_CHAR_simps c_iscntrl_def)
  then show ?thesis by (simp add: ap_scan_http_field_content_def list_all_iff)
qed

lemma parse_field_ok:
  assumes "parse_field True l = Some (k, v)" and "trimmed l"
  shows "field_ok k v"
proof -
  define r where "r = ap_scan_http_token l"
  have r: "r \<noteq> l" "peek r = CHR '':''" "k = cut_at l r" "v = dropWhile ws (tl r)" "ap_scan_http_field_content v = []"
    using assms(1) by (auto simp: parse_field_def Let_def r_def split: if_splits)
  have l: "l = k @ r" "list_all (\<lambda>c. \<not> token_stop c) k"
  proof -
    have "l = takeWhile (\<lambda>c. \<not> token_stop c) l @ r" by (simp add: r_def ap_scan_http_token_def)
    then have "k = takeWhile (\<lambda>c. \<not> token_stop c) l" unfolding r(3) cut_at_def
      by (metis append_eq_conv_conj diff_add_inverse2 length_append)
    then show "l = k @ r" "list_all (\<lambda>c. \<not> token_stop c) k"
      using \<open>l = takeWhile _ l @ r\<close> by (auto simp: list_all_iff dest: set_takeWhileD)
  qed
  have "v = [] \<or> trimmed v"
  proof (cases "v = []")
    case False
    then have "tl r \<noteq> []" by (auto simp: r(4))
    then have "last v = last (tl r)" "last (tl r) = last r" "r \<noteq> []"
      using False last_dropWhile [of ws "tl r"] by (auto simp: r(4) last_tl)
    then have "last v = last l" using l(1) by simp
    moreover have "\<not> ws (hd v)" using False hd_dropWhile [of ws "tl r"] by (simp add: r(4))
    ultimately show ?thesis using False assms(2) by (simp add: trimmed_def)
  qed simp
  moreover have "k \<noteq> []" using r(1) l(1) by auto
  moreover have "list_all (\<lambda>c. c_isalnum c \<or> has_chr token_chars c \<and> c \<noteq> NUL) k"
    using l(2) by (auto simp: list_all_iff TEST_CHAR_simps)
  ultimately show ?thesis using r(5) by (simp add: field_ok_def field_content_iff)
qed

section \<open>The loop\<close>

definition add_fields :: "'t table_ops \<Rightarrow> (string \<times> string) list \<Rightarrow> 't \<Rightarrow> 't" where
  "add_fields T fs t = fold (\<lambda>(name, val) t. apr_table_addn T t name val) fs t"

lemma add_fields_simps [simp]:
  "add_fields T [] t = t" "add_fields T ((k, v) # fs) t = add_fields T fs (apr_table_addn T t k v)"
  "add_fields T (fs @ gs) t = add_fields T gs (add_fields T fs t)"
  by (simp_all add: add_fields_def)

lemma add_fields_elts: "table_laws T \<Longrightarrow> apr_table_elts T (add_fields T fs t) = apr_table_elts T t @ fs"
  by (induction fs arbitrary: t) (auto simp: table_addn)

definition good_fields :: "mime_limits \<Rightarrow> nat \<Rightarrow> (string \<times> string) list \<Rightarrow> bool" where
  "good_fields lims n fs \<longleftrightarrow>
    (\<forall>(k, v) \<in> set fs. field_ok k v) \<and>
    (limit_req_fields lims \<noteq> 0 \<longrightarrow> n \<le> limit_req_fields lims \<longrightarrow> n + length fs \<le> limit_req_fields lims)"

lemma store_field_good:
  assumes "store_field T True lims l n t = Inr (n', t')" and "trimmed l"
  obtains k v where "t' = apr_table_addn T t k v" "field_ok k v" "parse_field True l = Some (k, v)"
    "n' = (if limit_req_fields lims \<noteq> 0 then n + 1 else n)" "limit_req_fields lims \<noteq> 0 \<longrightarrow> n' \<le> limit_req_fields lims"
proof -
  obtain k v where kv: "parse_field True l = Some (k, v)"
    using assms(1) by (cases "parse_field True l") (auto simp: store_field_def Let_def split: if_splits)
  with assms show ?thesis
    by (intro that [of k v]) (auto simp: store_field_def Let_def parse_field_ok split: if_splits)
qed

lemma mime_line_good:
  assumes "mime_line T True lims line last_field n t = step" and "pred_option trimmed last_field"
  shows "case step of Mime_Fail _ \<Rightarrow> True
    | Mime_End t' \<Rightarrow> \<exists>fs. t' = add_fields T fs t \<and> good_fields lims n fs
    | Mime_More l n' t' \<Rightarrow> \<exists>fs. t' = add_fields T fs t \<and> (\<forall>gs. good_fields lims n' gs \<longrightarrow> good_fields lims n (fs @ gs))"
proof -
  have nil: "t = add_fields T [] t" "good_fields lims n []" by (simp_all add: good_fields_def)
  have fin: "\<exists>fs. t = add_fields T fs t \<and> good_fields lims n fs"
    by (rule exI [of _ "[]"]) (simp add: nil(2))
  have more: "\<exists>fs. t = add_fields T fs t \<and> (\<forall>gs. good_fields lims n gs \<longrightarrow> good_fields lims n (fs @ gs))"
    by (rule exI [of _ "[]"]) simp
  show ?thesis
  proof (cases "ws (peek (collapse line))")
    case True
    then show ?thesis
      using assms(1) more by (auto simp: mime_line_def Let_def split: option.splits sum.splits)
  next
    case False
    show ?thesis
    proof (cases last_field)
      case None
      then have "step = (if collapse line = [] then Mime_End t else Mime_More (collapse line) n t)"
        using assms(1) False by (simp add: mime_line_def Let_def)
      then show ?thesis using fin more by simp
    next
      case (Some l)
      show ?thesis
      proof (cases "store_field T True lims l n t")
        case (Inl e)
        then show ?thesis using assms(1) Some False by (auto simp: mime_line_def Let_def)
      next
        case (Inr r)
        obtain n1 t1 where r: "r = (n1, t1)" by fastforce
        obtain k v where kv: "t1 = apr_table_addn T t k v" "field_ok k v"
          "n1 = (if limit_req_fields lims \<noteq> 0 then n + 1 else n)" "limit_req_fields lims \<noteq> 0 \<longrightarrow> n1 \<le> limit_req_fields lims"
          by (rule store_field_good [OF Inr [unfolded r]]) (use assms(2) Some in simp_all)
        have a: "t1 = add_fields T [(k, v)] t" using kv(1) by simp
        have g: "good_fields lims n ((k, v) # gs)" if "good_fields lims n1 gs" for gs
          using that kv by (auto simp: good_fields_def split: if_splits)
        have e: "good_fields lims n1 []" by (simp add: good_fields_def)
        have "step = (if collapse line = [] then Mime_End t1 else Mime_More (collapse line) n1 t1)"
          using assms(1) Some Inr r False by (simp add: mime_line_def Let_def)
        then show ?thesis using a g e by (auto intro: exI [of _ "[(k, v)]"])
      qed
    qed
  qed
qed

lemmas mime_loop_induct [consumes 1, case_names step] = mime_loop.raw_induct [rotated]

lemma mime_loop_good:
  "mime_loop T st lims getline s last_field n t = Some y \<Longrightarrow> st \<longrightarrow> pred_option trimmed last_field \<longrightarrow>
   (\<forall>t' s'. y = (Inr t', s') \<longrightarrow> (\<exists>fs. t' = add_fields T fs t \<and> good_fields lims n fs))"
proof (induction T st lims getline s last_field n t y rule: mime_loop_induct)
  case (step loop T st lims getline s last_field n t y)
  show ?case
  proof (intro impI allI)
    fix t' s' assume st: st and tr: "pred_option trimmed last_field" and y: "y = (Inr t', s')"
    obtain line s1 where l: "getline s = (Inr line, s1)" using step(2) y by (auto split: prod.splits sum.splits)
    define stp where "stp = mime_line T st lims line last_field n t"
    have g: "case stp of Mime_Fail _ \<Rightarrow> True
      | Mime_End t' \<Rightarrow> \<exists>fs. t' = add_fields T fs t \<and> good_fields lims n fs
      | Mime_More l n' t' \<Rightarrow> \<exists>fs. t' = add_fields T fs t \<and> (\<forall>gs. good_fields lims n' gs \<longrightarrow> good_fields lims n (fs @ gs))"
      using mime_line_good [of T lims line last_field n t stp] st tr by (simp add: stp_def)
    show "\<exists>fs. t' = add_fields T fs t \<and> good_fields lims n fs"
    proof (cases stp)
      case (Mime_Fail e)
      then show ?thesis using step(2) l y by (simp flip: stp_def)
    next
      case (Mime_End t1)
      then show ?thesis using step(2) l y g by (simp flip: stp_def)
    next
      case (Mime_More l1 n1 t1)
      then have "loop T st lims getline s1 (Some l1) n1 t1 = Some y" using step(2) l by (simp flip: stp_def)
      moreover have "pred_option trimmed (Some l1)"
        using mime_line_trimmed [of T st lims line last_field n t l1 n1 t1] tr Mime_More by (simp add: stp_def)
      ultimately obtain gs where "t' = add_fields T gs t1" "good_fields lims n1 gs" using step(1) st y by blast
      moreover obtain fs where "t1 = add_fields T fs t" "\<And>gs. good_fields lims n1 gs \<Longrightarrow> good_fields lims n (fs @ gs)"
        using g Mime_More by auto
      ultimately show ?thesis by (intro exI [of _ "fs @ gs"]) simp
    qed
  qed
qed

lemma mime_loop_status:
  "mime_loop T st lims getline s last_field n t = Some y \<Longrightarrow>
   (\<forall>code e t' s'. y = (Inl (code, e, t'), s') \<longrightarrow> code = HTTP_REQUEST_TIME_OUT \<or> code = HTTP_BAD_REQUEST)"
proof (induction T st lims getline s last_field n t y rule: mime_loop_induct)
  case (step loop T st lims getline s last_field n t y)
  then show ?case by (auto split: prod.splits sum.splits mime_step.splits)
qed

section \<open>Header sections as they are sent\<close>

text \<open>A field as a client may send it: its name, white space, the value in pieces on lines of their own, each with
  white space before and after it.\<close>

record sent_field =
  sent_name :: string
  sent_first :: "string \<times> string \<times> string"
  sent_more :: "(string \<times> string \<times> string) list"

definition piece_line :: "string \<times> string \<times> string \<Rightarrow> string" where
  "piece_line p = (case p of (before, text, after) \<Rightarrow> before @ text @ after)"

definition sent_lines :: "sent_field \<Rightarrow> string list" where
  "sent_lines f = (sent_name f @ '':'' @ piece_line (sent_first f)) # map piece_line (sent_more f)"

definition piece_text :: "string \<times> string \<times> string \<Rightarrow> string" where
  "piece_text p = fst (snd p)"

definition sent_value :: "sent_field \<Rightarrow> string" where
  "sent_value f = dropWhile ws (piece_text (sent_first f) @ concat (map (\<lambda>p. '' '' @ piece_text p) (sent_more f)))"

definition white :: "string \<Rightarrow> bool" where "white s \<longleftrightarrow> list_all ws s"

definition content :: "string \<Rightarrow> bool" where
  "content s \<longleftrightarrow> list_all (\<lambda>c. c = CHR 0x09 \<or> (ord c \<ge> 32 \<and> ord c \<noteq> 127)) s"

definition sent_ok :: "mime_limits \<Rightarrow> sent_field \<Rightarrow> bool" where
  "sent_ok lims f \<longleftrightarrow>
    sent_name f \<noteq> [] \<and> list_all token_char (sent_name f) \<and>
    (case sent_first f of (b, s, a) \<Rightarrow> white b \<and> white a \<and> content s \<and> (s = [] \<or> trimmed s)) \<and>
    (\<forall>(b, s, a) \<in> set (sent_more f). b \<noteq> [] \<and> white b \<and> white a \<and> content s \<and> trimmed s) \<and>
    length (concat (sent_lines f)) + 1 < limit_req_fieldsize lims"

text \<open>The lines that a reader delivers one after the other.\<close>

fun delivers :: "('s \<Rightarrow> (apr_status + string) \<times> 's) \<Rightarrow> 's \<Rightarrow> string list \<Rightarrow> 's \<Rightarrow> bool" where
  "delivers getline s [] s' \<longleftrightarrow> s' = s"
| "delivers getline s (l # ls) s' \<longleftrightarrow> (\<exists>s1. getline s = (Inr l, s1) \<and> delivers getline s1 ls s')"

lemma delivers_append: "delivers getline s (xs @ ys) s' \<longleftrightarrow> (\<exists>s1. delivers getline s xs s1 \<and> delivers getline s1 ys s')"
  by (induction xs arbitrary: s) auto

definition joined :: "sent_field \<Rightarrow> string" where
  "joined f = collapse (hd (sent_lines f)) @ concat (map (\<lambda>p. '' '' @ piece_text p) (sent_more f))"

lemma white_dropWhile: "white b \<Longrightarrow> dropWhile ws (b @ s) = dropWhile ws s"
  by (induction b) (auto simp: white_def)

lemma fold_piece:
  assumes "b \<noteq> []" "white b" "white a" "trimmed s" and "length l + length s + 2 < limit_req_fieldsize lims"
  shows "mime_line T st lims (piece_line (b, s, a)) (Some l) n t = Mime_More (l @ '' '' @ s) n t"
proof -
  have "collapse (piece_line (b, s, a)) = b @ s"
    using collapse_ws [of a "b @ s"] assms by (simp add: piece_line_def white_def trimmed_def)
  moreover have "ws (peek (b @ s))" using assms(1,2) by (cases b) (auto simp: white_def)
  moreover have "tl (b @ s) \<noteq> []" using assms(1,4) by (cases b) (auto simp: trimmed_def)
  moreover have "dropWhile ws (tl (b @ s)) = s"
  proof -
    obtain c b' where b: "b = c # b'" using assms(1) by (cases b) auto
    then have "dropWhile ws (tl (b @ s)) = dropWhile ws s" using assms(2) white_dropWhile [of b' s] by (simp add: white_def)
    then show ?thesis using assms(4) by (cases s) (auto simp: trimmed_def)
  qed
  ultimately show ?thesis using assms(5) by (simp add: mime_line_def fold_line_def Let_def)
qed

lemma mime_loop_pieces:
  "delivers getline s (map piece_line ps) s' \<Longrightarrow>
   \<forall>(b, txt1, a) \<in> set ps. b \<noteq> [] \<and> white b \<and> white a \<and> content txt1 \<and> trimmed txt1 \<Longrightarrow>
   length l + length (concat (map (\<lambda>p. '' '' @ piece_text p) ps)) + 1 < limit_req_fieldsize lims \<Longrightarrow>
   mime_loop T st lims getline s (Some l) n t =
   mime_loop T st lims getline s' (Some (l @ concat (map (\<lambda>p. '' '' @ piece_text p) ps))) n t"
proof (induction ps arbitrary: s l)
  case (Cons p ps)
  obtain b x a where p: "p = (b, x, a)" using prod_cases3 by blast
  obtain s1 where s1: "getline s = (Inr (piece_line p), s1)" "delivers getline s1 (map piece_line ps) s'"
    using Cons.prems(1) by auto
  have "mime_line T st lims (piece_line p) (Some l) n t = Mime_More (l @ '' '' @ x) n t"
    using fold_piece [of b a x l lims] Cons.prems(2,3) p by (auto simp: piece_text_def)
  then have "mime_loop T st lims getline s (Some l) n t = mime_loop T st lims getline s1 (Some (l @ '' '' @ x)) n t"
    by (subst mime_loop.simps) (simp add: s1(1))
  also have "\<dots> = mime_loop T st lims getline s' (Some ((l @ '' '' @ x) @ concat (map (\<lambda>p. '' '' @ piece_text p) ps))) n t"
    using Cons.IH [OF s1(2)] Cons.prems(2,3) p by (auto simp: piece_text_def)
  finally show ?case using p by (simp add: piece_text_def)
qed simp

lemma first_line:
  assumes "sent_ok lims f" and "sent_first f = (b, x, a)"
  shows "collapse (hd (sent_lines f)) = sent_name f @ '':'' @ (if x = [] then [] else b @ x)"
proof -
  have w: "white a" "white b" "x = [] \<or> trimmed x" using assms by (simp_all add: sent_ok_def)
  have h: "hd (sent_lines f) = sent_name f @ '':'' @ b @ x @ a" by (simp add: sent_lines_def piece_line_def assms(2))
  show ?thesis
  proof (cases "x = []")
    case True
    then show ?thesis using collapse_ws [of "b @ a" "sent_name f @ '':''"] w h by (simp add: white_def)
  next
    case False
    then show ?thesis using collapse_ws [of a "sent_name f @ '':'' @ b @ x"] w h by (simp add: white_def trimmed_def)
  qed
qed

lemma content_dropWhile: "content s \<Longrightarrow> content (dropWhile P s)"
  by (auto simp: content_def list_all_iff dest: set_dropWhileD)

lemma joined_parse:
  assumes "sent_ok lims f"
  shows "parse_field True (joined f) = Some (sent_name f, sent_value f)"
proof -
  obtain b x a where f: "sent_first f = (b, x, a)" using prod_cases3 by blast
  define r where "r = concat (map (\<lambda>p. '' '' @ piece_text p) (sent_more f))"
  define v where "v = (if x = [] then [] else b @ x) @ r"
  have j: "joined f = sent_name f @ CHR '':'' # v"
    using first_line [OF assms f] by (simp add: joined_def r_def v_def)
  have "\<not> token_char CHR '':''" by (simp add: token_char_def TEST_CHAR_simps cclass has_chr_iff token_chars_def)
  then have "ap_scan_http_token (joined f) = CHR '':'' # v"
    using assms unfolding j by (auto simp: ap_scan_http_token_def sent_ok_def token_char_iff list_all_iff dropWhile_append)
  moreover have "cut_at (joined f) (CHR '':'' # v) = sent_name f" by (simp add: cut_at_def j)
  moreover have "dropWhile ws v = sent_value f"
    using assms f white_dropWhile [of b] by (auto simp: v_def sent_value_def piece_text_def r_def sent_ok_def)
  moreover have "content (sent_value f)"
  proof -
    have "content (piece_text (sent_first f) @ r)"
      using assms f by (fastforce simp: sent_ok_def piece_text_def r_def content_def list_all_iff)
    then show ?thesis unfolding sent_value_def r_def by (rule content_dropWhile)
  qed
  moreover have "joined f \<noteq> CHR '':'' # v" using assms by (simp add: j sent_ok_def)
  ultimately show ?thesis by (simp add: parse_field_def Let_def field_content_iff content_def)
qed

lemma joined_length: "sent_ok lims f \<Longrightarrow>
  length (collapse (hd (sent_lines f))) + length (concat (map (\<lambda>p. '' '' @ piece_text p) (sent_more f))) + 1 < limit_req_fieldsize lims"
proof -
  assume f: "sent_ok lims f"
  obtain b x a where fst: "sent_first f = (b, x, a)" using prod_cases3 by blast
  have "length (collapse (hd (sent_lines f))) \<le> length (hd (sent_lines f))"
    using first_line [OF f fst] by (auto simp: sent_lines_def piece_line_def fst)
  moreover have "\<forall>(b, x, a) \<in> set ps. b \<noteq> [] \<Longrightarrow>
      length (concat (map (\<lambda>p. '' '' @ piece_text p) ps)) \<le> length (concat (map piece_line ps))" for ps
    by (induction ps) (auto simp: piece_text_def piece_line_def neq_Nil_conv split: prod.splits)
  moreover have "\<forall>(b, x, a) \<in> set (sent_more f). b \<noteq> []" using f by (auto simp: sent_ok_def)
  ultimately show ?thesis using f by (fastforce simp: sent_ok_def sent_lines_def)
qed

lemma first_line_start:
  assumes "sent_ok lims f"
  shows "\<not> ws (peek (collapse (hd (sent_lines f))))" "collapse (hd (sent_lines f)) \<noteq> []"
proof -
  obtain b x a where f: "sent_first f = (b, x, a)" using prod_cases3 by blast
  obtain c m where m: "sent_name f = c # m" "token_char c" using assms by (cases "sent_name f") (auto simp: sent_ok_def)
  then have "\<not> ws c" by (auto simp: token_char_def TEST_CHAR_simps cclass has_chr_iff token_chars_def)
  then show "\<not> ws (peek (collapse (hd (sent_lines f))))" "collapse (hd (sent_lines f)) \<noteq> []"
    using first_line [OF assms f] m(1) by simp_all
qed

abbreviation sent_pair :: "sent_field \<Rightarrow> string \<times> string" where
  "sent_pair f \<equiv> (sent_name f, sent_value f)"

lemma mime_loop_fields:
  assumes "\<forall>f \<in> set fs. sent_ok lims f" and "pred_option (sent_ok lims) g"
    and "delivers getline s (concat (map sent_lines fs) @ [[]]) s'"
    and "limit_req_fields lims = 0 \<or> n + length fs + (if g = None then 0 else 1) \<le> limit_req_fields lims"
  shows "mime_loop T True lims getline s (map_option joined g) n t =
    Some (Inr (add_fields T (map sent_pair (case g of None \<Rightarrow> fs | Some f \<Rightarrow> f # fs)) t), s')"
  using assms
proof (induction fs arbitrary: s g n t)
  define pend where "pend g n t = (case g of None \<Rightarrow> (n, t)
    | Some f \<Rightarrow> (if limit_req_fields lims \<noteq> 0 then n + 1 else n, apr_table_addn T t (sent_name f) (sent_value f)))" for g and n :: nat and t
  have store: "(case map_option joined g of None \<Rightarrow> Inr (n, t) | Some l \<Rightarrow> store_field T True lims l n t) = Inr (pend g n t)"
    if "pred_option (sent_ok lims) g" "limit_req_fields lims = 0 \<or> n + (if g = None then 0 else 1) \<le> limit_req_fields lims" for g n t
    using that joined_parse by (cases g) (auto simp: pend_def store_field_def)
  {
    case Nil
    then have "getline s = (Inr [], s')" by simp
    then show ?case
      using store [of g n t] Nil.prems(2,4)
      by (subst mime_loop.simps) (cases g; simp add: mime_line_def Let_def pend_def)
  next
    case (Cons f fs)
    obtain s1 s2 where s1: "getline s = (Inr (hd (sent_lines f)), s1)" "delivers getline s1 (map piece_line (sent_more f)) s2"
      "delivers getline s2 (concat (map sent_lines fs) @ [[]]) s'"
    proof -
      have l: "sent_lines f = hd (sent_lines f) # map piece_line (sent_more f)" by (simp add: sent_lines_def)
      have "delivers getline s (hd (sent_lines f) # map piece_line (sent_more f) @ concat (map sent_lines fs) @ [[]]) s'"
        using Cons.prems(3) l by (metis append_Cons append_assoc concat.simps(2) list.simps(9))
      then show thesis using that unfolding delivers.simps(2) delivers_append [of _ _ "map piece_line (sent_more f)"] by blast
    qed
    obtain n1 t1 where p: "pend g n t = (n1, t1)" by fastforce
    have f: "sent_ok lims f" using Cons.prems(1) by simp
    have "limit_req_fields lims = 0 \<or> n + (if g = None then 0 else 1) \<le> limit_req_fields lims" using Cons.prems(4) by auto
    then have st: "(case map_option joined g of None \<Rightarrow> Inr (n, t) | Some l \<Rightarrow> store_field T True lims l n t) = Inr (n1, t1)"
      using store [OF Cons.prems(2)] p by metis
    have "mime_line T True lims (hd (sent_lines f)) (map_option joined g) n t = Mime_More (collapse (hd (sent_lines f))) n1 t1"
      unfolding mime_line_def Let_def st using first_line_start [OF f] by simp
    then have "mime_loop T True lims getline s (map_option joined g) n t =
        mime_loop T True lims getline s1 (Some (collapse (hd (sent_lines f)))) n1 t1"
      by (subst mime_loop.simps) (simp add: s1(1))
    also have "\<dots> = mime_loop T True lims getline s2 (Some (joined f)) n1 t1"
      unfolding joined_def using f joined_length [OF f] by (intro mime_loop_pieces s1(2)) (auto simp: sent_ok_def)
    also have "\<dots> = Some (Inr (add_fields T (map sent_pair (f # fs)) t1), s')"
      using Cons.IH [of "Some f" s2 n1 t1] Cons.prems s1(3) f p by (auto simp: pend_def split: option.splits if_splits)
    finally show ?case using p by (auto simp: pend_def split: option.splits)
  }
qed

section \<open>Properties\<close>

text \<open>
  C14: What reaches the handlers as header fields is clean. When \<open>ap_get_mime_headers_core\<close> in strict mode
  leaves the status at 200, whatever lines the client sent and however it folded them, the table was
  made, by merging fields of the same name, from fields whose name is a non-empty token and whose value has no control character
  (no CR, LF or NUL) but tabs and no blank at either end; there are at most \<open>LimitRequestFields\<close> of them, and every merged value
  has at most \<open>LimitRequestFieldSize\<close> bytes.\<close>

theorem header_fields_safe:
  assumes "ap_get_mime_headers_core T True lims getline s t = Some ((HTTP_OK, e, t'), s')"
  shows "\<exists>fs. t' = apr_table_compress T (add_fields T fs t) \<and> (\<forall>(name, val) \<in> set fs. field_ok name val) \<and>
    (limit_req_fields lims \<noteq> 0 \<longrightarrow> length fs \<le> limit_req_fields lims) \<and>
    (\<forall>f \<in> set (apr_table_elts T t'). length (snd f) \<le> limit_req_fieldsize lims)"
proof -
  obtain res where res: "mime_loop T True lims getline s None 0 t = Some (res, s')"
    "(case res of Inl e \<Rightarrow> e | Inr t' \<Rightarrow> let t'' = apr_table_compress T t' in
       if \<forall>e \<in> set (apr_table_elts T t''). length (snd e) \<le> limit_req_fieldsize lims
       then (HTTP_OK, None, t'') else (HTTP_BAD_REQUEST, Some size_note, t'')) = (HTTP_OK, e, t')"
    using assms by (auto simp: ap_get_mime_headers_core_def)
  show ?thesis
  proof (cases res)
    case (Inl r)
    then show ?thesis using mime_loop_status [OF res(1)] res(2) by (auto simp: HTTP_REQUEST_TIME_OUT_def)
  next
    case (Inr t1)
    then obtain fs where fs: "t1 = add_fields T fs t" "good_fields lims 0 fs" using mime_loop_good [OF res(1)] by auto
    then show ?thesis using res(2) Inr by (intro exI [of _ fs]) (auto simp: good_fields_def Let_def split: if_splits)
  qed
qed

fun next_line :: "string list \<Rightarrow> (apr_status + string) \<times> string list" where
  "next_line [] = (Inl APR_EGENERAL, [])"
| "next_line (l # ls) = (Inr l, ls)"

definition example_limits :: mime_limits where
  "example_limits = \<lparr>limit_req_fields = 100, limit_req_fieldsize = 8190\<rparr>"

theorem header_fields_safe_witness:
  "ap_get_mime_headers_core list_tables True example_limits next_line
     [''A: b '', ''a:c'', [CHR 0x09, CHR ''d''], [], ''x''] [] = Some ((200, None, [(''A'', ''b, c d'')]), [''x'']) \<and>
   (\<exists>fs. list_compress (add_fields list_tables fs []) = [(''A'', ''b, c d'')] \<and> length fs \<le> 100)"
proof -
  have lower: "c_tolower CHR ''A'' = CHR ''a''" "c_tolower CHR ''a'' = CHR ''a''" by code_simp+
  have e: "ap_get_mime_headers_core list_tables True example_limits next_line
     [''A: b '', ''a:c'', [CHR 0x09, CHR ''d''], [], ''x''] [] = Some ((200, None, [(''A'', ''b, c d'')]), [''x''])"
    by (simp add: ap_get_mime_headers_core_def mime_loop.simps mime_line_def Let_def collapse.simps store_field_def
        parse_field_def fold_line_def example_limits_def list_tables_def ap_scan_http_token_def ap_scan_http_field_content_def
        cut_at_def TEST_CHAR_simps cclass has_chr_iff token_chars_def strcaseeq_def str_lower_def lower)
  show ?thesis using e header_fields_safe [OF e] by (auto simp: list_tables_def example_limits_def)
qed


definition folded_field :: sent_field where
  "folded_field = \<lparr>sent_name = ''X'', sent_first = ('' '', [], []), sent_more = [('' '', ''a'', []), ([CHR 0x09], ''b'', '' '')]\<rparr>"


text \<open>In the legacy mode a field whose name has one character is rejected: the test for an empty name also catches it.\<close>

lemma legacy_short_name: "parse_field False ''a:b'' = None" "parse_field True ''a:b'' = Some (''a'', ''b'')"
  by (simp_all add: parse_field_def Let_def c_strchr_def strpbrk_ws_def bad_value_char_def ap_scan_http_token_def
      ap_scan_http_field_content_def cut_at_def TEST_CHAR_simps cclass has_chr_iff token_chars_def)

end
