(* ===== verification/Vhost.thy ===== *)
theory Vhost
  imports Header_Fields Str_Match
begin

text \<open>
  Virtual hosts: \<^verbatim>\<open>server/vhost.c\<close>. \<open>ap_fini_vhost_config\<close> compiles the addresses of the virtual hosts into a hash
  table of chains and a list of wildcard hosts, \<open>ap_update_vhost_given_ip\<close> looks up the address of a new connection, and
  \<open>ap_update_vhost_from_headers\<close> checks the host name of a request and selects the server by name.
  A pointer to a \<open>server_rec\<close> is the record itself; \<open>s\<close> and \<open>last_s\<close> are compared as records. The comparison of socket addresses,
  the parser of host and port and the resolver are functions of APR, and arguments here.
\<close>

unbundle bit_operations_syntax

section \<open>Data\<close>

record sockaddr =
  ipaddr :: "8 word list"
  sa_port :: nat

record server_addr_rec =
  virthost :: string
  host_addr :: sockaddr
  host_port :: nat

record server_rec =
  server_hostname :: "string option"
  names :: "string option list"
  wild_names :: "string option list"
  serverpath :: "string option"
  server_port :: nat
  addrs :: "server_addr_rec list"
  defn_name :: string
  defn_line_number :: nat

type_synonym name_chain = "(server_rec \<times> server_addr_rec) list"

record ipaddr_chain =
  ic_sar :: server_addr_rec
  ic_server :: server_rec
  ic_names :: name_chain
  ic_initialnames :: name_chain

record vhost_tables =
  iphash_table :: "ipaddr_chain list list"
  default_list :: "ipaddr_chain list"

definition IPHASH_TABLE_SIZE :: nat where "IPHASH_TABLE_SIZE = 256"

section \<open>The hash of an address\<close>

definition hash_inaddr :: "32 word \<Rightarrow> nat" where
  "hash_inaddr key =
    (let key = key XOR drop_bit 16 key in unat (drop_bit 8 key XOR key) mod IPHASH_TABLE_SIZE)"

text \<open>Four bytes read as an \<open>unsigned\<close>, the first byte in the lowest position.\<close>

definition read_unsigned :: "8 word list \<Rightarrow> 32 word" where
  "read_unsigned bs = foldr (\<lambda>b k. ucast b OR push_bit 8 k) bs 0"

definition hash_addr :: "sockaddr \<Rightarrow> nat" where
  "hash_addr sa = hash_inaddr (read_unsigned (drop (length (ipaddr sa) - 4) (ipaddr sa)))"

section \<open>Compiling the tables\<close>

definition new_ipaddr_chain :: "server_rec \<Rightarrow> server_addr_rec \<Rightarrow> ipaddr_chain" where
  "new_ipaddr_chain s sar = \<lparr>ic_sar = sar, ic_server = s, ic_names = [], ic_initialnames = []\<rparr>"

text \<open>The loop of both searches: an exact match ends it, the first match of the other kind is remembered.\<close>

fun find_chain :: "(ipaddr_chain \<Rightarrow> bool) \<Rightarrow> (ipaddr_chain \<Rightarrow> bool) \<Rightarrow> nat \<Rightarrow> nat option \<Rightarrow> ipaddr_chain list \<Rightarrow> nat option" where
  "find_chain ex wc i wild_match [] = wild_match"
| "find_chain ex wc i wild_match (trav # ics) =
    (if ex trav then Some i
     else find_chain ex wc (i + 1) (if wild_match = None \<and> wc trav then Some i else wild_match) ics)"

definition find_ipaddr :: "(sockaddr \<Rightarrow> sockaddr \<Rightarrow> bool) \<Rightarrow> vhost_tables \<Rightarrow> sockaddr \<Rightarrow> nat option" where
  "find_ipaddr eq tabs sa =
    find_chain
      (\<lambda>ic. let cur = host_addr (ic_sar ic) in sa_port cur = sa_port sa \<and> eq cur sa)
      (\<lambda>ic. let cur = host_addr (ic_sar ic) in (sa_port cur = 0 \<or> sa_port sa = 0) \<and> eq cur sa)
      0 None (iphash_table tabs ! hash_addr sa)"

definition find_default_server :: "vhost_tables \<Rightarrow> nat \<Rightarrow> nat option" where
  "find_default_server tabs port =
    find_chain (\<lambda>ic. host_port (ic_sar ic) = port) (\<lambda>ic. host_port (ic_sar ic) = 0) 0 None (default_list tabs)"

definition add_name_vhost_config :: "server_rec \<Rightarrow> server_addr_rec \<Rightarrow> ipaddr_chain \<Rightarrow> ipaddr_chain" where
  "add_name_vhost_config s sar ic =
    (let nc = (s, sar); ic' = ic\<lparr>ic_server := s\<rparr> in
     if ic_names ic = [] then
       if ic_initialnames ic = [] then ic'\<lparr>ic_initialnames := [nc]\<rparr>
       else ic'\<lparr>ic_names := nc # ic_initialnames ic, ic_initialnames := []\<rparr>
     else ic'\<lparr>ic_names := nc # ic_names ic\<rparr>)"

definition is_any :: "server_addr_rec \<Rightarrow> bool" where
  "is_any sar \<longleftrightarrow> list_all (\<lambda>b. b = 0) (ipaddr (host_addr sar))"

text \<open>A chain with a name added to the entry at the index, or with a new entry at its head.\<close>

definition chain_add :: "nat option \<Rightarrow> server_rec \<Rightarrow> server_addr_rec \<Rightarrow> ipaddr_chain list \<Rightarrow> ipaddr_chain list" where
  "chain_add found s sar ics =
    (case found of
       Some i \<Rightarrow> ics[i := add_name_vhost_config s sar (ics ! i)]
     | None \<Rightarrow> add_name_vhost_config s sar (new_ipaddr_chain s sar) # ics)"

definition same_port :: "server_addr_rec \<Rightarrow> ipaddr_chain list \<Rightarrow> nat option \<Rightarrow> nat option" where
  "same_port sar ics found =
    (case found of Some i \<Rightarrow> if host_port sar = host_port (ic_sar (ics ! i)) then Some i else None | None \<Rightarrow> None)"

definition add_address ::
  "(sockaddr \<Rightarrow> sockaddr \<Rightarrow> bool) \<Rightarrow> server_rec \<Rightarrow> server_addr_rec option \<Rightarrow> server_addr_rec \<Rightarrow> vhost_tables \<Rightarrow> vhost_tables" where
  "add_address eq s sar_prev sar tabs =
    (if is_any sar then
       let ics = default_list tabs; found = same_port sar ics (find_default_server tabs (host_port sar)) in
       if found \<noteq> None \<and> (case sar_prev of None \<Rightarrow> False | Some p \<Rightarrow> is_any p \<and> host_port p = host_port sar) then tabs
       else tabs\<lparr>default_list := chain_add found s sar ics\<rparr>
     else
       let b = hash_addr (host_addr sar); ics = iphash_table tabs ! b;
           found = same_port sar ics (find_ipaddr eq tabs (host_addr sar)) in
       tabs\<lparr>iphash_table := (iphash_table tabs)[b := chain_add found s sar ics]\<rparr>)"

fun add_addresses ::
  "(sockaddr \<Rightarrow> sockaddr \<Rightarrow> bool) \<Rightarrow> server_rec \<Rightarrow> server_addr_rec option \<Rightarrow> server_addr_rec list \<Rightarrow> vhost_tables \<Rightarrow> vhost_tables" where
  "add_addresses eq s sar_prev [] tabs = tabs"
| "add_addresses eq s sar_prev (sar # sars) tabs = add_addresses eq s (Some sar) sars (add_address eq s sar_prev sar tabs)"

definition ap_init_vhost_config :: vhost_tables where
  "ap_init_vhost_config = \<lparr>iphash_table = replicate IPHASH_TABLE_SIZE [], default_list = []\<rparr>"

text \<open>The name of a server without \<open>ServerName\<close>. It is set after its addresses are in the tables, which hold
  pointers to the server, and no step of the compilation reads it.\<close>

definition default_server_name :: "(sockaddr \<Rightarrow> string option) \<Rightarrow> string \<Rightarrow> server_rec \<Rightarrow> server_rec" where
  "default_server_name apr_getnameinfo main_name s =
    (if server_hostname s \<noteq> None then s
     else if list_ex is_any (addrs s) then s\<lparr>server_hostname := Some main_name\<rparr>
     else case addrs s of
         [] \<Rightarrow> s\<lparr>server_hostname := Some ''bogus_host_without_forward_dns''\<rparr>
       | sar # _ \<Rightarrow> s\<lparr>server_hostname := Some (case apr_getnameinfo (host_addr sar) of
             Some h \<Rightarrow> h | None \<Rightarrow> ''bogus_host_without_reverse_dns'')\<rparr>)"

text \<open>The servers come in the order of \<open>main_s->next\<close>, the reverse of their order in the configuration.\<close>

definition ap_fini_vhost_config ::
  "(sockaddr \<Rightarrow> sockaddr \<Rightarrow> bool) \<Rightarrow> (sockaddr \<Rightarrow> string option) \<Rightarrow> string \<Rightarrow> server_rec list \<Rightarrow> vhost_tables" where
  "ap_fini_vhost_config eq apr_getnameinfo main_name servers =
    fold (\<lambda>s tabs. add_addresses eq s None (addrs s) tabs)
      (map (default_server_name apr_getnameinfo main_name) servers) ap_init_vhost_config"

section \<open>A connection\<close>

record conn =
  base_server :: server_rec
  vhost_lookup_data :: name_chain
  local_addr :: sockaddr

definition ap_update_vhost_given_ip :: "(sockaddr \<Rightarrow> sockaddr \<Rightarrow> bool) \<Rightarrow> vhost_tables \<Rightarrow> conn \<Rightarrow> conn" where
  "ap_update_vhost_given_ip eq tabs c =
    (case find_ipaddr eq tabs (local_addr c) of
       Some i \<Rightarrow> (let trav = iphash_table tabs ! hash_addr (local_addr c) ! i in
         c\<lparr>vhost_lookup_data := ic_names trav, base_server := ic_server trav\<rparr>)
     | None \<Rightarrow>
         (case find_default_server tabs (sa_port (local_addr c)) of
            Some i \<Rightarrow> (let trav = default_list tabs ! i in
              c\<lparr>vhost_lookup_data := ic_names trav, base_server := ic_server trav\<rparr>)
          | None \<Rightarrow> c\<lparr>vhost_lookup_data := []\<rparr>))"

section \<open>The host name of a request\<close>

text \<open>The loops over the characters of the host; \<open>None\<close> is \<open>APR_EINVAL\<close>.\<close>

fun fix_v6_loop :: "bool \<Rightarrow> string \<Rightarrow> string option" where
  "fix_v6_loop double_colon [] = Some []"
| "fix_v6_loop double_colon (c # s) =
    (if c_isxdigit c then map_option ((#) (if c_isupper c then c_tolower c else c)) (fix_v6_loop double_colon s)
     else if c = CHR '':'' then
       if peek s = CHR '':'' then
         if double_colon then None else map_option ((#) c) (fix_v6_loop True s)
       else if peek s = CHR ''.'' then None else map_option ((#) c) (fix_v6_loop double_colon s)
     else if c = CHR ''.'' then
       if peek s = CHR '':'' \<or> peek s = CHR ''.'' then None else map_option ((#) c) (fix_v6_loop double_colon s)
     else None)"

definition fix_hostname_v6_literal :: "string \<Rightarrow> string option" where
  "fix_hostname_v6_literal host = fix_v6_loop False host"

fun fix_non_v6_loop :: "string \<Rightarrow> string option" where
  "fix_non_v6_loop [] = Some []"
| "fix_non_v6_loop (c # s) =
    (if c_islower c then map_option ((#) c) (fix_non_v6_loop s)
     else if c = CHR ''.'' then
       if peek s = CHR ''.'' then None else map_option ((#) c) (fix_non_v6_loop s)
     else if c_isupper c then map_option ((#) (c_tolower c)) (fix_non_v6_loop s)
     else if c = CHR ''/'' \<or> c = CHR 0x5C then None
     else map_option ((#) c) (fix_non_v6_loop s))"

definition fix_hostname_non_v6 :: "string \<Rightarrow> string option" where
  "fix_hostname_non_v6 host =
    map_option (\<lambda>h. if h \<noteq> [] \<and> last h = CHR ''.'' then butlast h else h) (fix_non_v6_loop host)"

fun strict_scan :: "bool \<Rightarrow> bool \<Rightarrow> nat \<Rightarrow> string \<Rightarrow> (bool \<times> bool \<times> nat) option" where
  "strict_scan is_dotted_decimal leading_zeroes dots [] = Some (is_dotted_decimal, leading_zeroes, dots)"
| "strict_scan is_dotted_decimal leading_zeroes dots (c # s) =
    (if \<not> c_isascii c then None
     else if c_isalpha c \<or> c = CHR ''-'' then strict_scan False leading_zeroes dots s
     else if c = CHR ''.'' then
       strict_scan is_dotted_decimal (leading_zeroes \<or> peek s = CHR ''0'' \<and> c_isdigit (at s 1)) (dots + 1) s
     else if \<not> c_isdigit c then None
     else strict_scan is_dotted_decimal leading_zeroes dots s)"

text \<open>\<open>True\<close> is \<open>APR_SUCCESS\<close>.\<close>

definition strict_hostname_check :: "string \<Rightarrow> bool" where
  "strict_hostname_check host =
    (case strict_scan True False 0 host of
       None \<Rightarrow> False
     | Some (is_dotted_decimal, leading_zeroes, dots) \<Rightarrow>
         if is_dotted_decimal then
           \<not> (leading_zeroes \<or> peek host = CHR ''.'' \<or> (peek host = CHR ''0'' \<and> c_isdigit (at host 1)) \<or> dots \<noteq> 3)
         else
           (case c_strrchr host CHR ''.'' of
              None \<Rightarrow> True
            | Some i \<Rightarrow> \<not> (at host (i + 1) \<noteq> NUL \<and> \<not> c_isalpha (at host (i + 1)))))"

text \<open>A request with the parts of \<open>request_rec\<close> that this module reads and changes.\<close>

record 't vhost_request = request +
  headers_in :: 't
  server :: server_rec
  port :: nat
  port_str :: "string option"

text \<open>\<open>apr_parse_addr_port\<close>: the host, the scope and the port, which is 0 if there is none; \<open>None\<close> is an error.\<close>

type_synonym parse_addr_port = "string \<Rightarrow> (string \<times> string option \<times> nat) option"

definition check_host :: "bool \<Rightarrow> bool \<Rightarrow> string \<Rightarrow> string option" where
  "check_host st is_v6literal host =
    (if is_v6literal then fix_hostname_v6_literal host
     else case fix_hostname_non_v6 host of
         None \<Rightarrow> None
       | Some h \<Rightarrow> if st \<and> \<not> strict_hostname_check h then None else Some h)"

text \<open>\<open>apr_itoa\<close> of a port.\<close>

fun itoa :: "nat \<Rightarrow> string" where
  "itoa n = (if n < 10 then [char_of (48 + n)] else itoa (n div 10) @ [char_of (48 + n mod 10)])"

declare itoa.simps [simp del]

definition fix_hostname ::
  "parse_addr_port \<Rightarrow> bool \<Rightarrow> string option \<Rightarrow> 't vhost_request \<Rightarrow> bool \<times> 't vhost_request" where
  "fix_hostname apr_parse_addr_port st host_header r =
    (let src = (case host_header of Some h \<Rightarrow> h | None \<Rightarrow> (case hostname r of Some h \<Rightarrow> h | None \<Rightarrow> []));
         bad = r\<lparr>status := HTTP_BAD_REQUEST\<rparr> in
     if src = [] then (False, r)
     else if list_all c_isdigit src then
       if st then (False, bad) else (False, r\<lparr>hostname := Some src\<rparr>)
     else case host_header of
         Some h \<Rightarrow>
           (case apr_parse_addr_port src of
              None \<Rightarrow> (False, bad)
            | Some (host, scope_id, prt) \<Rightarrow>
                if scope_id \<noteq> None then (False, bad)
                else
                  let r' = (if prt \<noteq> 0 then r\<lparr>port := prt, port_str := Some (itoa prt)\<rparr> else r);
                      v6 = (peek h = CHR ''['') in
                  (case check_host st v6 host of
                     None \<Rightarrow> (v6, r'\<lparr>status := HTTP_BAD_REQUEST\<rparr>)
                   | Some h' \<Rightarrow> (v6, r'\<lparr>hostname := Some h'\<rparr>)))
       | None \<Rightarrow>
           (let v6 = (CHR '':'' \<in> set src) in
            case check_host st v6 src of
              None \<Rightarrow> (v6, bad)
            | Some h' \<Rightarrow> (v6, r\<lparr>hostname := Some h'\<rparr>)))"

section \<open>The server of a request\<close>

text \<open>After the tables are compiled every server has a name.\<close>

definition matches_aliases :: "server_rec \<Rightarrow> string \<Rightarrow> bool" where
  "matches_aliases s host \<longleftrightarrow>
    (case server_hostname s of None \<Rightarrow> False | Some n \<Rightarrow> strcaseeq host n) \<or>
    list_ex (\<lambda>n. case n of None \<Rightarrow> False | Some n \<Rightarrow> strcaseeq host n) (names s) \<or>
    list_ex (\<lambda>n. case n of None \<Rightarrow> False | Some n \<Rightarrow> ap_strcasecmp_match host n = 0) (wild_names s)"

definition ap_matches_request_vhost :: "server_rec \<Rightarrow> string \<Rightarrow> nat \<Rightarrow> bool" where
  "ap_matches_request_vhost s host prt =
    (if list_ex (\<lambda>sar. (host_port sar = 0 \<or> prt = host_port sar) \<and> strcaseeq host (virthost sar)) (addrs s) then True
     else if prt \<noteq> server_port s then False
     else matches_aliases s host)"

fun hostalias_loop ::
  "string \<Rightarrow> nat \<Rightarrow> server_rec option \<Rightarrow> server_rec option \<Rightarrow> name_chain \<Rightarrow> server_rec option" where
  "hostalias_loop host prt last_s virthost_s [] = virthost_s"
| "hostalias_loop host prt last_s virthost_s ((s, sar) # src) =
    (if host_port sar \<noteq> 0 \<and> prt \<noteq> host_port sar then hostalias_loop host prt last_s virthost_s src
     else if Some s \<noteq> last_s \<and> matches_aliases s host then Some s
     else hostalias_loop host prt (Some s)
       (if strcaseeq host (virthost sar) \<and> virthost_s = None then Some s else virthost_s) src)"

definition check_hostalias :: "conn \<Rightarrow> string \<Rightarrow> 't vhost_request \<Rightarrow> 't vhost_request" where
  "check_hostalias c host r =
    (case hostalias_loop host (sa_port (local_addr c)) None None (vhost_lookup_data c) of
       None \<Rightarrow> r | Some s \<Rightarrow> r\<lparr>server := s\<rparr>)"

text \<open>For an empty \<open>ServerPath\<close> the code also looks at the byte before it, which the model leaves out.\<close>

definition serverpath_matches :: "string \<Rightarrow> server_rec \<Rightarrow> bool" where
  "serverpath_matches u s \<longleftrightarrow>
    (case serverpath s of
       None \<Rightarrow> False
     | Some p \<Rightarrow> take (length p) u = p \<and>
         (p \<noteq> [] \<and> last p = CHR ''/'' \<or> at u (length p) = CHR ''/'' \<or> at u (length p) = NUL))"

fun serverpath_loop :: "string \<Rightarrow> nat \<Rightarrow> server_rec option \<Rightarrow> name_chain \<Rightarrow> server_rec option" where
  "serverpath_loop u prt last_s [] = None"
| "serverpath_loop u prt last_s ((s, sar) # src) =
    (if host_port sar \<noteq> 0 \<and> prt \<noteq> host_port sar then serverpath_loop u prt last_s src
     else if Some s = last_s then serverpath_loop u prt last_s src
     else if serverpath_matches u s then Some s
     else serverpath_loop u prt (Some s) src)"

definition check_serverpath :: "conn \<Rightarrow> 't vhost_request \<Rightarrow> 't vhost_request" where
  "check_serverpath c r =
    (case serverpath_loop (uri r) (sa_port (local_addr c)) None (vhost_lookup_data c) of
       None \<Rightarrow> r | Some s \<Rightarrow> r\<lparr>server := s\<rparr>)"

definition construct_host_header :: "'t vhost_request \<Rightarrow> bool \<Rightarrow> string" where
  "construct_host_header r is_v6literal =
    (let h = (case hostname r of None \<Rightarrow> [] | Some h \<Rightarrow> h) in
     (if is_v6literal then ''['' @ h @ '']'' else h) @ (case port_str r of None \<Rightarrow> [] | Some p \<Rightarrow> '':'' @ p))"

definition ap_update_vhost_from_headers ::
  "'t table_ops \<Rightarrow> parse_addr_port \<Rightarrow> bool \<Rightarrow> conn \<Rightarrow> 't vhost_request \<Rightarrow> 't vhost_request" where
  "ap_update_vhost_from_headers T apr_parse_addr_port st c r =
    (let host_header = apr_table_get T (headers_in r) ''Host'';
         from_url = (hostname r \<noteq> None);
         (v6, r1) = (if from_url then fix_hostname apr_parse_addr_port st None r
                     else if host_header \<noteq> None then fix_hostname apr_parse_addr_port st host_header r
                     else (False, r)) in
     if status r1 \<noteq> HTTP_OK then r1
     else
       let r2 = (if st \<and> from_url \<and> host_header \<noteq> None
                 then r1\<lparr>headers_in := apr_table_set T (headers_in r1) ''Host'' (construct_host_header r1 v6)\<rparr> else r1) in
       if vhost_lookup_data c = [] then r2
       else case hostname r2 of
           Some h \<Rightarrow> check_hostalias c h r2
         | None \<Rightarrow> check_serverpath c r2)"

text \<open>A callback for every server of a connection, with the state it changes; a result other than 0 ends the loop.\<close>

fun iterate_loop :: "(server_rec \<Rightarrow> 'b \<Rightarrow> int \<times> 'b) \<Rightarrow> nat \<Rightarrow> server_rec option \<Rightarrow> name_chain \<Rightarrow> 'b \<Rightarrow> int \<times> 'b" where
  "iterate_loop func_cb prt last_s [] baton = (0, baton)"
| "iterate_loop func_cb prt last_s ((s, sar) # src) baton =
    (if host_port sar \<noteq> 0 \<and> prt \<noteq> host_port sar then iterate_loop func_cb prt last_s src baton
     else if Some s = last_s then iterate_loop func_cb prt last_s src baton
     else case func_cb s baton of
         (rv, baton') \<Rightarrow> if rv \<noteq> 0 then (rv, baton') else iterate_loop func_cb prt (Some s) src baton')"

definition ap_vhost_iterate_given_conn :: "conn \<Rightarrow> (server_rec \<Rightarrow> 'b \<Rightarrow> int \<times> 'b) \<Rightarrow> 'b \<Rightarrow> int \<times> 'b" where
  "ap_vhost_iterate_given_conn c func_cb baton =
    (if vhost_lookup_data c \<noteq> [] then iterate_loop func_cb (sa_port (local_addr c)) None (vhost_lookup_data c) baton
     else func_cb (base_server c) baton)"

section \<open>The hash does not depend on the order of bytes\<close>

lemma hash_bits:
  "hash_inaddr (read_unsigned [a, b, c, d]) = unat (a XOR b XOR c XOR d)"
proof -
  define k where "k = read_unsigned [a, b, c, d]"
  define h where "h = k XOR drop_bit 16 k"
  have small: "bit (x :: 8 word) i \<Longrightarrow> i < 8" for x i using bit_imp_le_length [of x i] by simp
  have k: "bit k i = (if i < 8 then bit a i else if i < 16 then bit b (i - 8) else if i < 24 then bit c (i - 16)
      else i < 32 \<and> bit d (i - 24))" for i
    by (auto simp: k_def read_unsigned_def bit_simps dest: small)
  have "bit (take_bit 8 (drop_bit 8 h XOR h)) i = bit (ucast (a XOR b XOR c XOR d) :: 32 word) i" for i
    by (auto simp: h_def bit_simps k dest: small)
  then have "take_bit 8 (drop_bit 8 h XOR h) = ucast (a XOR b XOR c XOR d)" by (rule bit_eqI)
  then have "unat (take_bit 8 (drop_bit 8 h XOR h)) = unat (a XOR b XOR c XOR d)"
  proof -
    have "unat (a XOR b XOR c XOR d) < 2 ^ 32" using unsigned_less [of "a XOR b XOR c XOR d", where 'a = nat] by simp
    then show ?thesis using \<open>take_bit 8 _ = _\<close> by (simp add: unsigned_ucast_eq take_bit_nat_eq_self)
  qed
  moreover have "unat (take_bit 8 (drop_bit 8 h XOR h)) = unat (drop_bit 8 h XOR h) mod 256"
    by (subst unsigned_take_bit_eq) (simp add: take_bit_nat_def)
  ultimately show ?thesis by (simp add: hash_inaddr_def Let_def IPHASH_TABLE_SIZE_def flip: k_def h_def)
qed

lemma hash_byte_order: "length bs = 4 \<Longrightarrow> hash_inaddr (read_unsigned (rev bs)) = hash_inaddr (read_unsigned bs)"
  by (auto simp: numeral_eq_Suc length_Suc_conv hash_bits ac_simps)

section \<open>What the chains hold\<close>

text \<open>An entry of a chain made from the addresses \<open>es\<close>, the last one added first.\<close>

definition ic_for :: "name_chain \<Rightarrow> ipaddr_chain \<Rightarrow> bool" where
  "ic_for es ic \<longleftrightarrow>
    es \<noteq> [] \<and> ic_sar ic = snd (last es) \<and> ic_server ic = fst (hd es) \<and>
    (if length es = 1 then ic_names ic = [] \<and> ic_initialnames ic = es else ic_names ic = es \<and> ic_initialnames ic = [])"

lemma ic_for_new: "ic_for [(s, sar)] (add_name_vhost_config s sar (new_ipaddr_chain s sar))"
  by (simp add: ic_for_def add_name_vhost_config_def new_ipaddr_chain_def Let_def)

lemma ic_for_add: "ic_for es ic \<Longrightarrow> ic_for ((s, sar) # es) (add_name_vhost_config s sar ic)"
  by (auto simp: ic_for_def add_name_vhost_config_def Let_def split: if_splits)

lemma ic_sar_add [simp]: "ic_sar (add_name_vhost_config s sar ic) = ic_sar ic" "ic_sar (new_ipaddr_chain s sar) = sar"
  by (simp_all add: add_name_vhost_config_def new_ipaddr_chain_def Let_def)

text \<open>A chain has one entry for every class of equivalent addresses among those added.\<close>

definition group :: "(server_addr_rec \<Rightarrow> server_addr_rec \<Rightarrow> bool) \<Rightarrow> server_addr_rec \<Rightarrow> name_chain \<Rightarrow> name_chain" where
  "group same sar es = filter (\<lambda>e. same (snd e) sar) es"

definition chain_inv :: "(server_addr_rec \<Rightarrow> server_addr_rec \<Rightarrow> bool) \<Rightarrow> name_chain \<Rightarrow> ipaddr_chain list \<Rightarrow> bool" where
  "chain_inv same es ics \<longleftrightarrow>
    (\<forall>i<length ics. ic_for (group same (ic_sar (ics ! i)) es) (ics ! i)) \<and>
    (\<forall>i<length ics. \<forall>j<length ics. same (ic_sar (ics ! i)) (ic_sar (ics ! j)) \<longrightarrow> i = j) \<and>
    (\<forall>e\<in>set es. \<exists>i<length ics. same (snd e) (ic_sar (ics ! i)))"

lemma chain_inv_Nil: "chain_inv same [] []"
  by (simp add: chain_inv_def)

lemma chain_inv_update:
  assumes "equivp same" and inv: "chain_inv same es ics" and i: "i < length ics" "same sar (ic_sar (ics ! i))"
  shows "chain_inv same ((s, sar) # es) (ics[i := add_name_vhost_config s sar (ics ! i)])"
proof -
  let ?ics = "ics[i := add_name_vhost_config s sar (ics ! i)]"
  have sar: "ic_sar (?ics ! j) = ic_sar (ics ! j)" if "j < length ics" for j
    using that by (cases "j = i") simp_all
  have "ic_for (group same (ic_sar (?ics ! j)) ((s, sar) # es)) (?ics ! j)" if j: "j < length ics" for j
  proof (cases "j = i")
    case True
    then show ?thesis using inv i ic_for_add by (simp add: chain_inv_def group_def)
  next
    case False
    have "\<not> same sar (ic_sar (ics ! j))"
      using False inv i j equivp_symp [OF assms(1)] equivp_transp [OF assms(1)] unfolding chain_inv_def by metis
    then show ?thesis using False inv j by (simp add: chain_inv_def group_def)
  qed
  moreover have "i' = j" if "i' < length ics" "j < length ics" "same (ic_sar (?ics ! i')) (ic_sar (?ics ! j))" for i' j
    using that inv by (simp add: sar chain_inv_def)
  moreover have "\<exists>i<length ics. same (snd e) (ic_sar (?ics ! i))" if "e \<in> set ((s, sar) # es)" for e
    using that inv i sar unfolding chain_inv_def by (metis set_ConsD snd_conv)
  ultimately show ?thesis unfolding chain_inv_def by simp
qed

lemma chain_inv_new:
  assumes "equivp same" and inv: "chain_inv same es ics" and new: "\<And>i. i < length ics \<Longrightarrow> \<not> same sar (ic_sar (ics ! i))"
  shows "chain_inv same ((s, sar) # es) (add_name_vhost_config s sar (new_ipaddr_chain s sar) # ics)"
proof -
  let ?ic = "add_name_vhost_config s sar (new_ipaddr_chain s sar)"
  have sym: "same a b \<Longrightarrow> same b a" for a b using equivp_symp [OF assms(1)] .
  have "group same sar es = []"
  proof (rule ccontr)
    assume "group same sar es \<noteq> []"
    then obtain e where e: "e \<in> set es" "same (snd e) sar" by (auto simp: group_def filter_empty_conv)
    then obtain i where "i < length ics" "same (snd e) (ic_sar (ics ! i))" using inv unfolding chain_inv_def by blast
    then show False using new e(2) sym equivp_transp [OF assms(1)] by metis
  qed
  then have head: "ic_for (group same sar ((s, sar) # es)) ?ic"
    using ic_for_new equivp_reflp [OF assms(1)] by (simp add: group_def)
  have "ic_for (group same (ic_sar ((?ic # ics) ! i)) ((s, sar) # es)) ((?ic # ics) ! i)" if "i < Suc (length ics)" for i
  proof (cases i)
    case 0
    then show ?thesis using head by simp
  next
    case (Suc j)
    then show ?thesis using inv new that by (simp add: chain_inv_def group_def)
  qed
  moreover have "i = j" if "i < Suc (length ics)" "j < Suc (length ics)"
    "same (ic_sar ((?ic # ics) ! i)) (ic_sar ((?ic # ics) ! j))" for i j
    using that inv new sym by (cases i; cases j) (auto simp: chain_inv_def)
  moreover have "\<exists>i<Suc (length ics). same (snd e) (ic_sar ((?ic # ics) ! i))" if "e \<in> set ((s, sar) # es)" for e
  proof (cases "e = (s, sar)")
    case True
    then show ?thesis using equivp_reflp [OF assms(1)] by (intro exI [of _ 0]) simp
  next
    case False
    then have "e \<in> set es" using that by simp
    then obtain i where "i < length ics" "same (snd e) (ic_sar (ics ! i))" using inv unfolding chain_inv_def by blast
    then show ?thesis by (intro exI [of _ "Suc i"]) simp
  qed
  ultimately show ?thesis unfolding chain_inv_def by simp
qed

lemma chain_inv_add:
  assumes "equivp same" and "chain_inv same es ics"
    and "case found of Some i \<Rightarrow> i < length ics \<and> same sar (ic_sar (ics ! i)) | None \<Rightarrow> \<forall>i<length ics. \<not> same sar (ic_sar (ics ! i))"
  shows "chain_inv same ((s, sar) # es) (chain_add found s sar ics)"
  using assms chain_inv_update chain_inv_new by (auto simp: chain_add_def split: option.splits)

text \<open>What a search returns.\<close>

lemma find_chain_spec:
  "(\<exists>k<length ics. ex (ics ! k) \<and> find_chain ex wc i w ics = Some (i + k)) \<or>
   (\<forall>k<length ics. \<not> ex (ics ! k)) \<and>
     (case w of Some j \<Rightarrow> find_chain ex wc i w ics = Some j
      | None \<Rightarrow> (\<exists>k<length ics. wc (ics ! k) \<and> find_chain ex wc i w ics = Some (i + k)) \<or>
                (\<forall>k<length ics. \<not> wc (ics ! k)) \<and> find_chain ex wc i w ics = None)"
proof (induction ics arbitrary: i w)
  case (Cons ic ics)
  show ?case
  proof (cases "ex ic")
    case True
    then show ?thesis by auto
  next
    case False
    let ?w = "if w = None \<and> wc ic then Some i else w"
    have f: "find_chain ex wc i w (ic # ics) = find_chain ex wc (i + 1) ?w ics" using False by simp
    show ?thesis
      using Cons.IH [of "i + 1" ?w] False unfolding f length_Cons All_less_Suc2 Ex_less_Suc2
      by (cases w; cases "wc ic") auto
  qed
qed (simp split: option.split)

lemma find_chain_cases:
  obtains (exact) k where "k < length ics" "ex (ics ! k)" "find_chain ex wc 0 None ics = Some k"
    | (remembered) k where "\<forall>i<length ics. \<not> ex (ics ! i)" "k < length ics" "wc (ics ! k)" "find_chain ex wc 0 None ics = Some k"
    | (none) "\<forall>i<length ics. \<not> ex (ics ! i)" "\<forall>i<length ics. \<not> wc (ics ! i)" "find_chain ex wc 0 None ics = None"
  using find_chain_spec [of ics ex wc 0 None] by auto

section \<open>What the tables hold\<close>

text \<open>What the code relies on of \<open>apr_sockaddr_equal\<close>: equivalent addresses, an IPv4 address and the IPv6 address it is mapped to
  included, agree in their last four bytes.\<close>

definition addr_equal :: "(sockaddr \<Rightarrow> sockaddr \<Rightarrow> bool) \<Rightarrow> bool" where
  "addr_equal eq \<longleftrightarrow> equivp eq \<and>
    (\<forall>a b. eq a b \<longrightarrow> drop (length (ipaddr a) - 4) (ipaddr a) = drop (length (ipaddr b) - 4) (ipaddr b))"

text \<open>The port of an address is also in its \<open>sockaddr\<close>, as \<open>get_addresses\<close> makes them.\<close>

definition sar_ok :: "server_addr_rec \<Rightarrow> bool" where
  "sar_ok sar \<longleftrightarrow> sa_port (host_addr sar) = host_port sar"

definition same_addr :: "(sockaddr \<Rightarrow> sockaddr \<Rightarrow> bool) \<Rightarrow> server_addr_rec \<Rightarrow> server_addr_rec \<Rightarrow> bool" where
  "same_addr eq a b \<longleftrightarrow> eq (host_addr a) (host_addr b) \<and> host_port a = host_port b"

definition port_equal :: "server_addr_rec \<Rightarrow> server_addr_rec \<Rightarrow> bool" where
  "port_equal a b \<longleftrightarrow> host_port a = host_port b"

lemma equivp_same: "addr_equal eq \<Longrightarrow> equivp (same_addr eq)" "equivp port_equal"
  unfolding addr_equal_def equivp_reflp_symp_transp reflp_def symp_def transp_def same_addr_def port_equal_def by metis+

lemma equal_hash: "addr_equal eq \<Longrightarrow> eq a b \<Longrightarrow> hash_addr a = hash_addr b"
  unfolding addr_equal_def hash_addr_def by metis

definition in_bucket :: "nat \<Rightarrow> name_chain \<Rightarrow> name_chain" where
  "in_bucket b es = filter (\<lambda>e. hash_addr (host_addr (snd e)) = b) es"

definition tables_inv :: "(sockaddr \<Rightarrow> sockaddr \<Rightarrow> bool) \<Rightarrow> name_chain \<Rightarrow> name_chain \<Rightarrow> vhost_tables \<Rightarrow> bool" where
  "tables_inv eq hs ds tabs \<longleftrightarrow>
    length (iphash_table tabs) = IPHASH_TABLE_SIZE \<and>
    (\<forall>b<IPHASH_TABLE_SIZE. chain_inv (same_addr eq) (in_bucket b hs) (iphash_table tabs ! b)) \<and>
    chain_inv port_equal ds (default_list tabs) \<and> (\<forall>e \<in> set (hs @ ds). sar_ok (snd e))"

lemma hash_addr_less: "hash_addr sa < IPHASH_TABLE_SIZE"
  by (simp add: hash_addr_def hash_inaddr_def Let_def IPHASH_TABLE_SIZE_def)

lemma chain_sar_mem: "chain_inv same es ics \<Longrightarrow> i < length ics \<Longrightarrow> \<exists>s. (s, ic_sar (ics ! i)) \<in> set es"
proof -
  assume "chain_inv same es ics" "i < length ics"
  then have "ic_for (group same (ic_sar (ics ! i)) es) (ics ! i)" by (simp add: chain_inv_def)
  then have "last (group same (ic_sar (ics ! i)) es) \<in> set es" "ic_sar (ics ! i) = snd (last (group same (ic_sar (ics ! i)) es))"
    unfolding ic_for_def group_def using last_in_set [of "filter (\<lambda>e. same (snd e) (ic_sar (ics ! i))) es"] by auto
  then show ?thesis by (metis prod.collapse)
qed

text \<open>A search for the address that is added finds the entry of its class, if there is one.\<close>

lemma same_port_addr:
  assumes "addr_equal eq" and inv: "chain_inv (same_addr eq) es ics" and ok: "\<forall>e \<in> set es. sar_ok (snd e)" "sar_ok sar"
    and f: "fd = find_chain
      (\<lambda>ic. let cur = host_addr (ic_sar ic) in sa_port cur = sa_port (host_addr sar) \<and> eq cur (host_addr sar))
      (\<lambda>ic. let cur = host_addr (ic_sar ic) in (sa_port cur = 0 \<or> sa_port (host_addr sar) = 0) \<and> eq cur (host_addr sar))
      0 None ics"
  shows "case same_port sar ics fd of Some i \<Rightarrow> i < length ics \<and> same_addr eq sar (ic_sar (ics ! i))
    | None \<Rightarrow> \<forall>i<length ics. \<not> same_addr eq sar (ic_sar (ics ! i))"
proof -
  have port: "sa_port (host_addr (ic_sar (ics ! i))) = host_port (ic_sar (ics ! i))" if "i < length ics" for i
    using chain_sar_mem [OF inv that] ok(1) by (auto simp: sar_ok_def)
  have sym: "eq a b \<longleftrightarrow> eq b a" for a b using assms(1) unfolding addr_equal_def by (meson equivp_symp)
  define ex where "ex = (\<lambda>ic :: ipaddr_chain. let cur = host_addr (ic_sar ic) in sa_port cur = sa_port (host_addr sar) \<and> eq cur (host_addr sar))"
  define wc where "wc = (\<lambda>ic :: ipaddr_chain. let cur = host_addr (ic_sar ic) in (sa_port cur = 0 \<or> sa_port (host_addr sar) = 0) \<and> eq cur (host_addr sar))"
  have exact: "ex (ics ! i) \<longleftrightarrow> same_addr eq sar (ic_sar (ics ! i))" if "i < length ics" for i
    using port [OF that] ok(2) sym by (auto simp: ex_def Let_def same_addr_def sar_ok_def)
  have fd: "fd = find_chain ex wc 0 None ics" by (simp add: f ex_def wc_def)
  show ?thesis
  proof (cases rule: find_chain_cases [of ics ex wc])
    case (exact k)
    then show ?thesis using \<open>\<And>i. i < length ics \<Longrightarrow> ex (ics ! i) \<longleftrightarrow> _\<close> by (simp add: fd same_port_def same_addr_def)
  next
    case (remembered k)
    have no: "\<forall>i<length ics. \<not> same_addr eq sar (ic_sar (ics ! i))" using remembered(1) exact by blast
    have "eq (host_addr sar) (host_addr (ic_sar (ics ! k)))" using remembered(3) sym unfolding wc_def Let_def by blast
    then have "host_port sar \<noteq> host_port (ic_sar (ics ! k))" using no remembered(2) by (auto simp: same_addr_def)
    then show ?thesis using no remembered(4) by (simp add: fd same_port_def)
  next
    case none
    then show ?thesis using exact by (simp add: fd same_port_def)
  qed
qed

lemma same_port_default:
  assumes f: "fd = find_chain (\<lambda>ic. host_port (ic_sar ic) = host_port sar) (\<lambda>ic. host_port (ic_sar ic) = 0) 0 None ics"
  shows "case same_port sar ics fd of Some i \<Rightarrow> i < length ics \<and> port_equal sar (ic_sar (ics ! i))
    | None \<Rightarrow> \<forall>i<length ics. \<not> port_equal sar (ic_sar (ics ! i))"
proof (cases rule: find_chain_cases [of ics "\<lambda>ic. host_port (ic_sar ic) = host_port sar" "\<lambda>ic. host_port (ic_sar ic) = 0"])
  case (exact k)
  then show ?thesis by (simp add: f same_port_def port_equal_def)
next
  case (remembered k)
  then have "\<forall>i<length ics. \<not> port_equal sar (ic_sar (ics ! i))" "host_port sar \<noteq> host_port (ic_sar (ics ! k))"
    by (metis port_equal_def)+
  then show ?thesis using remembered(4) by (simp add: f same_port_def)
next
  case none
  then have "\<forall>i<length ics. \<not> port_equal sar (ic_sar (ics ! i))" by (metis port_equal_def)
  then show ?thesis using none(3) by (simp add: f same_port_def)
qed

text \<open>A wildcard address is left out if the address before it, of the same server, was also one with the same port.\<close>

definition repeated :: "server_addr_rec option \<Rightarrow> server_addr_rec \<Rightarrow> bool" where
  "repeated sar_prev sar \<longleftrightarrow> (case sar_prev of None \<Rightarrow> False | Some p \<Rightarrow> is_any p \<and> host_port p = host_port sar)"

lemma add_address_hash:
  assumes "addr_equal eq" and inv: "tables_inv eq hs ds tabs" and "sar_ok sar" and "\<not> is_any sar"
  shows "tables_inv eq ((s, sar) # hs) ds (add_address eq s sar_prev sar tabs)"
proof -
  let ?b = "hash_addr (host_addr sar)" and ?t = "iphash_table tabs"
  let ?f = "same_port sar (?t ! ?b) (find_ipaddr eq tabs (host_addr sar))"
  have b: "?b < length ?t" using inv hash_addr_less by (simp add: tables_inv_def)
  have c: "chain_inv (same_addr eq) (in_bucket ?b hs) (?t ! ?b)" using inv hash_addr_less by (simp add: tables_inv_def)
  have "\<forall>e \<in> set (in_bucket ?b hs). sar_ok (snd e)" using inv by (auto simp: tables_inv_def in_bucket_def)
  then have "chain_inv (same_addr eq) ((s, sar) # in_bucket ?b hs) (chain_add ?f s sar (?t ! ?b))"
    using assms(3) by (intro chain_inv_add equivp_same(1) [OF assms(1)] c same_port_addr [OF assms(1) c]) (simp_all add: find_ipaddr_def)
  then have "chain_inv (same_addr eq) (in_bucket b' ((s, sar) # hs)) (?t[?b := chain_add ?f s sar (?t ! ?b)] ! b')"
    if "b' < IPHASH_TABLE_SIZE" for b'
    using that inv b by (cases "b' = ?b") (simp_all add: in_bucket_def tables_inv_def)
  then show ?thesis using inv assms(3,4) by (simp add: tables_inv_def add_address_def Let_def)
qed

lemma add_address_any:
  assumes inv: "tables_inv eq hs ds tabs" and "sar_ok sar" and "is_any sar"
    and prev: "repeated sar_prev sar \<longrightarrow> (\<exists>e \<in> set ds. host_port (snd e) = host_port sar)"
  shows "tables_inv eq hs (if repeated sar_prev sar then ds else (s, sar) # ds) (add_address eq s sar_prev sar tabs)"
proof -
  let ?f = "same_port sar (default_list tabs) (find_default_server tabs (host_port sar))"
  have f: "case ?f of Some i \<Rightarrow> i < length (default_list tabs) \<and> port_equal sar (ic_sar (default_list tabs ! i))
      | None \<Rightarrow> \<forall>i<length (default_list tabs). \<not> port_equal sar (ic_sar (default_list tabs ! i))"
    by (rule same_port_default) (simp add: find_default_server_def)
  have c: "chain_inv port_equal ds (default_list tabs)" using inv by (simp add: tables_inv_def)
  show ?thesis
  proof (cases "repeated sar_prev sar")
    case True
    then obtain e where "e \<in> set ds" "host_port (snd e) = host_port sar" using prev by blast
    then obtain i where "i < length (default_list tabs)" "port_equal sar (ic_sar (default_list tabs ! i))"
      using c unfolding chain_inv_def port_equal_def by metis
    then have "?f \<noteq> None" using f by (cases ?f) auto
    then show ?thesis using True inv assms(3) by (auto simp: add_address_def Let_def repeated_def split: option.splits)
  next
    case False
    then have "add_address eq s sar_prev sar tabs = tabs\<lparr>default_list := chain_add ?f s sar (default_list tabs)\<rparr>"
      using assms(3) by (auto simp: add_address_def Let_def repeated_def split: option.splits)
    moreover have "chain_inv port_equal ((s, sar) # ds) (chain_add ?f s sar (default_list tabs))"
      by (rule chain_inv_add [OF equivp_same(2) c f])
    ultimately show ?thesis using False inv assms(2) by (simp add: tables_inv_def)
  qed
qed

fun kept_any :: "server_addr_rec option \<Rightarrow> server_addr_rec list \<Rightarrow> server_addr_rec list" where
  "kept_any sar_prev [] = []"
| "kept_any sar_prev (sar # sars) =
    (if is_any sar \<and> \<not> repeated sar_prev sar then [sar] else []) @ kept_any (Some sar) sars"

definition hash_entries :: "server_rec \<Rightarrow> server_addr_rec list \<Rightarrow> name_chain" where
  "hash_entries s sars = map (Pair s) (rev (filter (\<lambda>sar. \<not> is_any sar) sars))"

definition any_entries :: "server_rec \<Rightarrow> server_addr_rec option \<Rightarrow> server_addr_rec list \<Rightarrow> name_chain" where
  "any_entries s sar_prev sars = map (Pair s) (rev (kept_any sar_prev sars))"

lemma add_addresses_inv:
  assumes "addr_equal eq"
  shows "tables_inv eq hs ds tabs \<Longrightarrow> \<forall>sar \<in> set sars. sar_ok sar \<Longrightarrow>
    (\<forall>p. sar_prev = Some p \<longrightarrow> is_any p \<longrightarrow> (\<exists>e \<in> set ds. host_port (snd e) = host_port p)) \<Longrightarrow>
    tables_inv eq (hash_entries s sars @ hs) (any_entries s sar_prev sars @ ds) (add_addresses eq s sar_prev sars tabs)"
proof (induction sars arbitrary: hs ds tabs sar_prev)
  case (Cons sar sars)
  let ?tabs = "add_address eq s sar_prev sar tabs"
  show ?case
  proof (cases "is_any sar")
    case False
    have "tables_inv eq ((s, sar) # hs) ds ?tabs"
      using add_address_hash [OF assms Cons.prems(1)] Cons.prems(2) False by simp
    then have "tables_inv eq (hash_entries s sars @ (s, sar) # hs) (any_entries s (Some sar) sars @ ds) (add_addresses eq s (Some sar) sars ?tabs)"
      using Cons.IH [of "(s, sar) # hs" ds ?tabs "Some sar"] Cons.prems(2) False by simp
    then show ?thesis using False by (simp add: hash_entries_def any_entries_def)
  next
    case True
    let ?ds = "if repeated sar_prev sar then ds else (s, sar) # ds"
    have r: "repeated sar_prev sar \<longrightarrow> (\<exists>e \<in> set ds. host_port (snd e) = host_port sar)"
      using Cons.prems(3) by (auto simp: repeated_def split: option.splits)
    have t: "tables_inv eq hs ?ds ?tabs" using add_address_any [OF Cons.prems(1) _ True r] Cons.prems(2) by simp
    have "\<exists>e \<in> set ?ds. host_port (snd e) = host_port sar" using r by simp
    then have "tables_inv eq (hash_entries s sars @ hs) (any_entries s (Some sar) sars @ ?ds) (add_addresses eq s (Some sar) sars ?tabs)"
      using Cons.IH [OF t, of "Some sar"] Cons.prems(2) by simp
    then show ?thesis using True by (simp add: hash_entries_def any_entries_def split: if_splits)
  qed
qed (simp add: hash_entries_def any_entries_def)

text \<open>The addresses of all servers, in the order of the configuration; within a server the last one comes first.\<close>

definition addr_entries :: "server_rec list \<Rightarrow> name_chain" where
  "addr_entries servers = concat (map (\<lambda>s. hash_entries s (addrs s)) (rev servers))"

definition default_entries :: "server_rec list \<Rightarrow> name_chain" where
  "default_entries servers = concat (map (\<lambda>s. any_entries s None (addrs s)) (rev servers))"

lemma fini_tables_inv:
  assumes "addr_equal eq" and "\<forall>s \<in> set servers. \<forall>sar \<in> set (addrs s). sar_ok sar"
  shows "tables_inv eq (addr_entries servers) (default_entries servers)
    (fold (\<lambda>s tabs. add_addresses eq s None (addrs s) tabs) servers ap_init_vhost_config)"
proof -
  have "tables_inv eq hs ds tabs \<Longrightarrow> \<forall>s \<in> set servers. \<forall>sar \<in> set (addrs s). sar_ok sar \<Longrightarrow>
      tables_inv eq (addr_entries servers @ hs) (default_entries servers @ ds)
        (fold (\<lambda>s tabs. add_addresses eq s None (addrs s) tabs) servers tabs)" for hs ds tabs
  proof (induction servers arbitrary: hs ds tabs)
    case (Cons s servers)
    have "tables_inv eq (hash_entries s (addrs s) @ hs) (any_entries s None (addrs s) @ ds) (add_addresses eq s None (addrs s) tabs)"
      using add_addresses_inv [OF assms(1) Cons.prems(1), of "addrs s" None s] Cons.prems(2) by simp
    from Cons.IH [OF this] show ?case using Cons.prems(2) by (simp add: addr_entries_def default_entries_def)
  qed (simp add: addr_entries_def default_entries_def)
  moreover have "tables_inv eq [] [] ap_init_vhost_config"
    by (simp add: tables_inv_def ap_init_vhost_config_def chain_inv_Nil in_bucket_def)
  ultimately show ?thesis using assms(2) by fastforce
qed

section \<open>The lookup of an address\<close>

text \<open>The virtual hosts for an address, read off the configuration: those for the address and the port, else those for the address and any port,
  else the wildcard hosts for the port, else those for any port.\<close>

definition vhost_group :: "(sockaddr \<Rightarrow> sockaddr \<Rightarrow> bool) \<Rightarrow> server_rec list \<Rightarrow> sockaddr \<Rightarrow> name_chain" where
  "vhost_group eq servers sa =
    (let hs = addr_entries servers; ds = default_entries servers;
         exact = filter (\<lambda>e. eq (host_addr (snd e)) sa \<and> host_port (snd e) = sa_port sa) hs;
         any_port = filter (\<lambda>e. eq (host_addr (snd e)) sa \<and> host_port (snd e) = 0) hs;
         default = filter (\<lambda>e. host_port (snd e) = sa_port sa) ds in
     if exact \<noteq> [] then exact else if any_port \<noteq> [] then any_port else if default \<noteq> [] then default
     else filter (\<lambda>e. host_port (snd e) = 0) ds)"

definition names_of :: "name_chain \<Rightarrow> name_chain" where
  "names_of es = (if length es = 1 then [] else es)"

lemma ic_for_names: "ic_for es ic \<Longrightarrow> ic_names ic = names_of es \<and> ic_server ic = fst (hd es) \<and> es \<noteq> []"
  by (auto simp: ic_for_def names_of_def)

lemma bucket_group:
  assumes "addr_equal eq" and "eq (host_addr sar) sa" and "host_port sar = p"
  shows "group (same_addr eq) sar (in_bucket (hash_addr sa) es) = filter (\<lambda>e. eq (host_addr (snd e)) sa \<and> host_port (snd e) = p) es"
proof -
  have "eq (host_addr (snd e)) (host_addr sar) \<longleftrightarrow> eq (host_addr (snd e)) sa" for e
    using assms(1,2) unfolding addr_equal_def by (meson equivp_symp equivp_transp)
  then show ?thesis
    unfolding group_def in_bucket_def same_addr_def filter_filter assms(3)
    by (intro filter_cong refl) (use equal_hash [OF assms(1)] in blast)
qed

lemma bucket_empty:
  assumes "addr_equal eq" and inv: "chain_inv (same_addr eq) (in_bucket (hash_addr sa) es) ics"
    and no: "\<forall>i<length ics. \<not> (eq (host_addr (ic_sar (ics ! i))) sa \<and> host_port (ic_sar (ics ! i)) = p)"
  shows "filter (\<lambda>e. eq (host_addr (snd e)) sa \<and> host_port (snd e) = p) es = []"
proof (rule ccontr)
  assume "filter (\<lambda>e. eq (host_addr (snd e)) sa \<and> host_port (snd e) = p) es \<noteq> []"
  then obtain e where e: "e \<in> set es" "eq (host_addr (snd e)) sa" "host_port (snd e) = p" by (auto simp: filter_empty_conv)
  then have "e \<in> set (in_bucket (hash_addr sa) es)" using equal_hash [OF assms(1)] by (simp add: in_bucket_def)
  then obtain i where "i < length ics" "same_addr eq (snd e) (ic_sar (ics ! i))" using inv unfolding chain_inv_def by blast
  then show False using no e assms(1) unfolding same_addr_def addr_equal_def by (metis equivp_symp equivp_transp)
qed

lemma find_ipaddr_group:
  assumes "addr_equal eq" and inv: "tables_inv eq hs ds tabs" and "sa_port sa \<noteq> 0"
  defines "exact \<equiv> filter (\<lambda>e. eq (host_addr (snd e)) sa \<and> host_port (snd e) = sa_port sa) hs"
    and "any_port \<equiv> filter (\<lambda>e. eq (host_addr (snd e)) sa \<and> host_port (snd e) = 0) hs"
  shows "case find_ipaddr eq tabs sa of
      Some i \<Rightarrow> ic_for (if exact \<noteq> [] then exact else any_port) (iphash_table tabs ! hash_addr sa ! i)
    | None \<Rightarrow> exact = [] \<and> any_port = []"
proof -
  define ics where "ics = iphash_table tabs ! hash_addr sa"
  define ex where "ex = (\<lambda>ic :: ipaddr_chain. let cur = host_addr (ic_sar ic) in sa_port cur = sa_port sa \<and> eq cur sa)"
  define wc where "wc = (\<lambda>ic :: ipaddr_chain. let cur = host_addr (ic_sar ic) in (sa_port cur = 0 \<or> sa_port sa = 0) \<and> eq cur sa)"
  have f: "find_ipaddr eq tabs sa = find_chain ex wc 0 None ics" by (simp add: find_ipaddr_def ex_def wc_def ics_def)
  have c: "chain_inv (same_addr eq) (in_bucket (hash_addr sa) hs) ics"
    using inv hash_addr_less by (simp add: tables_inv_def ics_def)
  have port: "sa_port (host_addr (ic_sar (ics ! i))) = host_port (ic_sar (ics ! i))" if "i < length ics" for i
  proof -
    from chain_sar_mem [OF c that] obtain s where "(s, ic_sar (ics ! i)) \<in> set (in_bucket (hash_addr sa) hs)" by blast
    then have "sar_ok (snd (s, ic_sar (ics ! i)))" using inv unfolding tables_inv_def in_bucket_def by fastforce
    then show ?thesis by (simp add: sar_ok_def)
  qed
  have grp: "ic_for (filter (\<lambda>e. eq (host_addr (snd e)) sa \<and> host_port (snd e) = p) hs) (ics ! i)"
    if "i < length ics" "eq (host_addr (ic_sar (ics ! i))) sa" "host_port (ic_sar (ics ! i)) = p" for i p
  proof -
    have "ic_for (group (same_addr eq) (ic_sar (ics ! i)) (in_bucket (hash_addr sa) hs)) (ics ! i)"
      using c that(1) by (simp add: chain_inv_def)
    then show ?thesis unfolding bucket_group [OF assms(1) that(2,3)] .
  qed
  have no: "filter (\<lambda>e. eq (host_addr (snd e)) sa \<and> host_port (snd e) = p) hs = []"
    if "\<forall>i<length ics. \<not> (sa_port (host_addr (ic_sar (ics ! i))) = p \<and> eq (host_addr (ic_sar (ics ! i))) sa)" for p
    by (rule bucket_empty [OF assms(1) c]) (use that port in auto)
  show ?thesis
  proof (cases rule: find_chain_cases [of ics ex wc])
    case (exact k)
    then have "ic_for exact (ics ! k)" using grp [of k "sa_port sa"] port by (auto simp: ex_def Let_def exact_def)
    then show ?thesis using exact f ic_for_names by (auto simp flip: ics_def)
  next
    case (remembered k)
    then have "exact = []" using no [of "sa_port sa"] by (simp add: ex_def Let_def exact_def)
    moreover have "ic_for any_port (ics ! k)"
      using remembered(2,3) assms(3) grp [of k 0] port by (auto simp: wc_def Let_def any_port_def)
    ultimately show ?thesis using remembered(4) f by (simp flip: ics_def)
  next
    case none
    then have "exact = []" "any_port = []"
      using no [of "sa_port sa"] no [of 0] by (auto simp: ex_def wc_def Let_def exact_def any_port_def)
    then show ?thesis using none(3) f by simp
  qed
qed

lemma find_default_group:
  fixes p :: nat
  assumes inv: "tables_inv eq hs ds tabs"
  defines "exact \<equiv> filter (\<lambda>e. host_port (snd e) = p) ds" and "any_port \<equiv> filter (\<lambda>e. host_port (snd e) = 0) ds"
  shows "case find_default_server tabs p of
      Some i \<Rightarrow> ic_for (if exact \<noteq> [] then exact else any_port) (default_list tabs ! i)
    | None \<Rightarrow> exact = [] \<and> any_port = []"
proof -
  let ?ics = "default_list tabs"
  have c: "chain_inv port_equal ds ?ics" using inv by (simp add: tables_inv_def)
  have grp: "ic_for (filter (\<lambda>e. host_port (snd e) = q) ds) (?ics ! i)" if "i < length ?ics" "host_port (ic_sar (?ics ! i)) = q" for i q
    using c that by (auto simp: chain_inv_def group_def port_equal_def)
  have no: "filter (\<lambda>e. host_port (snd e) = q) ds = []" if "\<forall>i<length ?ics. host_port (ic_sar (?ics ! i)) \<noteq> q" for q
    using c that unfolding chain_inv_def port_equal_def filter_empty_conv by metis
  show ?thesis
  proof (cases rule: find_chain_cases [of ?ics "\<lambda>ic. host_port (ic_sar ic) = p" "\<lambda>ic. host_port (ic_sar ic) = 0"])
    case (exact k)
    then have "ic_for exact (?ics ! k)" using grp by (simp add: exact_def)
    then show ?thesis using exact(3) ic_for_names by (auto simp: find_default_server_def)
  next
    case (remembered k)
    then show ?thesis using no [of p] grp [of k 0] by (simp add: find_default_server_def exact_def any_port_def)
  next
    case none
    then show ?thesis using no by (simp add: find_default_server_def exact_def any_port_def)
  qed
qed

lemma given_ip_group:
  assumes "addr_equal eq" and inv: "tables_inv eq (addr_entries servers) (default_entries servers) tabs" and "sa_port (local_addr c) \<noteq> 0"
  defines "g \<equiv> vhost_group eq servers (local_addr c)"
  shows "base_server (ap_update_vhost_given_ip eq tabs c) = (if g = [] then base_server c else fst (hd g))"
    and "vhost_lookup_data (ap_update_vhost_given_ip eq tabs c) = names_of g"
    and "local_addr (ap_update_vhost_given_ip eq tabs c) = local_addr c"
proof -
  note a = find_ipaddr_group [OF assms(1) inv assms(3)] and d = find_default_group [OF inv, of "sa_port (local_addr c)"]
  have "base_server (ap_update_vhost_given_ip eq tabs c) = (if g = [] then base_server c else fst (hd g)) \<and>
      vhost_lookup_data (ap_update_vhost_given_ip eq tabs c) = names_of g"
  proof (cases "find_ipaddr eq tabs (local_addr c)")
    case (Some i)
    then have "ic_for g (iphash_table tabs ! hash_addr (local_addr c) ! i)"
      using a unfolding g_def vhost_group_def Let_def by (auto simp: ic_for_def split: if_splits)
    then show ?thesis using Some ic_for_names by (auto simp: ap_update_vhost_given_ip_def Let_def)
  next
    case None
    show ?thesis
    proof (cases "find_default_server tabs (sa_port (local_addr c))")
      case (Some i)
      then have "ic_for g (default_list tabs ! i)" using a d None unfolding g_def vhost_group_def Let_def by simp
      then show ?thesis using None Some ic_for_names by (auto simp: ap_update_vhost_given_ip_def Let_def)
    next
      case none: None
      then have "g = []" using a d None unfolding g_def vhost_group_def Let_def by simp
      then show ?thesis using None none by (simp add: ap_update_vhost_given_ip_def names_of_def)
    qed
  qed
  then show "base_server (ap_update_vhost_given_ip eq tabs c) = (if g = [] then base_server c else fst (hd g))"
    "vhost_lookup_data (ap_update_vhost_given_ip eq tabs c) = names_of g" by simp_all
  show "local_addr (ap_update_vhost_given_ip eq tabs c) = local_addr c"
    by (simp add: ap_update_vhost_given_ip_def Let_def split: option.split)
qed

section \<open>The lookup of a name\<close>

text \<open>The first server with a matching name or alias, else the first whose \<open>VirtualHost\<close> line has the name.\<close>

definition named_server :: "string \<Rightarrow> name_chain \<Rightarrow> server_rec option" where
  "named_server host es =
    (case find (\<lambda>e. matches_aliases (fst e) host) es of
       Some e \<Rightarrow> Some (fst e)
     | None \<Rightarrow> map_option fst (find (\<lambda>e. strcaseeq host (virthost (snd e))) es))"

lemma hostalias_loop_named:
  "\<forall>e \<in> set es. host_port (snd e) = 0 \<or> host_port (snd e) = prt \<Longrightarrow>
   (\<And>s. last_s = Some s \<Longrightarrow> \<not> matches_aliases s host) \<Longrightarrow>
   hostalias_loop host prt last_s v es =
    (case find (\<lambda>e. matches_aliases (fst e) host) es of
       Some e \<Rightarrow> Some (fst e)
     | None \<Rightarrow> (case v of Some s \<Rightarrow> Some s | None \<Rightarrow> map_option fst (find (\<lambda>e. strcaseeq host (virthost (snd e))) es)))"
proof (induction es arbitrary: last_s v)
  case (Cons e es)
  obtain s sar where e: "e = (s, sar)" by fastforce
  show ?case
  proof (cases "matches_aliases s host")
    case True
    then have "last_s \<noteq> Some s" using Cons.prems(2) by blast
    then show ?thesis using True Cons.prems(1) e by auto
  next
    case False
    have "hostalias_loop host prt last_s v (e # es) =
        hostalias_loop host prt (Some s) (if strcaseeq host (virthost sar) \<and> v = None then Some s else v) es"
      using False Cons.prems(1) e by auto
    also have "\<dots> = (case find (\<lambda>e. matches_aliases (fst e) host) es of
         Some e \<Rightarrow> Some (fst e)
       | None \<Rightarrow> (case (if strcaseeq host (virthost sar) \<and> v = None then Some s else v) of
            Some s \<Rightarrow> Some s | None \<Rightarrow> map_option fst (find (\<lambda>e. strcaseeq host (virthost (snd e))) es)))"
      using Cons.IH [of "Some s"] Cons.prems(1) False by simp
    finally show ?thesis using False e by (auto split: option.split)
  qed
qed (simp split: option.split)

lemma group_ports: "\<forall>e \<in> set (vhost_group eq servers sa). host_port (snd e) = 0 \<or> host_port (snd e) = sa_port sa"
  by (auto simp: vhost_group_def Let_def)

section \<open>The host name\<close>

text \<open>No capital letter, no separator of directories, no two dots in a row.\<close>

definition host_sane :: "string \<Rightarrow> bool" where
  "host_sane h \<longleftrightarrow> list_all (\<lambda>c. \<not> c_isupper c \<and> c \<noteq> CHR ''/'' \<and> c \<noteq> CHR 0x5C) h \<and> \<not> sublist ''..'' h"

definition host_strict :: "string \<Rightarrow> bool" where
  "host_strict h \<longleftrightarrow> list_all (\<lambda>c. c_islower c \<or> c_isdigit c \<or> c = CHR ''-'' \<or> c = CHR ''.'' \<or> c = CHR '':'') h"

lemma sublist_dots_Cons: "sublist ''..'' (c # s) \<longleftrightarrow> (c = CHR ''.'' \<and> peek s = CHR ''.'') \<or> sublist ''..'' s"
  by (cases s) (auto simp: sublist_Cons_right)

lemma tolower_letter: "c_isupper c \<Longrightarrow> c_islower (c_tolower c)"
  using ord_tolower [of c] by (auto simp: cclass)

lemma lower_chars:
  assumes "c_islower c"
  shows "\<not> c_isupper c" "c \<noteq> CHR ''/''" "c \<noteq> CHR 0x5C" "c \<noteq> CHR ''.''"
  using assms by (auto simp: cclass)

lemma host_sane_Cons:
  "host_sane (c # s) \<longleftrightarrow> \<not> c_isupper c \<and> c \<noteq> CHR ''/'' \<and> c \<noteq> CHR 0x5C \<and> \<not> (c = CHR ''.'' \<and> peek s = CHR ''.'') \<and> host_sane s"
  by (auto simp: host_sane_def sublist_dots_Cons)

lemma fix_loop_peek: "fix_non_v6_loop s = Some h \<Longrightarrow> peek h = CHR ''.'' \<longleftrightarrow> peek s = CHR ''.''"
  by (cases s) (auto simp: lower_chars tolower_letter split: if_splits)

lemma fix_non_v6_sane: "fix_non_v6_loop s = Some h \<Longrightarrow> host_sane h"
proof (induction s arbitrary: h)
  case (Cons c s)
  obtain h' where h': "fix_non_v6_loop s = Some h'" using Cons.prems by (auto split: if_splits)
  have p: "peek h' = CHR ''.'' \<longleftrightarrow> peek s = CHR ''.''" by (rule fix_loop_peek [OF h'])
  have "host_sane h'" using Cons.IH h' .
  then show ?case
    using Cons.prems h' p lower_chars [of c] lower_chars [OF tolower_letter, of c]
    by (auto simp: host_sane_Cons c_isupper_def c_islower_def split: if_splits)
qed (simp add: host_sane_def)

lemma host_sane_butlast: "host_sane h \<Longrightarrow> host_sane (butlast h)"
  unfolding host_sane_def list_all_iff by (meson in_set_butlastD prefixeq_butlast prefix_imp_sublist sublist_order.order.trans)

lemma fix_hostname_non_v6_sane: "fix_hostname_non_v6 s = Some h \<Longrightarrow> host_sane h"
  using fix_non_v6_sane host_sane_butlast by (auto simp: fix_hostname_non_v6_def split: if_splits)

lemma xdigit_chars:
  assumes "c_isxdigit c"
  shows "(if c_isupper c then c_tolower c else c) \<noteq> CHR ''.''" "\<not> c_isupper (if c_isupper c then c_tolower c else c)"
    "c_islower (if c_isupper c then c_tolower c else c) \<or> c_isdigit (if c_isupper c then c_tolower c else c)"
  using assms ord_tolower [of c] by (auto simp: cclass)

lemma v6_loop_peek: "fix_v6_loop d s = Some h \<Longrightarrow> peek h = CHR ''.'' \<longleftrightarrow> peek s = CHR ''.''"
proof (cases s)
  case (Cons c t)
  assume f: "fix_v6_loop d s = Some h"
  show ?thesis
  proof (cases "c_isxdigit c")
    case True
    then obtain h' where "h = (if c_isupper c then c_tolower c else c) # h'" using f Cons by auto
    moreover have "c \<noteq> CHR ''.''" using True by (auto simp: cclass)
    ultimately show ?thesis using xdigit_chars(1) [OF True] Cons by simp
  next
    case False
    then show ?thesis using f Cons by (auto split: if_splits)
  qed
qed auto

lemma v6_loop_sane: "fix_v6_loop d s = Some h \<Longrightarrow> host_sane h \<and> host_strict h"
proof (induction s arbitrary: d h)
  case (Cons c s)
  show ?case
  proof (cases "c_isxdigit c")
    case True
    then obtain h' where h': "fix_v6_loop d s = Some h'" "h = (if c_isupper c then c_tolower c else c) # h'"
      using Cons.prems by auto
    then have "host_sane h' \<and> host_strict h'" using Cons.IH by blast
    then show ?thesis using h'(2) xdigit_chars [OF True] lower_chars
      by (auto simp: host_sane_Cons host_strict_def c_isdigit_def split: if_splits)
  next
    case False
    then obtain d' h' where h': "fix_v6_loop d' s = Some h'" "h = c # h'" "c = CHR '':'' \<or> c = CHR ''.'' \<and> peek s \<noteq> CHR ''.''"
      using Cons.prems by (auto split: if_splits)
    then have "host_sane h' \<and> host_strict h'" "peek h' = CHR ''.'' \<longleftrightarrow> peek s = CHR ''.''" using Cons.IH v6_loop_peek by blast+
    then show ?thesis using h'(2,3) by (auto simp: host_sane_Cons host_strict_def cclass)
  qed
qed (simp add: host_sane_def host_strict_def)

lemma strict_scan_chars:
  "strict_scan d l n s \<noteq> None \<Longrightarrow> list_all (\<lambda>c. c_isalpha c \<or> c_isdigit c \<or> c = CHR ''-'' \<or> c = CHR ''.'') s"
  by (induction d l n s rule: strict_scan.induct) (auto split: if_splits)

lemma check_host_sane:
  assumes "check_host st v6 s = Some h"
  shows "host_sane h \<and> (st \<longrightarrow> host_strict h)"
proof (cases v6)
  case True
  then show ?thesis using assms v6_loop_sane by (auto simp: check_host_def fix_hostname_v6_literal_def)
next
  case False
  then have h: "fix_hostname_non_v6 s = Some h" "st \<longrightarrow> strict_hostname_check h"
    using assms by (auto simp: check_host_def split: option.splits if_splits)
  then have s: "host_sane h" using fix_hostname_non_v6_sane by blast
  have "host_strict h" if st
    using h(2) that s strict_scan_chars [of True False 0 h]
    by (auto simp: strict_hostname_check_def host_strict_def host_sane_def list_all_iff c_isalpha_def split: option.splits)
  then show ?thesis using s by blast
qed

lemma fix_hostname_sane:
  assumes "fix_hostname parse st hh r = (v6, r')" and "status r' = HTTP_OK"
  shows "(hostname r' = hostname r \<and> (hh = None \<longrightarrow> hostname r = None \<or> hostname r = Some []))
    \<or> (\<exists>h. hostname r' = Some h \<and> host_sane h \<and> (st \<longrightarrow> host_strict h))"
    and "headers_in r' = headers_in r" and "server r' = server r" and "uri r' = uri r"
proof -
  define src where "src = (case hh of Some h \<Rightarrow> h | None \<Rightarrow> (case hostname r of Some h \<Rightarrow> h | None \<Rightarrow> []))"
  have digits: "host_sane s" if "list_all c_isdigit s" for s
  proof (use that in \<open>induction s\<close>)
    case (Cons c s)
    then have "c_isdigit c" "host_sane s" by simp_all
    then show ?case by (auto simp: host_sane_Cons cclass)
  qed (simp add: host_sane_def)
  note f = assms(1) [unfolded fix_hostname_def, folded src_def, unfolded Let_def]
  show "(hostname r' = hostname r \<and> (hh = None \<longrightarrow> hostname r = None \<or> hostname r = Some []))
    \<or> (\<exists>h. hostname r' = Some h \<and> host_sane h \<and> (st \<longrightarrow> host_strict h))"
  proof (cases "src = [] \<or> list_all c_isdigit src")
    case True
    then show ?thesis using f assms(2) digits by (auto simp: src_def split: if_splits option.splits)
  next
    case False
    then show ?thesis
      using f assms(2) check_host_sane by (cases hh) (auto split: option.splits prod.splits if_splits)
  qed
  show "headers_in r' = headers_in r" "server r' = server r" "uri r' = uri r"
    using f by (auto split: option.splits prod.splits if_splits)
qed

lemma check_keeps [simp]:
  "hostname (check_hostalias c h r) = hostname r" "status (check_hostalias c h r) = status r"
  "headers_in (check_hostalias c h r) = headers_in r" "proto_num (check_hostalias c h r) = proto_num r"
  "hostname (check_serverpath c r) = hostname r" "status (check_serverpath c r) = status r"
  "headers_in (check_serverpath c r) = headers_in r" "proto_num (check_serverpath c r) = proto_num r"
  by (simp_all add: check_hostalias_def check_serverpath_def split: option.split)

text \<open>
  C39: The host name that a request carries into file names and logs is harmless. Whatever the request line and the \<open>Host\<close> field hold,
  and whatever the parser of APR returns, when
  \<open>ap_update_vhost_from_headers\<close> leaves the status at 200 and there is a host name, it has no capital letter, no slash or backslash and no two dots in a row,
  and with strict conformance only small letters, digits, hyphens, dots and colons.\<close>

theorem hostname_harmless:
  assumes "ap_update_vhost_from_headers T parse st c r = r'" and "status r' = HTTP_OK" and "hostname r' = Some h"
  shows "host_sane h \<and> (st \<longrightarrow> host_strict h)"
proof -
  define hh where "hh = apr_table_get T (headers_in r) ''Host''"
  define from_url where "from_url \<longleftrightarrow> hostname r \<noteq> None"
  obtain v6 r1 where r1: "(if from_url then fix_hostname parse st None r
      else if hh \<noteq> None then fix_hostname parse st hh r else (False, r)) = (v6, r1)" by fastforce
  note u = assms(1) [unfolded ap_update_vhost_from_headers_def, folded hh_def, folded from_url_def, unfolded r1 Let_def prod.case]
  have "status r1 = HTTP_OK" using u assms(2) by (auto split: if_splits)
  have "hostname r1 = Some h" using u assms(2,3) by (auto split: if_splits option.splits)
  show ?thesis
  proof (cases "from_url \<or> hh \<noteq> None")
    case True
    then have "fix_hostname parse st (if from_url then None else hh) r = (v6, r1)" using r1 by auto
    from fix_hostname_sane(1) [OF this \<open>status r1 = HTTP_OK\<close>] show ?thesis
      using \<open>hostname r1 = Some h\<close> True by (auto simp: from_url_def host_sane_def host_strict_def split: if_splits)
  next
    case False
    then show ?thesis using r1 \<open>hostname r1 = Some h\<close> by (auto simp: from_url_def)
  qed
qed

lemma default_name_addrs [simp]: "addrs (default_server_name f m s) = addrs s"
  by (simp add: default_server_name_def split: list.split)

lemma update_server:
  assumes "ap_update_vhost_from_headers T parse st c r = r'" and "status r' = HTTP_OK" and "hostname r' = Some h"
  shows "server r' = (if vhost_lookup_data c = [] then server r
    else case hostalias_loop h (sa_port (local_addr c)) None None (vhost_lookup_data c) of None \<Rightarrow> server r | Some s \<Rightarrow> s)"
proof -
  define hh where "hh = apr_table_get T (headers_in r) ''Host''"
  define from_url where "from_url \<longleftrightarrow> hostname r \<noteq> None"
  obtain v6 r1 where r1: "(if from_url then fix_hostname parse st None r
      else if hh \<noteq> None then fix_hostname parse st hh r else (False, r)) = (v6, r1)" by fastforce
  note u = assms(1) [unfolded ap_update_vhost_from_headers_def, folded hh_def, folded from_url_def, unfolded r1 Let_def prod.case]
  have s: "status r1 = HTTP_OK" using u assms(2) by (auto split: if_splits)
  have "server r1 = server r" using r1 s fix_hostname_sane(3) by (auto split: if_splits)
  moreover have "hostname r1 = Some h" using u assms(2,3) by (auto split: if_splits option.splits)
  ultimately show ?thesis using u s by (auto simp: check_hostalias_def split: if_splits option.splits)
qed


definition example_server :: "string \<Rightarrow> nat \<Rightarrow> server_rec" where
  "example_server name line = \<lparr>server_hostname = Some name, names = [], wild_names = [], serverpath = None, server_port = 80,
     addrs = [\<lparr>virthost = ''*'', host_addr = \<lparr>ipaddr = [0, 0, 0, 0], sa_port = 80\<rparr>, host_port = 80\<rparr>],
     defn_name = ''httpd.conf'', defn_line_number = line\<rparr>"

definition example_conn :: conn where
  "example_conn = \<lparr>base_server = (example_server ''main'' 1)\<lparr>addrs := []\<rparr>, vhost_lookup_data = [],
     local_addr = \<lparr>ipaddr = [10, 0, 0, 1], sa_port = 80\<rparr>\<rparr>"

definition example_parse :: parse_addr_port where
  "example_parse s = Some (takeWhile (\<lambda>c. c \<noteq> CHR '':'') s, None, if CHR '':'' \<in> set s then 8080 else 0)"

definition example_request :: "(string \<times> string) list vhost_request" where
  "example_request = request.extend (fresh_request\<lparr>status := 200\<rparr>)
     (vhost_request.fields [(''Host'', ''B.org.'')] (example_server ''a.org'' 2) 0 None)"

text \<open>Equality of addresses as the equality of their bytes.\<close>

definition same_ip :: "sockaddr \<Rightarrow> sockaddr \<Rightarrow> bool" where
  "same_ip a b \<longleftrightarrow> ipaddr a = ipaddr b"

lemma same_ip_equal: "addr_equal same_ip"
  by (auto simp: addr_equal_def same_ip_def equivp_def fun_eq_iff)

lemma example_update:
  "status (ap_update_vhost_from_headers list_tables example_parse True c example_request) = 200"
  "hostname (ap_update_vhost_from_headers list_tables example_parse True c example_request) = Some ''b.org''"
proof -
  have "fix_hostname example_parse True (Some ''B.org.'') example_request = (False, example_request\<lparr>hostname := Some ''b.org''\<rparr>)"
    by code_simp
  moreover have "apr_table_get list_tables (headers_in example_request) ''Host'' = Some ''B.org.''" "hostname example_request = None"
    "status example_request = 200"
    by code_simp+
  ultimately show "status (ap_update_vhost_from_headers list_tables example_parse True c example_request) = 200"
    "hostname (ap_update_vhost_from_headers list_tables example_parse True c example_request) = Some ''b.org''"
    by (simp_all add: ap_update_vhost_from_headers_def Let_def)
qed

theorem hostname_harmless_witness:
  "hostname (ap_update_vhost_from_headers list_tables example_parse True example_conn example_request) = Some ''b.org'' \<and>
   host_sane ''b.org'' \<and> host_strict ''b.org''"
  using hostname_harmless [OF refl example_update] example_update by blast


end
