(* ===== verification/Read_Request.thy ===== *)
theory Read_Request
  imports Vhost
begin

text \<open>
  Reading a request: \<open>ap_read_request\<close> of \<^verbatim>\<open>server/protocol.c\<close>, which puts the request line, the header fields and the choice
  of the virtual host together and decides whether there is a request to handle. The timeouts of the socket, the
  scoreboard and logging are not modelled; the hooks that run after reading are an argument.
\<close>

section \<open>The function\<close>

text \<open>What the caller gets: a request to handle (and whether the client waits for 100), a request that was answered with an error, one that timed out,
  or none, after \<open>ap_die\<close> with a status or without an answer.\<close>

datatype 't outcome =
  Served "'t vhost_request" bool | Answered "'t vhost_request" | Timed_Out "'t vhost_request" | Died int | No_Request

definition HTTP_VERSION_NOT_SUPPORTED :: int where "HTTP_VERSION_NOT_SUPPORTED = 505"
definition HTTP_EXPECTATION_FAILED :: int where "HTTP_EXPECTATION_FAILED = 417"

record ('s, 't) reader =
  core_config :: core_conf
  registry :: methods
  uri_parse :: "bool \<Rightarrow> string \<Rightarrow> apr_uri option"
  uri_port :: "request \<Rightarrow> nat \<times> string option"
  ap_http_scheme :: string
  addr_parse :: parse_addr_port
  rgetline :: "nat \<Rightarrow> bool \<Rightarrow> 's \<Rightarrow> (apr_status + string) \<times> 's"
  limits :: mime_limits
  limit_req_line :: nat
  tabs :: "'t table_ops"
  make_table :: 't
  post_read_request :: "'t vhost_request \<Rightarrow> int \<times> 't vhost_request"

text \<open>\<open>Transfer-Encoding\<close>: a coding that does not end in \<open>chunked\<close> is refused, and it overrides \<open>Content-Length\<close>.\<close>

definition check_transfer_encoding :: "'t table_ops \<Rightarrow> 't vhost_request \<Rightarrow> bool \<times> 't vhost_request" where
  "check_transfer_encoding T r =
    (case apr_table_get T (headers_in r) ''Transfer-Encoding'' of
       None \<Rightarrow> (True, r)
     | Some tenc \<Rightarrow>
         if \<not> (strcaseeq tenc ''chunked'' \<or> ap_find_last_token (Some tenc) ''chunked'') then
           (False, r\<lparr>status := HTTP_BAD_REQUEST, keepalive_close := True\<rparr>)
         else (True, r\<lparr>headers_in := apr_table_unset T (headers_in r) ''Content-Length''\<rparr>))"

text \<open>From the virtual host to the end; the status that \<open>ap_die\<close> would get, and the request.\<close>

definition find_host :: "('s, 't) reader \<Rightarrow> conn \<Rightarrow> 't vhost_request \<Rightarrow> int \<times> 't vhost_request" where
  "find_host rd c r =
    (let r = ap_update_vhost_from_headers (tabs rd) (addr_parse rd) (strict (core_config rd)) c r in
     (if (hostname r = None \<and> proto_num r \<ge> HTTP_VERSION 1 1)
         \<or> (proto_num r = HTTP_VERSION 1 1 \<and> apr_table_get (tabs rd) (headers_in r) ''Host'' = None)
      then HTTP_BAD_REQUEST else status r, r))"

definition finish_request :: "('s, 't) reader \<Rightarrow> conn \<Rightarrow> 't vhost_request \<Rightarrow> 't outcome" where
  "finish_request rd c r =
    (case find_host rd c r of (access_status, r) \<Rightarrow>
       if access_status \<noteq> HTTP_OK then Died access_status
       else case post_read_request rd r of (access_status, r) \<Rightarrow>
         if access_status \<noteq> OK then Died access_status
         else case apr_table_get (tabs rd) (headers_in r) ''Expect'' of
             None \<Rightarrow> Served r False
           | Some expect \<Rightarrow>
               if expect = [] then Served r False
               else if strcaseeq expect ''100-continue'' then Served r True
               else Answered (r\<lparr>status := HTTP_EXPECTATION_FAILED\<rparr>))"

definition new_request :: request where
  "new_request = \<lparr>the_request = [], meth = [], method_number = 0, header_only = False, protocol = [], proto_num = 0,
     assbackwards = False, unparsed_uri = [], uri = [], args = None, hostname = None, parsed_uri = no_uri, status = HTTP_OK,
     keepalive_close = False\<rparr>"

definition with_headers :: "('s, 't) reader \<Rightarrow> conn \<Rightarrow> request \<Rightarrow> 't vhost_request" where
  "with_headers rd c r =
    (case uri_port rd r of (p, ps) \<Rightarrow> request.extend r (vhost_request.fields (make_table rd) (base_server c) p ps))"

definition failed_request_line :: "('s, 't) reader \<Rightarrow> conn \<Rightarrow> request \<Rightarrow> 't outcome" where
  "failed_request_line rd c r =
    (if status r = HTTP_REQUEST_URI_TOO_LARGE \<or> status r = HTTP_BAD_REQUEST \<or> status r = HTTP_VERSION_NOT_SUPPORTED
        \<or> status r = HTTP_NOT_IMPLEMENTED then Died (status r)
     else if status r = HTTP_REQUEST_TIME_OUT then Timed_Out (with_headers rd c r)
     else No_Request)"

definition read_headers :: "('s, 't) reader \<Rightarrow> conn \<Rightarrow> 's \<Rightarrow> 't vhost_request \<Rightarrow> ('t outcome \<times> 's) option" where
  "read_headers rd c s r =
    map_option (\<lambda>((st, _, t), s').
        let r = r\<lparr>headers_in := t, status := (if st = HTTP_OK then status r else st)\<rparr> in
        (if status r \<noteq> HTTP_OK then Answered r
         else case check_transfer_encoding (tabs rd) r of
             (False, r) \<Rightarrow> Answered r
           | (True, r) \<Rightarrow> finish_request rd c r, s'))
      (ap_get_mime_headers_core (tabs rd) (strict (core_config rd)) (limits rd)
        (rgetline rd (limit_req_fieldsize (limits rd) + 2) (strict (core_config rd))) s (headers_in r))"

definition ap_read_request :: "('s, 't) reader \<Rightarrow> conn \<Rightarrow> 's \<Rightarrow> ('t outcome \<times> 's) option" where
  "ap_read_request rd c s =
    (case read_request_line (core_config rd) (registry rd) (uri_parse rd) (ap_http_scheme rd)
        (rgetline rd (limit_req_line rd + 2) (strict (core_config rd))) s new_request of
       ((False, r), s') \<Rightarrow> Some (failed_request_line rd c r, s')
     | ((True, r), s') \<Rightarrow>
         if assbackwards r then Some (finish_request rd c (with_headers rd c r), s')
         else read_headers rd c s' (with_headers rd c r))"

section \<open>What is kept\<close>

lemma update_vhost_keeps:
  assumes "table_laws T" and "ap_update_vhost_from_headers T parse st c r = r'"
  shows "proto_num r' = proto_num r" and "\<not> strcaseeq ''Host'' k \<Longrightarrow> apr_table_get T (headers_in r') k = apr_table_get T (headers_in r) k"
proof -
  define hh where "hh = apr_table_get T (headers_in r) ''Host''"
  define from_url where "from_url \<longleftrightarrow> hostname r \<noteq> None"
  obtain v6 r1 where r1: "(if from_url then fix_hostname parse st None r
      else if hh \<noteq> None then fix_hostname parse st hh r else (False, r)) = (v6, r1)" by fastforce
  note u = assms(2) [unfolded ap_update_vhost_from_headers_def, folded hh_def, folded from_url_def, unfolded r1 Let_def prod.case]
  have k: "headers_in r1 = headers_in r \<and> proto_num r1 = proto_num r"
    using r1 by (auto simp: fix_hostname_def Let_def split: if_splits option.splits prod.splits)
  show "proto_num r' = proto_num r"
    using u k by (auto split: if_splits option.splits)
  show "apr_table_get T (headers_in r') k = apr_table_get T (headers_in r) k" if "\<not> strcaseeq ''Host'' k"
    using u k that by (auto simp: table_set [OF assms(1)] split: if_splits option.splits)
qed

lemma host_keys: "\<not> strcaseeq ''Host'' ''Transfer-Encoding''" "\<not> strcaseeq ''Host'' ''Content-Length''"
  "\<not> strcaseeq ''Content-Length'' ''Transfer-Encoding''"
  by (simp_all add: strcaseeq_def str_lower_def)

section \<open>What the hooks get\<close>

definition te_ok :: "'t table_ops \<Rightarrow> 't vhost_request \<Rightarrow> bool" where
  "te_ok T r \<longleftrightarrow>
    (case apr_table_get T (headers_in r) ''Transfer-Encoding'' of
       None \<Rightarrow> True
     | Some tenc \<Rightarrow> (strcaseeq tenc ''chunked'' \<or> ap_find_last_token (Some tenc) ''chunked'') \<and>
         apr_table_get T (headers_in r) ''Content-Length'' = None)"

definition host_ok :: "('s, 't) reader \<Rightarrow> 't vhost_request \<Rightarrow> bool" where
  "host_ok rd r \<longleftrightarrow>
    (HTTP_VERSION 1 1 \<le> proto_num r \<longrightarrow> hostname r \<noteq> None) \<and>
    (proto_num r = HTTP_VERSION 1 1 \<longrightarrow> apr_table_get (tabs rd) (headers_in r) ''Host'' \<noteq> None) \<and>
    (\<forall>h. hostname r = Some h \<longrightarrow> host_sane h \<and> (strict (core_config rd) \<longrightarrow> host_strict h))"

lemma finish_request_served:
  assumes "table_laws (tabs rd)" and "finish_request rd c r = Served r' e" and "te_ok (tabs rd) r"
  shows "\<exists>q. post_read_request rd q = (OK, r') \<and> status q = HTTP_OK \<and> te_ok (tabs rd) q \<and> host_ok rd q"
proof -
  define q where "q = ap_update_vhost_from_headers (tabs rd) (addr_parse rd) (strict (core_config rd)) c r"
  obtain a where f: "find_host rd c r = (a, q)" "a = HTTP_OK"
    "\<not> ((hostname q = None \<and> proto_num q \<ge> HTTP_VERSION 1 1) \<or>
       (proto_num q = HTTP_VERSION 1 1 \<and> apr_table_get (tabs rd) (headers_in q) ''Host'' = None))" "status q = HTTP_OK"
    using assms(2) by (auto simp: finish_request_def find_host_def Let_def q_def split: prod.splits if_splits)
  have "post_read_request rd q = (OK, r')"
    using assms(2) f(1,2) by (auto simp: finish_request_def split: prod.splits if_splits option.splits)
  moreover have "te_ok (tabs rd) q"
    using assms(3) update_vhost_keeps(2) [OF assms(1) q_def [symmetric] host_keys(1)]
      update_vhost_keeps(2) [OF assms(1) q_def [symmetric] host_keys(2)] by (simp add: te_ok_def split: option.splits)
  moreover have "host_ok rd q"
    using f(3,4) hostname_harmless [of "tabs rd" "addr_parse rd" "strict (core_config rd)" c r q] q_def by (auto simp: host_ok_def)
  ultimately show ?thesis using f(4) by blast
qed

lemma check_te_ok:
  "table_laws T \<Longrightarrow> check_transfer_encoding T r = (True, r') \<Longrightarrow> te_ok T r'"
  using host_keys(3) by (auto simp: check_transfer_encoding_def te_ok_def table_unset split: option.splits if_splits)

text \<open>
  C1: Every request that reaches the handlers has an unambiguous body and a host. Whatever bytes the client sent, when \<open>ap_read_request\<close> returns a request to
  handle, the hooks that ran before had accepted one with status 200 in which: if there is a \<open>Transfer-Encoding\<close>, it ends in
  \<open>chunked\<close> and there is no \<open>Content-Length\<close>, so that its body cannot be delimited in two ways; from HTTP/1.1 on
  there is a host name, and for HTTP/1.1 itself a \<open>Host\<close> field; and the host name is harmless in the sense of \<open>hostname_harmless\<close>.\<close>

theorem served_request_unambiguous:
  assumes "table_laws (tabs rd)" and "apr_table_elts (tabs rd) (make_table rd) = []"
    and "ap_read_request rd c s = Some (Served r e, s')"
  shows "\<exists>q. post_read_request rd q = (OK, r) \<and> status q = HTTP_OK \<and> te_ok (tabs rd) q \<and> host_ok rd q"
proof -
  obtain r0 s0 where l: "read_request_line (core_config rd) (registry rd) (uri_parse rd) (ap_http_scheme rd)
        (rgetline rd (limit_req_line rd + 2) (strict (core_config rd))) s new_request = ((True, r0), s0)"
    using assms(3) by (auto simp: ap_read_request_def failed_request_line_def split: prod.splits bool.splits if_splits)
  show ?thesis
  proof (cases "assbackwards r0")
    case True
    have "te_ok (tabs rd) (with_headers rd c r0)"
      using table_get [OF assms(1), of "make_table rd"] assms(2)
      by (simp add: te_ok_def with_headers_def request.defs vhost_request.defs split: prod.split)
    then show ?thesis using finish_request_served [OF assms(1)] assms(3) l True by (auto simp: ap_read_request_def)
  next
    case False
    then have "read_headers rd c s0 (with_headers rd c r0) = Some (Served r e, s')" using assms(3) l by (simp add: ap_read_request_def)
    then obtain r1 r2 where "check_transfer_encoding (tabs rd) r1 = (True, r2)" "finish_request rd c r2 = Served r e"
    proof -
      obtain st note1 t where "(let r = (with_headers rd c r0)\<lparr>headers_in := t, status := (if st = HTTP_OK then status (with_headers rd c r0) else st)\<rparr> in
          (if status r \<noteq> HTTP_OK then Answered r
           else case check_transfer_encoding (tabs rd) r of (False, r) \<Rightarrow> Answered r | (True, r) \<Rightarrow> finish_request rd c r, s')) = (Served r e, s')"
        using \<open>read_headers _ _ _ _ = _\<close> unfolding read_headers_def by (auto simp: Let_def)
      then show thesis
        by (auto simp: Let_def intro: that split: if_splits prod.splits bool.splits)
    qed
    then show ?thesis using finish_request_served [OF assms(1)] check_te_ok [OF assms(1)] by blast
  qed
qed

definition example_reader :: "(string list, (string \<times> string) list) reader" where
  "example_reader = \<lparr>core_config = \<lparr>strict = True, http09_enable = False, registered_methods = True\<rparr>, registry = registry_start,
     uri_parse = (\<lambda>_ s. Some (no_uri\<lparr>path := Some s\<rparr>)), uri_port = (\<lambda>_. (0, None)), ap_http_scheme = ''http'', addr_parse = example_parse,
     rgetline = (\<lambda>_ _. next_line), limits = example_limits, limit_req_line = 8190, tabs = list_tables, make_table = [],
     post_read_request = (\<lambda>r. (0, r))\<rparr>"

definition example_line_request :: request where
  "example_line_request = \<lparr>the_request = ''GET / HTTP/1.1'', meth = ''GET'', method_number = 0, header_only = False, protocol = ''HTTP/1.1'',
     proto_num = 1001, assbackwards = False, unparsed_uri = ''/'', uri = ''/'', args = None, hostname = None,
     parsed_uri = no_uri\<lparr>path := Some ''/''\<rparr>, status = 200, keepalive_close = False\<rparr>"

lemma example_line:
  "read_request_line (core_config example_reader) registry_start (\<lambda>_ s. Some (no_uri\<lparr>path := Some s\<rparr>)) ''http'' next_line
    [''GET / HTTP/1.1'', ''Host:B'', []] new_request = ((True, example_line_request), [''Host:B'', []])"
  by code_simp

lemma example_headers:
  "(case read_headers example_reader example_conn [''Host:B'', []] (with_headers example_reader example_conn example_line_request) of
      Some (Served r e, s) \<Rightarrow> hostname r = Some ''b'' \<and> \<not> e \<and> s = [] | _ \<Rightarrow> False)"
  by code_simp

theorem served_request_unambiguous_witness:
  "\<exists>r. ap_read_request example_reader example_conn [''GET / HTTP/1.1'', ''Host:B'', []] = Some (Served r False, []) \<and>
    hostname r = Some ''b'' \<and> te_ok list_tables r"
proof -
  have "ap_read_request example_reader example_conn [''GET / HTTP/1.1'', ''Host:B'', []] =
      read_headers example_reader example_conn [''Host:B'', []] (with_headers example_reader example_conn example_line_request)"
    using example_line by (simp add: ap_read_request_def example_reader_def) (simp add: example_line_request_def)
  then obtain r where r: "ap_read_request example_reader example_conn [''GET / HTTP/1.1'', ''Host:B'', []] = Some (Served r False, [])"
    "hostname r = Some ''b''"
    using example_headers
    by (cases "fst (the (read_headers example_reader example_conn [''Host:B'', []] (with_headers example_reader example_conn example_line_request)))")
      (auto split: option.splits)
  moreover have "te_ok list_tables r"
    using served_request_unambiguous [OF _ _ r(1)] list_tables_laws by (auto simp: example_reader_def list_tables_def)
  ultimately show ?thesis by blast
qed

end
