(* ===== verification/Entity_Tags.thy ===== *)
theory Entity_Tags
  imports Read_Request Chunked Field_Lists
begin

unbundle bit_operations_syntax

text \<open>
  Entity tags: \<^verbatim>\<open>modules/http/http_etag.c\<close>, which makes the \<open>ETag\<close> of a response from the attributes of its file, and what the
  search for a tag in a list of tags (\<open>ap_find_etag_weak\<close> of \<^verbatim>\<open>server/util.c\<close>, in \<open>Field_Lists\<close>) finds. A request with the fields that
  belong to its response is the record \<open>response\<close>, which \<open>Responses\<close> shares.
\<close>

section \<open>The request and its response\<close>

text \<open>The \<open>apr_finfo_t\<close> of the file, as far as it is used, with the numbers converted as the calls convert them.\<close>

record finfo =
  is_file :: bool
  inode :: "64 word"
  fsize :: "64 word"

text \<open>The settings of \<open>FileETag\<close> in \<open>core_dir_config\<close>.\<close>

record etag_config =
  etag_bits :: "64 word"
  etag_add :: "64 word"
  etag_remove :: "64 word"

record 't response = "'t vhost_request" +
  headers_out :: 't
  request_notes :: 't
  subprocess_env :: 't
  etag_conf :: etag_config
  mtime :: int
  request_time :: int
  file_info :: finfo
  vlist_validator :: "string option"
  no_local_copy :: bool
  expecting_100 :: bool
  send_chunked :: bool

definition ETAG_NONE :: "64 word" where "ETAG_NONE = 1"
definition ETAG_MTIME :: "64 word" where "ETAG_MTIME = 2"
definition ETAG_INODE :: "64 word" where "ETAG_INODE = 4"
definition ETAG_SIZE :: "64 word" where "ETAG_SIZE = 8"
definition ETAG_BACKWARD :: "64 word" where "ETAG_BACKWARD = ETAG_MTIME OR ETAG_SIZE"

section \<open>Making a tag\<close>

text \<open>\<open>etag_uint64_to_hex\<close>: the loop over the digits from bit 60 down to bit 4, and the last digit, which is always written.\<close>

definition HEX_DIGITS :: string where "HEX_DIGITS = ''0123456789abcdef''"

primrec hex_loop :: "nat \<Rightarrow> bool \<Rightarrow> 64 word \<Rightarrow> string" where
  "hex_loop 0 printing u = []"
| "hex_loop (Suc n) printing u =
    (let next_digit = unat (drop_bit (4 * Suc n) u AND 0xf) in
     if next_digit \<noteq> 0 then HEX_DIGITS ! next_digit # hex_loop n True u
     else if printing then HEX_DIGITS ! next_digit # hex_loop n printing u
     else hex_loop n printing u)"

definition etag_uint64_to_hex :: "64 word \<Rightarrow> string" where
  "etag_uint64_to_hex u = hex_loop 15 False u @ [HEX_DIGITS ! unat (u AND 0xf)]"

definition etag_used_bits :: "etag_config \<Rightarrow> 64 word" where
  "etag_used_bits cfg = (etag_bits cfg AND NOT (etag_remove cfg)) OR etag_add cfg"

text \<open>What stands between the quotes for a file; \<open>bits_added\<close> is nonzero once a part has been written.\<close>

definition file_tag :: "64 word \<Rightarrow> finfo \<Rightarrow> 64 word \<Rightarrow> string" where
  "file_tag bits f mt =
    (let tag = (if bits AND ETAG_INODE \<noteq> 0 then etag_uint64_to_hex (inode f) else []);
         bits_added = (if bits AND ETAG_INODE \<noteq> 0 then ETAG_INODE else 0);
         tag = (if bits AND ETAG_SIZE \<noteq> 0
                then tag @ (if bits_added \<noteq> 0 then ''-'' else []) @ etag_uint64_to_hex (fsize f) else tag);
         bits_added = (if bits AND ETAG_SIZE \<noteq> 0 then bits_added OR ETAG_SIZE else bits_added)
     in if bits AND ETAG_MTIME \<noteq> 0
        then tag @ (if bits_added \<noteq> 0 then ''-'' else []) @ etag_uint64_to_hex mt else tag)"

definition ap_make_etag :: "'t table_ops \<Rightarrow> 't response \<Rightarrow> bool \<Rightarrow> string \<times> 't response" where
  "ap_make_etag T r force_weak =
    (let bits = etag_used_bits (etag_conf r) in
     if bits AND ETAG_NONE \<noteq> 0 then ([], r\<lparr>request_notes := apr_table_set T (request_notes r) ''no-etag'' ''omit''\<rparr>)
     else
       let bits = (if bits = 0 then ETAG_BACKWARD else bits);
           weak = (if request_time r - mtime r > 1000000 \<and> \<not> force_weak then [] else ''W/'');
           mt = word_of_int (mtime r)
       in (weak @ [CHR 0x22] @
           (if is_file (file_info r) then file_tag bits (file_info r) mt else etag_uint64_to_hex mt) @ [CHR 0x22], r))"

text \<open>With a variant list validator the two tags are merged; the first bytes of the validator, \<open>W/"\<close> or \<open>"\<close>, are skipped.\<close>

definition ap_set_etag :: "'t table_ops \<Rightarrow> 't response \<Rightarrow> 't response" where
  "ap_set_etag T r =
    (case vlist_validator r of
       None \<Rightarrow>
         (case ap_make_etag T r False of (etag, r) \<Rightarrow>
            if etag = [] then r else r\<lparr>headers_out := apr_table_set T (headers_out r) ''ETag'' etag\<rparr>)
     | Some vlv \<Rightarrow>
         let vlv_weak = (peek vlv = CHR ''W'') in
         (case ap_make_etag T r vlv_weak of (variant_etag, r) \<Rightarrow>
            if variant_etag = [] then r
            else r\<lparr>headers_out := apr_table_set T (headers_out r) ''ETag''
              (butlast variant_etag @ '';'' @ (if vlv_weak then drop 3 vlv else drop 1 vlv))\<rparr>))"

section \<open>The hexadecimal numbers\<close>

lemma hex_digit_char: "d < 16 \<Longrightarrow> HEX_DIGITS ! d = hex_char d"
proof -
  assume "d < 16"
  then have "d \<in> set [0..<16]" by simp
  moreover have "\<forall>d\<in>set [0..<16]. HEX_DIGITS ! d = hex_char d" by code_simp
  ultimately show ?thesis by blast
qed

lemma low_digit: "unat (w AND 0xf :: 64 word) = unat w mod 16"
proof -
  have "w AND 0xf = take_bit 4 w" by (simp add: take_bit_eq_mask mask_eq_exp_minus_1)
  then have "unat (w AND 0xf) = take_bit 4 (unat w)" by (simp only: unsigned_take_bit_eq)
  then show ?thesis by (simp add: take_bit_eq_mod)
qed

lemma digit_at: "unat (drop_bit (4 * n) u AND 0xf :: 64 word) = unat u div 16 ^ n mod 16"
proof -
  have "unat (drop_bit (4 * n) u) = take_bit (64 - 4 * n) (drop_bit (4 * n) (unat u))"
    by (simp add: unsigned_drop_bit_eq drop_bit_take_bit)
  also have "\<dots> = drop_bit (4 * n) (unat u)"
  proof -
    have "unat u < 2 ^ 64" using unsigned_less [of u, where 'a = nat] by simp
    then have "take_bit 64 (unat u) = unat u" by (simp add: take_bit_nat_eq_self)
    then show ?thesis by (metis drop_bit_take_bit)
  qed
  finally show ?thesis by (simp only: low_digit drop_bit_eq_div power_mult) simp
qed

lemma mod_16_Suc: "(v :: nat) mod 16 ^ Suc n = v div 16 ^ n mod 16 * 16 ^ n + v mod 16 ^ n"
  by (metis add.commute mod_mult2_eq mult.commute power_Suc2)

lemma chunk_value_append: "foldl (\<lambda>n c. n * 16 + the (chunk_digit c)) a ds = a * 16 ^ length ds + chunk_value ds"
proof (induction ds rule: rev_induct)
  case (snoc c ds)
  then show ?case by (simp add: chunk_value_def algebra_simps)
qed (simp add: chunk_value_def)

lemma chunk_value_Cons: "chunk_value (c # ds) = the (chunk_digit c) * 16 ^ length ds + chunk_value ds"
  using chunk_value_append [of "the (chunk_digit c)" ds] by (simp add: chunk_value_def)

lemma hex_loop_value:
  "(printing \<longrightarrow> length (hex_loop n printing u) = n) \<and>
   chunk_value (hex_loop n printing u @ [HEX_DIGITS ! unat (u AND 0xf)]) = unat u mod 16 ^ Suc n"
proof (induction n arbitrary: printing)
  case 0
  then show ?case using hex_char_props(2) [of "unat u mod 16"]
    by (simp add: low_digit hex_digit_char chunk_value_def)
next
  case (Suc n)
  define d where "d = unat u div 16 ^ Suc n mod 16"
  have d: "unat (drop_bit (4 * Suc n) u AND 0xf) = d" unfolding d_def by (rule digit_at)
  have "d < 16" by (simp add: d_def)
  then have c: "the (chunk_digit (HEX_DIGITS ! d)) = d" using hex_char_props(2) by (simp add: hex_digit_char)
  have m: "unat u mod 16 ^ Suc (Suc n) = d * 16 ^ Suc n + unat u mod 16 ^ Suc n"
    unfolding d_def by (rule mod_16_Suc)
  show ?case
  proof (cases "d \<noteq> 0 \<or> printing")
    case True
    then have "hex_loop (Suc n) printing u = HEX_DIGITS ! d # hex_loop n True u"
      by (cases "d = 0") (simp_all only: hex_loop.simps d Let_def if_True if_False not_True_eq_False simp_thms)
    then show ?thesis using Suc.IH [of True] c m by (simp only: append_Cons chunk_value_Cons list.size) simp
  next
    case False
    then have "d = 0" "\<not> printing" by simp_all
    then have "hex_loop (Suc n) printing u = hex_loop n False u" by (simp only: hex_loop.simps d Let_def if_False simp_thms)
    then show ?thesis using Suc.IH [of False] m False by (simp del: hex_loop.simps)
  qed
qed

lemma hex_value: "chunk_value (etag_uint64_to_hex u) = unat u"
proof -
  have "unat u < 16 ^ 16" using unsigned_less [of u, where 'a = nat] by simp
  then show ?thesis using hex_loop_value [of False 15 u] by (simp add: etag_uint64_to_hex_def)
qed

lemma hex_inject: "etag_uint64_to_hex u = etag_uint64_to_hex v \<longleftrightarrow> u = v"
  by (metis hex_value word_unat_eq_iff)

definition tag_char :: "char \<Rightarrow> bool" where
  "tag_char c \<longleftrightarrow> c \<noteq> NUL \<and> c \<noteq> CHR 0x22 \<and> c \<noteq> CHR 0x5C"

lemma hex_loop_xdigits: "list_all c_isxdigit (hex_loop n printing u)"
proof (induction n arbitrary: printing)
  case (Suc n)
  have "unat (drop_bit (4 * Suc n) u AND 0xf) < 16" unfolding digit_at by simp
  then show ?case using Suc hex_char_props(1)
    by (simp only: hex_loop.simps Let_def) (simp del: hex_loop.simps add: hex_digit_char)
qed simp

lemma hex_xdigits: "list_all c_isxdigit (etag_uint64_to_hex u)"
  using hex_loop_xdigits [of 15 False u] hex_char_props(1) [of "unat u mod 16"]
  by (simp add: etag_uint64_to_hex_def low_digit hex_digit_char)

lemma xdigit_tag_char: "c_isxdigit c \<Longrightarrow> tag_char c \<and> c \<noteq> CHR ''-''"
  by (auto simp: tag_char_def cclass)

lemma file_tag_chars: "list_all tag_char (file_tag bits f mt)"
proof -
  have "list_all tag_char (etag_uint64_to_hex u)" for u
    using hex_xdigits [of u] xdigit_tag_char by (auto simp: list_all_iff)
  moreover have "tag_char (CHR ''-'')" by (simp add: tag_char_def)
  ultimately show ?thesis by (simp add: file_tag_def Let_def)
qed

lemma dash_split:
  assumes "list_all c_isxdigit a" "list_all c_isxdigit b"
  shows "a @ CHR ''-'' # r = b @ CHR ''-'' # s \<longleftrightarrow> a = b \<and> r = s"
proof -
  have "takeWhile (\<lambda>c. c \<noteq> CHR ''-'') (x @ CHR ''-'' # t) = x" if "list_all c_isxdigit x" for x t
    using that xdigit_tag_char by (induction x) auto
  then show ?thesis using assms by (metis same_append_eq list.inject)
qed

text \<open>Two versions of a file agree in every attribute that the tag is made of.\<close>

definition same_version :: "64 word \<Rightarrow> finfo \<Rightarrow> 64 word \<Rightarrow> finfo \<Rightarrow> 64 word \<Rightarrow> bool" where
  "same_version bits f mt f' mt' \<longleftrightarrow>
    (bits AND ETAG_INODE \<noteq> 0 \<longrightarrow> inode f = inode f') \<and> (bits AND ETAG_SIZE \<noteq> 0 \<longrightarrow> fsize f = fsize f') \<and>
    (bits AND ETAG_MTIME \<noteq> 0 \<longrightarrow> mt = mt')"

lemma file_tag_inject: "file_tag bits f mt = file_tag bits f' mt' \<longleftrightarrow> same_version bits f mt f' mt'"
proof -
  have nz: "ETAG_INODE \<noteq> 0" "ETAG_SIZE \<noteq> 0" "ETAG_INODE OR ETAG_SIZE \<noteq> 0"
    by (simp_all add: ETAG_INODE_def ETAG_SIZE_def)
  show ?thesis
    unfolding file_tag_def same_version_def Let_def
    by (cases "bits AND ETAG_INODE = 0"; cases "bits AND ETAG_SIZE = 0"; cases "bits AND ETAG_MTIME = 0")
      (simp_all add: nz hex_inject dash_split hex_xdigits)
qed

section \<open>A tag in a list of tags\<close>

text \<open>A list of tags as a client sends it back: weak or strong, with what stands between the quotes.\<close>

definition tag_text :: "bool \<times> string \<Rightarrow> string" where
  "tag_text t = (if fst t then ''W/'' else []) @ [CHR 0x22] @ snd t @ [CHR 0x22]"

abbreviation quoted_flags :: list_flags where
  "quoted_flags \<equiv> no_flags\<lparr>in_qstr := True\<rparr>"

lemma tag_char_step:
  "tag_char c \<Longrightarrow> flags_step quoted_flags c = quoted_flags \<and> in_item quoted_flags c \<and> emit_char 0 quoted_flags c = (0, [(c, False)])"
  by (auto simp: tag_char_def flags_step_def in_item_def no_flags_def emit_char_def Let_def)

lemma quote_steps:
  "in_item f (CHR 0x22)" "flags_step no_flags (CHR 0x22) = quoted_flags" "flags_step quoted_flags (CHR 0x22) = no_flags"
  "emit_char 0 no_flags (CHR 0x22) = (0, [(CHR 0x22, False)])" "emit_char 0 quoted_flags (CHR 0x22) = (0, [(CHR 0x22, False)])"
  by (auto simp: in_item_def flags_step_def no_flags_def emit_char_def Let_def)

lemma comma_ends: "\<not> in_item no_flags (CHR '','')"
  by (simp add: in_item_def no_flags_def)

lemma quoted_rest:
  assumes "list_all tag_char b" "r = [] \<or> hd r = CHR '',''"
  shows "item_end quoted_flags (b @ CHR 0x22 # r) = length b + 1 \<and>
    canonical 0 quoted_flags (b @ CHR 0x22 # r) = map (\<lambda>c. (c, False)) (b @ [CHR 0x22])"
  using assms(1)
proof (induction b)
  case Nil
  then show ?case using assms(2) by (cases r) (auto simp: quote_steps comma_ends)
next
  case (Cons c b)
  then show ?case using tag_char_step [of c] by simp
qed

lemma quoted_item:
  assumes "list_all tag_char b" "r = [] \<or> hd r = CHR '',''"
  shows "item_end no_flags (CHR 0x22 # b @ CHR 0x22 # r) = length b + 2"
    and "canonical 0 no_flags (CHR 0x22 # b @ CHR 0x22 # r) = map (\<lambda>c. (c, False)) (CHR 0x22 # b @ [CHR 0x22])"
  using quoted_rest [OF assms] by (simp_all add: quote_steps)

lemma same_string: "list_all2 same_char s (map (\<lambda>c. (c, False)) t) \<longleftrightarrow> s = t"
  by (simp add: list_all2_map2 same_char_def list.rel_eq)

lemma tag_scan:
  assumes "list_all tag_char b" "list_all tag_char b'" "r = [] \<or> hd r = CHR '',''" "a \<noteq> 1"
  shows "\<exists>a' f good pos. find_scan a no_flags (True, CHR 0x22 # b' @ [CHR 0x22]) (CHR 0x22 # b @ CHR 0x22 # r) =
      ((a', f), (good, pos), r) \<and> (good \<and> peek pos = NUL \<longleftrightarrow> b = b') \<and> a' \<noteq> 1 \<and> (r \<noteq> [] \<longrightarrow> f = no_flags)"
proof -
  let ?q = "CHR 0x22 # b @ CHR 0x22 # r" and ?tok = "CHR 0x22 # b' @ [CHR 0x22]"
  note q = quoted_item [OF assms(1,3)]
  obtain a' f good pos r' where s: "find_scan a no_flags (True, ?tok) ?q = ((a', f), (good, pos), r')"
    by (metis prod.exhaust)
  have r': "r' = r" using find_scan_rest [of a no_flags "(True, ?tok)" ?q] unfolding s q(1) by simp
  have q0: "?q \<noteq> []" "\<not> separator (hd ?q)" by (simp_all add: separator_def cclass)
  have c: "canonical a no_flags ?q = map (\<lambda>c. (c, False)) (CHR 0x22 # b @ [CHR 0x22])"
    unfolding canonical_start [OF assms(4) q0] by (rule q(2))
  have f: "feed (map (\<lambda>c. (c, False)) (CHR 0x22 # b @ [CHR 0x22])) (True, ?tok) = (good, pos)"
    using find_scan_feed [of a no_flags ?tok ?q] unfolding c s by simp
  have cs: "cstring ?tok" using assms(2) by (auto simp: cstring_def tag_char_def list_all_iff)
  have nn: "list_all (\<lambda>e. fst e \<noteq> NUL) (map (\<lambda>c. (c, False)) (CHR 0x22 # b @ [CHR 0x22]))"
    using assms(1) by (auto simp: tag_char_def list_all_iff)
  have g: "(good \<and> peek pos = NUL) \<longleftrightarrow> b = b'"
    using feed_matches [OF cs nn f] unfolding same_string by auto
  have a': "a' \<noteq> 1"
  proof (rule find_scan_addspace [OF _ s])
    show "item_end no_flags ?q \<noteq> 0 \<longrightarrow> \<not> blank_char (?q ! (item_end no_flags ?q - 1))"
      unfolding q(1) by (simp add: nth_append blank_char_def)
  next
    show "a = 1 \<longrightarrow> True \<and> no_flags = no_flags" "item_end no_flags ?q = 0 \<longrightarrow> a \<noteq> 1" using assms(4) by blast+
  qed
  have "r \<noteq> [] \<longrightarrow> f = no_flags" using find_scan_flags [OF s] r' by simp
  then show ?thesis using s [unfolded r'] g a' by blast
qed

lemma tag_text_start:
  "etag_start AP_ETAG_WEAK (dropWhile separator (tag_text t @ r)) = Some (CHR 0x22 # snd t @ CHR 0x22 # r)"
proof -
  have n: "\<not> separator (CHR 0x22)" "\<not> separator (CHR ''W'')" by (simp_all add: separator_def cclass)
  have d: "dropWhile separator (tag_text t @ r) = tag_text t @ r" by (simp add: tag_text_def n)
  show ?thesis unfolding d
    by (cases "fst t") (auto simp: tag_text_def etag_start_def weak_tag_iff)
qed

lemma find_tag_step:
  assumes "list_all tag_char (snd t)" "list_all tag_char b" "r = [] \<or> hd r = CHR '',''" "a \<noteq> 1"
  shows "\<exists>a'. a' \<noteq> 1 \<and> find_items AP_ETAG_WEAK (CHR 0x22 # b @ [CHR 0x22]) a no_flags (tag_text t @ r) =
    (snd t = b \<or> r \<noteq> [] \<and> find_items AP_ETAG_WEAK (CHR 0x22 # b @ [CHR 0x22]) a' no_flags r)"
proof -
  let ?tok = "CHR 0x22 # b @ [CHR 0x22]"
  obtain a' f good pos where s: "find_scan a no_flags (True, ?tok) (CHR 0x22 # snd t @ CHR 0x22 # r) = ((a', f), (good, pos), r)"
    and g: "good \<and> peek pos = NUL \<longleftrightarrow> snd t = b" and a': "a' \<noteq> 1" and f: "r \<noteq> [] \<longrightarrow> f = no_flags"
    using tag_scan [OF assms] by blast
  have "find_items AP_ETAG_WEAK ?tok a no_flags (tag_text t @ r) =
      (if r \<noteq> [] \<and> snd t \<noteq> b then find_items AP_ETAG_WEAK ?tok a' f r else snd t = b)"
    unfolding find_items.simps [of AP_ETAG_WEAK ?tok a no_flags] tag_text_start option.case if_not_P [OF list.discI [OF refl]]
      s prod.case Let_def g ..
  then show ?thesis using a' f by auto
qed

lemma comma_join_Cons: "comma_join (v # vs) = v @ (if vs = [] then [] else '', '' @ comma_join vs)"
  by (cases vs) simp_all

lemma find_tag_list:
  assumes "list_all (\<lambda>t. list_all tag_char (snd t)) ts" "list_all tag_char b" "a \<noteq> 1"
  shows "find_items AP_ETAG_WEAK (CHR 0x22 # b @ [CHR 0x22]) a no_flags (comma_join (map tag_text ts)) \<longleftrightarrow> b \<in> snd ` set ts"
  using assms(1,3)
proof (induction ts arbitrary: a)
  case Nil
  have "etag_start AP_ETAG_WEAK [] = None" by (simp add: etag_start_def weak_tag_iff)
  then show ?case by (simp add: find_items.simps [of _ _ _ _ "[]"])
next
  case (Cons t ts)
  let ?tok = "CHR 0x22 # b @ [CHR 0x22]" and ?r = "if ts = [] then [] else '', '' @ comma_join (map tag_text ts)"
  have r: "?r = [] \<or> hd ?r = CHR '',''" "?r = [] \<longleftrightarrow> ts = []" by simp_all
  obtain a' where a': "a' \<noteq> 1" "find_items AP_ETAG_WEAK ?tok a no_flags (tag_text t @ ?r) =
      (snd t = b \<or> ?r \<noteq> [] \<and> find_items AP_ETAG_WEAK ?tok a' no_flags ?r)"
    using find_tag_step [OF _ assms(2) r(1) Cons.prems(2), of t] Cons.prems(1) by auto
  have "find_items AP_ETAG_WEAK ?tok a' no_flags ?r \<longleftrightarrow> b \<in> snd ` set ts" if ne: "ts \<noteq> []"
  proof -
    have "dropWhile separator ?r = dropWhile separator (comma_join (map tag_text ts))"
      using ne by (simp add: separator_def cclass)
    then have "find_items AP_ETAG_WEAK ?tok a' no_flags ?r = find_items AP_ETAG_WEAK ?tok a' no_flags (comma_join (map tag_text ts))"
      using items_skip(2) by metis
    then show ?thesis using Cons.IH [OF _ a'(1)] Cons.prems(1) by simp
  qed
  then have "find_items AP_ETAG_WEAK ?tok a no_flags (tag_text t @ ?r) \<longleftrightarrow> b \<in> snd ` set (t # ts)"
    using a'(2) r(2) by auto
  moreover have "comma_join (map tag_text (t # ts)) = tag_text t @ ?r" by (simp add: comma_join_Cons)
  ultimately show ?case by simp
qed

lemma find_weak_tag:
  assumes "list_all (\<lambda>t. list_all tag_char (snd t)) ts" "list_all tag_char (snd t)"
  shows "ap_find_etag_weak (Some (comma_join (map tag_text ts))) (Some (tag_text t)) \<longleftrightarrow> snd t \<in> snd ` set ts"
proof -
  have w: "weak_tag (tag_text t) = fst t" "(if fst t then drop 2 (tag_text t) else tag_text t) = CHR 0x22 # snd t @ [CHR 0x22]"
    "\<not> fst t \<longrightarrow> peek (tag_text t) = CHR 0x22"
    by (auto simp: tag_text_def weak_tag_iff)
  show ?thesis
    unfolding ap_find_etag_weak_def find_list_item_def option.case prod.case w(1)
    using w(2,3) find_tag_list [OF assms, of 0] by (cases "fst t") simp_all
qed

end
