(* ===== verification/Responses.thy ===== *)
theory Responses
  imports Entity_Tags Byterange
begin

text \<open>
  What \<^verbatim>\<open>modules/http/http_protocol.c\<close> decides about a response: whether a conditional request is answered with the document,
  with 304 or with 412 (\<open>ap_meets_conditions\<close> and the five conditions), and whether the connection stays open
  (\<open>ap_set_keepalive\<close>). Dates are parsed by APR-util and the clock is the system's: both are arguments. Times are microseconds.
\<close>

section \<open>Conditions\<close>

text \<open>The kinds of a match, in the order of the enumeration, by which the code compares them.\<close>

datatype ap_condition_e = AP_CONDITION_NONE | AP_CONDITION_NOMATCH | AP_CONDITION_WEAK | AP_CONDITION_STRONG

primrec condition_code :: "ap_condition_e \<Rightarrow> nat" where
  "condition_code AP_CONDITION_NONE = 0"
| "condition_code AP_CONDITION_NOMATCH = 1"
| "condition_code AP_CONDITION_WEAK = 2"
| "condition_code AP_CONDITION_STRONG = 3"

instantiation ap_condition_e :: linorder
begin

definition less_eq_ap_condition_e :: "ap_condition_e \<Rightarrow> ap_condition_e \<Rightarrow> bool" where
  "less_eq_ap_condition_e a b \<longleftrightarrow> condition_code a \<le> condition_code b"

definition less_ap_condition_e :: "ap_condition_e \<Rightarrow> ap_condition_e \<Rightarrow> bool" where
  "less_ap_condition_e a b \<longleftrightarrow> condition_code a < condition_code b"

instance
proof
  fix a b c :: ap_condition_e
  show "a = b" if "a \<le> b" "b \<le> a"
    using that by (cases a; cases b) (simp_all add: less_eq_ap_condition_e_def)
qed (auto simp: less_eq_ap_condition_e_def less_ap_condition_e_def)

end

lemmas condition_order = less_eq_ap_condition_e_def less_ap_condition_e_def

record clock =
  apr_date_parse_http :: "string option \<Rightarrow> int"
  apr_time_now :: int

definition APR_DATE_BAD :: int where "APR_DATE_BAD = 0"

text \<open>Division of C truncates towards zero.\<close>

definition apr_time_sec :: "int \<Rightarrow> int" where
  "apr_time_sec t = (if t < 0 then - ((- t) div 1000000) else t div 1000000)"

text \<open>The seconds that the three comparisons of dates begin with: when the document was modified and when it is sent.\<close>

definition modified_sec :: "'t table_ops \<Rightarrow> clock \<Rightarrow> 't response \<Rightarrow> 't \<Rightarrow> int" where
  "modified_sec T k r headers =
    (let mt = apr_time_sec (apr_date_parse_http k (apr_table_get T headers ''Last-Modified'')) in
     if mt = APR_DATE_BAD then apr_time_sec (if mtime r \<noteq> 0 then mtime r else apr_time_now k) else mt)"

definition sent_sec :: "'t table_ops \<Rightarrow> clock \<Rightarrow> 't response \<Rightarrow> 't \<Rightarrow> int" where
  "sent_sec T k r headers =
    (let reqtime = apr_time_sec (apr_date_parse_http k (apr_table_get T headers ''Date'')) in
     if reqtime = 0 then apr_time_sec (request_time r) else reqtime)"

definition ap_condition_if_match :: "'t table_ops \<Rightarrow> 't response \<Rightarrow> 't \<Rightarrow> ap_condition_e" where
  "ap_condition_if_match T r headers =
    (case apr_table_get T (headers_in r) ''If-Match'' of
       None \<Rightarrow> AP_CONDITION_NONE
     | Some if_match \<Rightarrow>
         if peek if_match = CHR ''*'' \<or>
           (case apr_table_get T headers ''ETag'' of None \<Rightarrow> False | Some etag \<Rightarrow> ap_find_etag_strong (Some if_match) (Some etag))
         then AP_CONDITION_STRONG else AP_CONDITION_NOMATCH)"

definition ap_condition_if_unmodified_since :: "'t table_ops \<Rightarrow> clock \<Rightarrow> 't response \<Rightarrow> 't \<Rightarrow> ap_condition_e" where
  "ap_condition_if_unmodified_since T k r headers =
    (case apr_table_get T (headers_in r) ''If-Unmodified-Since'' of
       None \<Rightarrow> AP_CONDITION_NONE
     | Some if_unmodified \<Rightarrow>
         let ius = apr_time_sec (apr_date_parse_http k (Some if_unmodified));
             mt = modified_sec T k r headers; reqtime = sent_sec T k r headers
         in if ius \<noteq> APR_DATE_BAD \<and> mt > ius then
              if reqtime < mt + 60 then
                (if apr_table_get T (headers_in r) ''Range'' \<noteq> None then AP_CONDITION_NOMATCH else AP_CONDITION_WEAK)
              else AP_CONDITION_STRONG
            else AP_CONDITION_NOMATCH)"

definition ap_condition_if_none_match :: "'t table_ops \<Rightarrow> 't response \<Rightarrow> 't \<Rightarrow> ap_condition_e" where
  "ap_condition_if_none_match T r headers =
    (case apr_table_get T (headers_in r) ''If-None-Match'' of
       None \<Rightarrow> AP_CONDITION_NONE
     | Some if_nonematch \<Rightarrow>
         if peek if_nonematch = CHR ''*'' then AP_CONDITION_STRONG
         else case apr_table_get T headers ''ETag'' of
             None \<Rightarrow> AP_CONDITION_NOMATCH
           | Some etag \<Rightarrow>
               if method_number r = M_GET then
                 if apr_table_get T (headers_in r) ''Range'' \<noteq> None then
                   (if ap_find_etag_strong (Some if_nonematch) (Some etag) then AP_CONDITION_STRONG else AP_CONDITION_NOMATCH)
                 else (if ap_find_etag_weak (Some if_nonematch) (Some etag) then AP_CONDITION_WEAK else AP_CONDITION_NOMATCH)
               else if ap_find_etag_strong (Some if_nonematch) (Some etag) then AP_CONDITION_STRONG
               else AP_CONDITION_NOMATCH)"

definition ap_condition_if_modified_since :: "'t table_ops \<Rightarrow> clock \<Rightarrow> 't response \<Rightarrow> 't \<Rightarrow> ap_condition_e" where
  "ap_condition_if_modified_since T k r headers =
    (case apr_table_get T (headers_in r) ''If-Modified-Since'' of
       None \<Rightarrow> AP_CONDITION_NONE
     | Some if_modified_since \<Rightarrow>
         let mt = modified_sec T k r headers; reqtime = sent_sec T k r headers;
             ims = apr_time_sec (apr_date_parse_http k (Some if_modified_since))
         in if ims \<ge> mt \<and> ims \<le> reqtime then
              if reqtime < mt + 60 then
                (if apr_table_get T (headers_in r) ''Range'' \<noteq> None then AP_CONDITION_NOMATCH else AP_CONDITION_WEAK)
              else AP_CONDITION_STRONG
            else AP_CONDITION_NOMATCH)"

definition ap_condition_if_range :: "'t table_ops \<Rightarrow> clock \<Rightarrow> 't response \<Rightarrow> 't \<Rightarrow> ap_condition_e" where
  "ap_condition_if_range T k r headers =
    (case apr_table_get T (headers_in r) ''If-Range'' of
       None \<Rightarrow> AP_CONDITION_NONE
     | Some if_range \<Rightarrow>
         if apr_table_get T (headers_in r) ''Range'' = None then AP_CONDITION_NONE
         else if peek if_range = CHR 0x22 then
           (if apr_table_get T headers ''ETag'' = Some if_range then AP_CONDITION_STRONG else AP_CONDITION_NOMATCH)
         else
           let mt = modified_sec T k r headers; reqtime = sent_sec T k r headers;
               rtime = apr_time_sec (apr_date_parse_http k (Some if_range))
           in if rtime = mt then
                (if reqtime < mt + 60 then AP_CONDITION_NOMATCH else AP_CONDITION_STRONG)
              else AP_CONDITION_NOMATCH)"

definition ap_is_HTTP_SUCCESS :: "int \<Rightarrow> bool" where
  "ap_is_HTTP_SUCCESS x \<longleftrightarrow> x \<ge> 200 \<and> x < 300"

text \<open>The values that \<open>not_modified\<close> takes: -1 until a condition has been seen, 0 once one has failed, 1 for a match.\<close>

definition matched :: "'t response \<Rightarrow> ap_condition_e \<Rightarrow> int \<Rightarrow> int" where
  "matched r cond not_modified =
    (if cond = AP_CONDITION_NOMATCH then 0
     else if cond \<ge> AP_CONDITION_WEAK \<and> method_number r = M_GET \<and> not_modified \<noteq> 0 then 1
     else not_modified)"

definition ap_meets_conditions :: "'t table_ops \<Rightarrow> clock \<Rightarrow> 't response \<Rightarrow> int" where
  "ap_meets_conditions T k r =
    (if \<not> ap_is_HTTP_SUCCESS (status r) \<or> no_local_copy r then OK
     else if ap_condition_if_match T r (headers_out r) = AP_CONDITION_NOMATCH then HTTP_PRECONDITION_FAILED
     else
       let not_modified = -1; cond = ap_condition_if_unmodified_since T k r (headers_out r) in
       if cond \<ge> AP_CONDITION_WEAK then HTTP_PRECONDITION_FAILED
       else
         let not_modified = (if cond = AP_CONDITION_NOMATCH then 0 else not_modified);
             cond = ap_condition_if_none_match T r (headers_out r) in
         if cond \<ge> AP_CONDITION_WEAK \<and> method_number r \<noteq> M_GET then HTTP_PRECONDITION_FAILED
         else
           let not_modified = matched r cond not_modified;
               not_modified = matched r (ap_condition_if_modified_since T k r (headers_out r)) not_modified in
           if ap_condition_if_range T k r (headers_out r) > AP_CONDITION_NONE then OK
           else if not_modified = 1 then HTTP_NOT_MODIFIED else OK)"

section \<open>Persistent connections\<close>

datatype conn_keepalive = AP_CONN_UNKNOWN | AP_CONN_CLOSE | AP_CONN_KEEPALIVE

record connection =
  keepalive :: conn_keepalive
  keepalives :: int

record keepalive_conf =
  keep_alive :: bool
  keep_alive_timeout :: int
  keep_alive_max :: int

definition HTTP_NO_CONTENT :: int where "HTTP_NO_CONTENT = 204"

text \<open>A string as \<open>ap_find_token\<close> sees it, in its memory.\<close>

definition in_memory :: "string option \<Rightarrow> string option" where
  "in_memory = map_option (\<lambda>s. s @ [NUL])"

definition ap_status_drops_connection :: "int \<Rightarrow> bool" where
  "ap_status_drops_connection x \<longleftrightarrow>
    x = HTTP_BAD_REQUEST \<or> x = HTTP_REQUEST_TIME_OUT \<or> x = 411 \<or> x = HTTP_REQUEST_ENTITY_TOO_LARGE \<or>
    x = HTTP_REQUEST_URI_TOO_LARGE \<or> x = HTTP_INTERNAL_SERVER_ERROR \<or> x = 503 \<or> x = HTTP_NOT_IMPLEMENTED"

text \<open>The part of the condition that sets \<open>r->chunked\<close> on its way.\<close>

definition length_known :: "'t table_ops \<Rightarrow> 't response \<Rightarrow> bool" where
  "length_known T r \<longleftrightarrow>
    status r = HTTP_NOT_MODIFIED \<or> status r = HTTP_NO_CONTENT \<or> header_only r \<or>
    apr_table_get T (headers_out r) ''Content-Length'' \<noteq> None \<or>
    ap_find_last_token (apr_table_get T (headers_out r) ''Transfer-Encoding'') ''chunked''"

definition delimit_body :: "'t table_ops \<Rightarrow> 't response \<Rightarrow> bool \<times> 't response" where
  "delimit_body T r =
    (if length_known T r then (True, r)
     else if proto_num r \<ge> HTTP_VERSION 1 1 then (True, r\<lparr>send_chunked := True\<rparr>)
     else (False, r))"

text \<open>The whole condition, in the order of its evaluation: its value, \<open>ka_sent\<close> and the request. It is \<open>None\<close> when
  \<open>ap_find_token\<close> reads beyond its string.\<close>

definition keepalive_condition ::
  "'t table_ops \<Rightarrow> bool \<Rightarrow> keepalive_conf \<Rightarrow> connection \<Rightarrow> bool \<Rightarrow> 't response \<Rightarrow> (bool \<times> bool \<times> 't response) option" where
  "keepalive_condition T running conf c wimpy r =
    (if keepalive c = AP_CONN_CLOSE \<or> expecting_100 r then Some (False, False, r)
     else case delimit_body T r of (delimited, r) \<Rightarrow>
       if \<not> delimited \<or> \<not> keep_alive conf \<or> \<not> keep_alive_timeout conf > 0 \<or>
         \<not> (keep_alive_max conf = 0 \<or> keep_alive_max conf - keepalives c > 0) \<or>
         ap_status_drops_connection (status r) \<or> wimpy
       then Some (False, False, r)
       else
         let conn = in_memory (apr_table_get T (headers_in r) ''Connection'') in
         Option.bind (ap_find_token conn ''close'') (\<lambda>closing.
           if closing \<or>
             (apr_table_get T (subprocess_env r) ''nokeepalive'' \<noteq> None \<and> apr_table_get T (headers_in r) ''Via'' = None)
           then Some (False, False, r)
           else Option.bind (ap_find_token conn ''keep-alive'') (\<lambda>ka_sent.
             Some ((ka_sent \<or> proto_num r \<ge> HTTP_VERSION 1 1) \<and> running, ka_sent, r))))"

definition answer_keepalive :: "'t table_ops \<Rightarrow> keepalive_conf \<Rightarrow> int \<Rightarrow> 't response \<Rightarrow> 't response" where
  "answer_keepalive T conf left r =
    (let timeout = ''timeout='' @ dec (apr_time_sec (keep_alive_timeout conf));
         h = apr_table_set T (headers_out r) ''Keep-Alive''
           (if keep_alive_max conf \<noteq> 0 then timeout @ '', max='' @ dec left else timeout)
     in r\<lparr>headers_out := apr_table_mergen T h ''Connection'' ''Keep-Alive''\<rparr>)"

definition ap_set_keepalive ::
  "'t table_ops \<Rightarrow> bool \<Rightarrow> keepalive_conf \<Rightarrow> connection \<Rightarrow> 't response \<Rightarrow> (bool \<times> connection \<times> 't response) option" where
  "ap_set_keepalive T running conf c r =
    (let left = keep_alive_max conf - keepalives c in
     Option.bind (ap_find_token (in_memory (apr_table_get T (headers_out r) ''Connection'')) ''close'') (\<lambda>wimpy.
     Option.bind (keepalive_condition T running conf c wimpy r) (\<lambda>(stay, ka_sent, r).
       if stay then
         Some (True, c\<lparr>keepalive := AP_CONN_KEEPALIVE, keepalives := keepalives c + 1\<rparr>,
           if ka_sent then answer_keepalive T conf left r else r)
       else
         Some (False,
           c\<lparr>keepalive := AP_CONN_CLOSE,
             keepalives := (if keepalive c \<noteq> AP_CONN_CLOSE \<and> keep_alive_max conf \<noteq> 0 \<and> left = 0
                            then keepalives c + 1 else keepalives c)\<rparr>,
           if wimpy then r else r\<lparr>headers_out := apr_table_mergen T (headers_out r) ''Connection'' ''close''\<rparr>))))"

text \<open>
  The loop of \<open>ap_process_http_sync_connection\<close> (\<^verbatim>\<open>modules/http/http_core.c\<close>) over the requests of a connection, as far as it
  concerns persistence: it forgets the mark of the connection before each request and goes on while the request leaves
  \<open>AP_CONN_KEEPALIVE\<close>. A request comes as the handlers leave it, with the state of the process. The result has for each response whether the connection stayed open.
\<close>

fun serve_connection ::
  "'t table_ops \<Rightarrow> keepalive_conf \<Rightarrow> connection \<Rightarrow> (bool \<times> 't response) list \<Rightarrow> (bool \<times> 't response) list option" where
  "serve_connection T conf c [] = Some []"
| "serve_connection T conf c ((running, r) # rs) =
    Option.bind (ap_set_keepalive T running conf (c\<lparr>keepalive := AP_CONN_UNKNOWN\<rparr>) r) (\<lambda>(stay, c, r).
      if keepalive c \<noteq> AP_CONN_KEEPALIVE then Some [(stay, r)]
      else map_option ((#) (stay, r)) (serve_connection T conf c rs))"

section \<open>The meaning of the conditions\<close>

text \<open>What the specification of HTTP/1.1 asks for, condition by condition.\<close>

definition tag_hit :: "'t table_ops \<Rightarrow> 't response \<Rightarrow> string \<Rightarrow> bool" where
  "tag_hit T r v \<longleftrightarrow> peek v = CHR ''*'' \<or>
    (case apr_table_get T (headers_out r) ''ETag'' of
       None \<Rightarrow> False
     | Some etag \<Rightarrow>
         if method_number r = M_GET \<and> apr_table_get T (headers_in r) ''Range'' = None
         then ap_find_etag_weak (Some v) (Some etag) else ap_find_etag_strong (Some v) (Some etag))"

text \<open>A range of a document that was modified within the last minute cannot be validated by a date.\<close>

definition weak_date :: "'t table_ops \<Rightarrow> clock \<Rightarrow> 't response \<Rightarrow> bool" where
  "weak_date T k r \<longleftrightarrow> apr_table_get T (headers_in r) ''Range'' \<noteq> None \<and>
    sent_sec T k r (headers_out r) < modified_sec T k r (headers_out r) + 60"

definition date_of :: "clock \<Rightarrow> string \<Rightarrow> int" where
  "date_of k v = apr_time_sec (apr_date_parse_http k (Some v))"

definition precondition_fails :: "'t table_ops \<Rightarrow> clock \<Rightarrow> 't response \<Rightarrow> bool" where
  "precondition_fails T k r \<longleftrightarrow>
    (case apr_table_get T (headers_in r) ''If-Match'' of
       None \<Rightarrow> False
     | Some v \<Rightarrow> peek v \<noteq> CHR ''*'' \<and>
         (case apr_table_get T (headers_out r) ''ETag'' of
            None \<Rightarrow> True | Some etag \<Rightarrow> \<not> ap_find_etag_strong (Some v) (Some etag))) \<or>
    (case apr_table_get T (headers_in r) ''If-Unmodified-Since'' of
       None \<Rightarrow> False
     | Some v \<Rightarrow> date_of k v \<noteq> APR_DATE_BAD \<and> date_of k v < modified_sec T k r (headers_out r) \<and> \<not> weak_date T k r) \<or>
    (case apr_table_get T (headers_in r) ''If-None-Match'' of
       None \<Rightarrow> False | Some v \<Rightarrow> method_number r \<noteq> M_GET \<and> tag_hit T r v)"

definition still_fresh :: "'t table_ops \<Rightarrow> clock \<Rightarrow> 't response \<Rightarrow> bool" where
  "still_fresh T k r \<longleftrightarrow>
    method_number r = M_GET \<and> apr_table_get T (headers_in r) ''If-Unmodified-Since'' = None \<and>
    (apr_table_get T (headers_in r) ''If-None-Match'' \<noteq> None \<or> apr_table_get T (headers_in r) ''If-Modified-Since'' \<noteq> None) \<and>
    (case apr_table_get T (headers_in r) ''If-None-Match'' of None \<Rightarrow> True | Some v \<Rightarrow> tag_hit T r v) \<and>
    (case apr_table_get T (headers_in r) ''If-Modified-Since'' of
       None \<Rightarrow> True
     | Some v \<Rightarrow> modified_sec T k r (headers_out r) \<le> date_of k v \<and> date_of k v \<le> sent_sec T k r (headers_out r) \<and>
         \<not> weak_date T k r) \<and>
    \<not> (apr_table_get T (headers_in r) ''If-Range'' \<noteq> None \<and> apr_table_get T (headers_in r) ''Range'' \<noteq> None)"

lemma condition_simps [simp]:
  "AP_CONDITION_WEAK \<le> c \<longleftrightarrow> c = AP_CONDITION_WEAK \<or> c = AP_CONDITION_STRONG"
  "AP_CONDITION_NONE < c \<longleftrightarrow> c \<noteq> AP_CONDITION_NONE"
  by (cases c; simp add: condition_order)+

text \<open>Each condition says whether its field was sent and whether it matches.\<close>

definition cond_is :: "ap_condition_e \<Rightarrow> string option \<Rightarrow> (string \<Rightarrow> bool) \<Rightarrow> bool" where
  "cond_is c field P \<longleftrightarrow>
    (case field of
       None \<Rightarrow> c = AP_CONDITION_NONE
     | Some v \<Rightarrow> if P v then c = AP_CONDITION_WEAK \<or> c = AP_CONDITION_STRONG else c = AP_CONDITION_NOMATCH)"

lemma cond_isE:
  assumes "cond_is c field P"
  obtains "field = None" "c = AP_CONDITION_NONE"
    | v where "field = Some v" "P v" "c = AP_CONDITION_WEAK"
    | v where "field = Some v" "P v" "c = AP_CONDITION_STRONG"
    | v where "field = Some v" "\<not> P v" "c = AP_CONDITION_NOMATCH"
  using assms by (auto simp: cond_is_def split: option.splits if_splits)

lemma cond_none_match:
  "cond_is (ap_condition_if_none_match T r (headers_out r)) (apr_table_get T (headers_in r) ''If-None-Match'') (tag_hit T r)"
  by (simp add: cond_is_def ap_condition_if_none_match_def tag_hit_def split: option.split)

lemma cond_unmodified_since:
  "cond_is (ap_condition_if_unmodified_since T k r (headers_out r)) (apr_table_get T (headers_in r) ''If-Unmodified-Since'')
     (\<lambda>v. date_of k v \<noteq> APR_DATE_BAD \<and> date_of k v < modified_sec T k r (headers_out r) \<and> \<not> weak_date T k r)"
  by (simp add: cond_is_def ap_condition_if_unmodified_since_def date_of_def weak_date_def Let_def split: option.split)

lemma cond_modified_since:
  "cond_is (ap_condition_if_modified_since T k r (headers_out r)) (apr_table_get T (headers_in r) ''If-Modified-Since'')
     (\<lambda>v. modified_sec T k r (headers_out r) \<le> date_of k v \<and> date_of k v \<le> sent_sec T k r (headers_out r) \<and> \<not> weak_date T k r)"
  by (simp add: cond_is_def ap_condition_if_modified_since_def date_of_def weak_date_def Let_def split: option.split)

lemma cond_match:
  "ap_condition_if_match T r (headers_out r) = AP_CONDITION_NOMATCH \<longleftrightarrow>
    (case apr_table_get T (headers_in r) ''If-Match'' of
       None \<Rightarrow> False
     | Some v \<Rightarrow> peek v \<noteq> CHR ''*'' \<and>
         (case apr_table_get T (headers_out r) ''ETag'' of
            None \<Rightarrow> True | Some etag \<Rightarrow> \<not> ap_find_etag_strong (Some v) (Some etag)))"
  by (simp add: ap_condition_if_match_def split: option.split)

lemma cond_range:
  "ap_condition_if_range T k r h \<noteq> AP_CONDITION_NONE \<longleftrightarrow>
    apr_table_get T (headers_in r) ''If-Range'' \<noteq> None \<and> apr_table_get T (headers_in r) ''Range'' \<noteq> None"
  by (simp add: ap_condition_if_range_def Let_def split: option.split)

lemma meets_conditions:
  "ap_meets_conditions T k r =
    (if \<not> ap_is_HTTP_SUCCESS (status r) \<or> no_local_copy r then OK
     else if precondition_fails T k r then HTTP_PRECONDITION_FAILED
     else if still_fresh T k r then HTTP_NOT_MODIFIED else OK)"
proof -
  note u = cond_unmodified_since [of T k r] and n = cond_none_match [of T r] and m = cond_modified_since [of T k r]
  define a where "a \<longleftrightarrow> ap_condition_if_match T r (headers_out r) = AP_CONDITION_NOMATCH"
  define b where "b \<longleftrightarrow> ap_condition_if_range T k r (headers_out r) \<noteq> AP_CONDITION_NONE"
  define g where "g \<longleftrightarrow> method_number r = M_GET"
  show ?thesis
    unfolding ap_meets_conditions_def precondition_fails_def still_fresh_def matched_def Let_def condition_simps cond_range [of T k r "headers_out r", symmetric]
      cond_match [symmetric] a_def [symmetric] b_def [symmetric] g_def [symmetric]
    by (cases rule: cond_isE [OF u]; cases rule: cond_isE [OF n]; cases rule: cond_isE [OF m]; simp; blast?)
qed

text \<open>
  C9: The answer to a conditional request. For a successful response, \<open>ap_meets_conditions\<close> gives 412 exactly if the entity tag fails
  \<open>If-Match\<close>, or the document was modified after a valid \<open>If-Unmodified-Since\<close>, or \<open>If-None-Match\<close> hits and the method is not
  GET or HEAD. Otherwise it gives 304 exactly for GET and HEAD when \<open>If-None-Match\<close> or \<open>If-Modified-Since\<close> is given, each one given
  holds, no \<open>If-Unmodified-Since\<close> was sent and the request is not one for a range on a condition;
  in all other cases the document is sent. An \<open>If-Unmodified-Since\<close> for a range of a recently modified document
  never gives 412.\<close>

theorem ap_meets_conditions_correct:
  "ap_meets_conditions T k r =
    (if ap_is_HTTP_SUCCESS (status r) then
       if no_local_copy r then OK
       else if precondition_fails T k r then HTTP_PRECONDITION_FAILED
       else if still_fresh T k r then HTTP_NOT_MODIFIED else OK
     else OK)"
  by (simp add: meets_conditions)

section \<open>Revalidation by entity tags\<close>

text \<open>A response whose tag is made from the attributes of its file, and the bits that the tag is made of.\<close>

definition file_etag :: "'t response \<Rightarrow> bool" where
  "file_etag r \<longleftrightarrow> is_file (file_info r) \<and> etag_used_bits (etag_conf r) AND ETAG_NONE = 0"

definition tag_bits :: "'t response \<Rightarrow> 64 word" where
  "tag_bits r = (if etag_used_bits (etag_conf r) = 0 then ETAG_BACKWARD else etag_used_bits (etag_conf r))"

abbreviation file_body :: "'t response \<Rightarrow> string" where
  "file_body r \<equiv> file_tag (tag_bits r) (file_info r) (word_of_int (mtime r))"

lemma make_etag_file:
  assumes "file_etag r"
  shows "\<exists>w. ap_make_etag T r force_weak = (tag_text (w, file_body r), r)"
proof -
  have "ap_make_etag T r force_weak =
      (tag_text (\<not> (request_time r - mtime r > 1000000 \<and> \<not> force_weak), file_body r), r)"
    using assms by (auto simp: ap_make_etag_def tag_text_def file_etag_def tag_bits_def Let_def)
  then show ?thesis by blast
qed

text \<open>The request is conditional by \<open>If-None-Match\<close> only.\<close>

definition only_none_match :: "'t table_ops \<Rightarrow> 't response \<Rightarrow> string \<Rightarrow> bool" where
  "only_none_match T r v \<longleftrightarrow>
    apr_table_get T (headers_in r) ''If-None-Match'' = Some v \<and>
    apr_table_get T (headers_in r) ''If-Match'' = None \<and> apr_table_get T (headers_in r) ''If-Unmodified-Since'' = None \<and>
    apr_table_get T (headers_in r) ''If-Modified-Since'' = None \<and> apr_table_get T (headers_in r) ''Range'' = None"

lemma tag_texts:
  "list_all file_etag olds \<Longrightarrow>
   \<exists>ts. map (\<lambda>old. fst (ap_make_etag T old False)) olds = map tag_text ts \<and> map snd ts = map file_body olds"
proof (induction olds)
  case (Cons old olds)
  then obtain ts where "map (\<lambda>old. fst (ap_make_etag T old False)) olds = map tag_text ts" "map snd ts = map file_body olds" by auto
  moreover obtain w where "ap_make_etag T old False = (tag_text (w, file_body old), old)"
    using make_etag_file [of old] Cons.prems by auto
  ultimately show ?case by (intro exI [of _ "(w, file_body old) # ts"]) simp
qed simp

lemma comma_join_tags_peek: "peek (comma_join (map tag_text ts)) \<noteq> CHR ''*''"
  by (cases ts) (auto simp: comma_join_Cons tag_text_def)

text \<open>
  C7: Entity tags tell the versions of a file apart. A client sends the tags of the versions that it has, each made by
  \<open>ap_make_etag\<close> at any time and so weak or strong, as the list of \<open>If-None-Match\<close> of a GET or HEAD request without other conditions. For the response with the tag that
  \<open>ap_set_etag\<close> gives the current version, the answer is 304 exactly if one of the versions agrees with the current one in
  all the attributes (inode, size, time of modification) that \<open>FileETag\<close> names; otherwise the document is sent.\<close>

theorem etag_revalidates:
  assumes "table_laws T" and "ap_is_HTTP_SUCCESS (status r)" "\<not> no_local_copy r" "method_number r = M_GET"
    and "file_etag r" "vlist_validator r = None"
    and "list_all file_etag olds" "list_all (\<lambda>old. tag_bits old = tag_bits r) olds"
    and "only_none_match T r (comma_join (map (\<lambda>old. fst (ap_make_etag T old False)) olds))"
  shows "ap_meets_conditions T k (ap_set_etag T r) =
    (if list_ex (\<lambda>old. same_version (tag_bits r) (file_info old) (word_of_int (mtime old)) (file_info r) (word_of_int (mtime r))) olds
     then HTTP_NOT_MODIFIED else OK)"
proof -
  obtain w where w: "ap_make_etag T r False = (tag_text (w, file_body r), r)" using make_etag_file [OF assms(5)] by blast
  obtain ts where ts: "map (\<lambda>old. fst (ap_make_etag T old False)) olds = map tag_text ts" "map snd ts = map file_body olds"
    using tag_texts [OF assms(7)] by blast
  define h where "h = apr_table_set T (headers_out r) ''ETag'' (tag_text (w, file_body r))"
  have e: "ap_set_etag T r = r\<lparr>headers_out := h\<rparr>"
    using assms(6) w by (simp add: ap_set_etag_def tag_text_def h_def)
  have tag: "apr_table_get T h ''ETag'' = Some (tag_text (w, file_body r))"
    by (simp add: h_def table_set [OF assms(1)])
  have tc: "list_all (\<lambda>t. list_all tag_char (snd t)) ts"
  proof -
    have "snd ` set ts = file_body ` set olds" using ts(2) by (metis set_map)
    then show ?thesis using file_tag_chars by (force simp: list_all_iff)
  qed
  have bodies: "snd ` set ts = file_body ` set olds" using ts(2) by (metis set_map)
  have found: "ap_find_etag_weak (Some (comma_join (map tag_text ts))) (Some (tag_text (w, file_body r))) \<longleftrightarrow>
      file_body r \<in> file_body ` set olds"
    using find_weak_tag [OF tc, of "(w, file_body r)"] file_tag_chars unfolding bodies snd_conv by blast
  have "file_body r = file_body old \<longleftrightarrow>
      same_version (tag_bits r) (file_info old) (word_of_int (mtime old)) (file_info r) (word_of_int (mtime r))" if "old \<in> set olds" for old
    using assms(8) that file_tag_inject unfolding list_all_iff by metis
  then have same: "file_body r \<in> file_body ` set olds \<longleftrightarrow>
      list_ex (\<lambda>old. same_version (tag_bits r) (file_info old) (word_of_int (mtime old)) (file_info r) (word_of_int (mtime r))) olds"
    unfolding list_ex_iff image_iff by blast
  define q where "q = r\<lparr>headers_out := h\<rparr>"
  have q: "headers_in q = headers_in r" "headers_out q = h" "status q = status r" "method_number q = method_number r"
    "no_local_copy q = no_local_copy r"
    by (simp_all add: q_def)
  have hit: "tag_hit T q (comma_join (map tag_text ts)) \<longleftrightarrow>
      ap_find_etag_weak (Some (comma_join (map tag_text ts))) (Some (tag_text (w, file_body r)))"
    using comma_join_tags_peek [of ts] assms(4,9) tag by (simp add: tag_hit_def only_none_match_def q)
  note o = assms(9) [unfolded only_none_match_def ts(1)]
  have "\<not> precondition_fails T k q" "still_fresh T k q \<longleftrightarrow> tag_hit T q (comma_join (map tag_text ts))"
    using o assms(4) by (simp_all add: precondition_fails_def still_fresh_def q)
  then have "ap_meets_conditions T k q = (if tag_hit T q (comma_join (map tag_text ts)) then HTTP_NOT_MODIFIED else OK)"
    using assms(2,3) by (simp add: meets_conditions q)
  then show ?thesis unfolding hit found same unfolding q_def e .
qed

definition small_config :: etag_config where
  "small_config = \<lparr>etag_bits = ETAG_MTIME OR ETAG_SIZE, etag_add = 0, etag_remove = 0\<rparr>"

definition example_response :: "(string \<times> string) list \<Rightarrow> (string \<times> string) list \<Rightarrow> 64 word \<Rightarrow> int \<Rightarrow> (string \<times> string) list response" where
  "example_response inp out n mt = vhost_request.extend (request.extend (example_line_request\<lparr>status := 200\<rparr>)
     (vhost_request.fields inp (base_server example_conn) 80 None))
     (response.fields out [] [] small_config mt 2000000 \<lparr>is_file = True, inode = 7, fsize = n\<rparr> None False False False)"

lemma example_response_fields [simp]:
  "headers_in (example_response inp out n mt) = inp" "headers_out (example_response inp out n mt) = out"
  "status (example_response inp out n mt) = 200" "method_number (example_response inp out n mt) = 0"
  "no_local_copy (example_response inp out n mt) = False" "vlist_validator (example_response inp out n mt) = None"
  "file_info (example_response inp out n mt) = \<lparr>is_file = True, inode = 7, fsize = n\<rparr>" "mtime (example_response inp out n mt) = mt"
  "etag_conf (example_response inp out n mt) = small_config" "request_time (example_response inp out n mt) = 2000000"
  "proto_num (example_response inp out n mt) = 1001" "header_only (example_response inp out n mt) = False"
  "expecting_100 (example_response inp out n mt) = False" "subprocess_env (example_response inp out n mt) = []"
  by (simp_all add: example_response_def example_line_request_def request.defs vhost_request.defs response.defs)

lemma example_etag: "fst (ap_make_etag list_tables (example_response inp out n 5) False) = tag_text (False, file_tag 10 \<lparr>is_file = True, inode = 7, fsize = n\<rparr> 5)"
  by (simp add: ap_make_etag_def Let_def tag_text_def etag_used_bits_def small_config_def ETAG_MTIME_def ETAG_SIZE_def ETAG_NONE_def)

lemma example_tags: "tag_text (False, file_tag 10 \<lparr>is_file = True, inode = 7, fsize = 16\<rparr> 5) = [CHR 0x22] @ ''10-5'' @ [CHR 0x22]"
  "tag_text (False, file_tag 10 \<lparr>is_file = True, inode = 7, fsize = 32\<rparr> 5) = [CHR 0x22] @ ''20-5'' @ [CHR 0x22]"
  by code_simp+

theorem etag_revalidates_witness:
  "let t16 = [CHR 0x22] @ ''10-5'' @ [CHR 0x22]; t32 = [CHR 0x22] @ ''20-5'' @ [CHR 0x22] in
   ap_meets_conditions list_tables \<lparr>apr_date_parse_http = \<lambda>_. 0, apr_time_now = 0\<rparr>
     (ap_set_etag list_tables (example_response [(''If-None-Match'', t16 @ '', '' @ t32)] [] 32 5)) = 304 \<and>
   ap_meets_conditions list_tables \<lparr>apr_date_parse_http = \<lambda>_. 0, apr_time_now = 0\<rparr>
     (ap_set_etag list_tables (example_response [(''If-None-Match'', t16)] [] 32 5)) = 0"
proof -
  let ?r = "\<lambda>v. example_response [(''If-None-Match'', v)] [] 32 5" and ?old = "\<lambda>n. example_response [] [] n 5"
  have f: "file_etag (example_response inp out n 5)" "tag_bits (example_response inp out n 5) = 10" for inp out n
    by (simp_all add: file_etag_def tag_bits_def etag_used_bits_def small_config_def ETAG_MTIME_def ETAG_SIZE_def ETAG_NONE_def)
  have c: "only_none_match list_tables (?r v) v" for v
    by (simp add: only_none_match_def list_tables_def strcaseeq_def str_lower_def c_tolower_def c_isupper_def)
  have s: "ap_is_HTTP_SUCCESS 200" "\<not> same_version 10 \<lparr>is_file = True, inode = 7, fsize = 16\<rparr> 5 \<lparr>is_file = True, inode = 7, fsize = 32\<rparr> 5"
    "same_version 10 \<lparr>is_file = True, inode = 7, fsize = 32\<rparr> 5 \<lparr>is_file = True, inode = 7, fsize = 32\<rparr> 5"
    by (simp_all add: ap_is_HTTP_SUCCESS_def same_version_def ETAG_MTIME_def ETAG_SIZE_def ETAG_INODE_def)
  show ?thesis
    using etag_revalidates [OF list_tables_laws, of "?r (comma_join (map (\<lambda>old. fst (ap_make_etag list_tables old False)) [?old 16, ?old 32]))" "[?old 16, ?old 32]"]
      etag_revalidates [OF list_tables_laws, of "?r (comma_join (map (\<lambda>old. fst (ap_make_etag list_tables old False)) [?old 16]))" "[?old 16]"]
    by (simp add: f c s Let_def example_etag example_tags)
qed

section \<open>Persistence\<close>

text \<open>What holds of a response after which the connection stays open, and of one after which it is closed.\<close>

definition kept_ok :: "'t table_ops \<Rightarrow> 't response \<Rightarrow> bool" where
  "kept_ok T r \<longleftrightarrow>
    (length_known T r \<or> send_chunked r \<and> proto_num r \<ge> HTTP_VERSION 1 1) \<and> \<not> expecting_100 r \<and>
    \<not> ap_status_drops_connection (status r) \<and>
    ap_find_token (in_memory (apr_table_get T (headers_in r) ''Connection'')) ''close'' = Some False"

definition says_close :: "'t table_ops \<Rightarrow> 't response \<Rightarrow> bool" where
  "says_close T r \<longleftrightarrow>
    (case apr_table_get T (headers_out r) ''Connection'' of
       None \<Rightarrow> False
     | Some v \<Rightarrow> ap_find_token (Some (v @ [NUL])) ''close'' = Some True \<or> suffix ''close'' v)"

lemma keep_keys:
  "\<not> strcaseeq ''Keep-Alive'' ''Content-Length''" "\<not> strcaseeq ''Keep-Alive'' ''Transfer-Encoding''"
  "\<not> strcaseeq ''Connection'' ''Content-Length''" "\<not> strcaseeq ''Connection'' ''Transfer-Encoding''"
  by (simp_all add: strcaseeq_def str_lower_def)

lemma answer_keepalive_kept:
  assumes "table_laws T"
  shows "kept_ok T (answer_keepalive T conf left r) \<longleftrightarrow> kept_ok T r"
  using keep_keys
  by (simp add: kept_ok_def length_known_def answer_keepalive_def Let_def table_set [OF assms] table_mergen [OF assms])

lemma keepalive_condition_stay:
  assumes "keepalive_condition T running conf c wimpy r = Some (True, ka_sent, r')"
  shows "kept_ok T r' \<and> (keep_alive_max conf = 0 \<or> keepalives c < keep_alive_max conf)"
proof -
  obtain delim r1 where d: "delimit_body T r = (delim, r1)" by fastforce
  have a: "\<not> (keepalive c = AP_CONN_CLOSE \<or> expecting_100 r)" using assms by (auto simp: keepalive_condition_def split: if_splits)
  have e: "delim" "keep_alive_max conf = 0 \<or> keepalives c < keep_alive_max conf" "\<not> ap_status_drops_connection (status r1)"
    "r' = r1" "ap_find_token (in_memory (apr_table_get T (headers_in r1) ''Connection'')) ''close'' = Some False"
    using assms a d unfolding keepalive_condition_def
    by (auto simp: Let_def bind_eq_Some_conv split: if_splits)
  have "(length_known T r1 \<or> send_chunked r1 \<and> proto_num r1 \<ge> HTTP_VERSION 1 1) \<and> expecting_100 r1 = expecting_100 r"
    using d e(1) by (auto simp: delimit_body_def length_known_def split: if_splits)
  then show ?thesis using a e by (simp add: kept_ok_def)
qed

lemma set_keepalive_result:
  assumes "table_laws T" and "ap_set_keepalive T running conf c r = Some (stay, c', r')"
  shows "if stay then kept_ok T r' \<and> keepalive c' = AP_CONN_KEEPALIVE \<and> keepalives c' = keepalives c + 1 \<and>
      (keep_alive_max conf = 0 \<or> keepalives c < keep_alive_max conf)
    else says_close T r' \<and> keepalive c' = AP_CONN_CLOSE"
proof -
  let ?out = "apr_table_get T (headers_out r) ''Connection''"
  obtain wimpy ka_sent r1 where w: "ap_find_token (in_memory ?out) ''close'' = Some wimpy"
    and k: "keepalive_condition T running conf c wimpy r = Some (stay, ka_sent, r1)"
    using assms(2) by (auto simp: ap_set_keepalive_def Let_def bind_eq_Some_conv split: if_splits)
  have h: "headers_out r1 = headers_out r"
    using k by (auto simp: keepalive_condition_def delimit_body_def Let_def bind_eq_Some_conv split: if_splits prod.splits)
  show ?thesis
  proof (cases stay)
    case True
    then have "kept_ok T r1 \<and> (keep_alive_max conf = 0 \<or> keepalives c < keep_alive_max conf)"
      using keepalive_condition_stay [of T running conf c wimpy r ka_sent r1] k by simp
    moreover have "c' = c\<lparr>keepalive := AP_CONN_KEEPALIVE, keepalives := keepalives c + 1\<rparr>"
      "r' = (if ka_sent then answer_keepalive T conf (keep_alive_max conf - keepalives c) r1 else r1)"
      using assms(2) w k True by (simp_all add: ap_set_keepalive_def Let_def)
    ultimately show ?thesis using True answer_keepalive_kept [OF assms(1)] by simp
  next
    case False
    have r': "keepalive c' = AP_CONN_CLOSE"
      "r' = (if wimpy then r1 else r1\<lparr>headers_out := apr_table_mergen T (headers_out r1) ''Connection'' ''close''\<rparr>)"
      using assms(2) w k False by (auto simp: ap_set_keepalive_def Let_def)
    have "says_close T r'"
    proof (cases wimpy)
      case True
      then show ?thesis using r'(2) w h by (auto simp: says_close_def in_memory_def ap_find_token_def split: option.splits)
    next
      case False
      have "suffix ''close'' (v @ '', close'')" for v :: string by (simp add: suffix_def)
      then show ?thesis using r'(2) False h by (auto simp: says_close_def table_mergen [OF assms(1)] split: option.splits)
    qed
    then show ?thesis using False r'(1) by simp
  qed
qed


definition two_requests :: keepalive_conf where
  "two_requests = \<lparr>keep_alive = True, keep_alive_timeout = 5000000, keep_alive_max = 1\<rparr>"

lemma get_example: "apr_table_get list_tables t k = (case values_of k t of [] \<Rightarrow> None | v # _ \<Rightarrow> Some v)"
  by (simp add: list_tables_def)

lemma example_keepalive:
  "serve_connection list_tables two_requests \<lparr>keepalive = AP_CONN_UNKNOWN, keepalives = 0\<rparr>
     [(True, example_response [] [] 1 1), (True, example_response [] [] 1 1)] =
   Some [(True, (example_response [] [] 1 1)\<lparr>send_chunked := True\<rparr>),
     (False, (example_response [] [] 1 1)\<lparr>send_chunked := True, headers_out := [(''Connection'', ''close'')]\<rparr>)]"
proof -
  have t: "ap_find_token None x = Some False" "ap_find_last_token None x = False" for x
    by (simp_all add: ap_find_token_def ap_find_last_token_def)
  have d: "\<not> ap_status_drops_connection 200"
    by (simp add: ap_status_drops_connection_def HTTP_REQUEST_TIME_OUT_def HTTP_REQUEST_URI_TOO_LARGE_def HTTP_NOT_IMPLEMENTED_def)
  have l: "\<not> length_known list_tables (example_response [] [] 1 1)"
    by (simp add: length_known_def get_example t HTTP_NO_CONTENT_def)
  have m: "apr_table_mergen list_tables [] ''Connection'' ''close'' = [(''Connection'', ''close'')]"
    by (simp add: list_tables_def)
  show ?thesis
    by (simp add: ap_set_keepalive_def keepalive_condition_def delimit_body_def l t d m get_example in_memory_def
      two_requests_def HTTP_VERSION_def Let_def)
qed


end
