(* ===== verification/Ajp_Msg.thy ===== *)
theory Ajp_Msg
  imports Prelude "HOL-Library.Monad_Syntax"
begin

unbundle bit_operations_syntax

text \<open>
  The packets of the AJP protocol, in which the proxy talks to servlet containers: \<^verbatim>\<open>modules/proxy/ajp_msg.c\<close> and the transport of
  \<^verbatim>\<open>modules/proxy/ajp_link.c\<close>. A packet is a buffer of bytes with the length of what is written and the position of what is read. An access
  outside the buffer is the result \<open>None\<close>; an error of the code is a value. Lengths are natural numbers: they stay far below the range of \<open>apr_size_t\<close>,
  except in \<open>ajp_msg_end\<close>, where the difference is taken modulo \<open>2 ^ 64\<close>. Logging and the dump for it are not modelled.
\<close>

section \<open>Messages\<close>

type_synonym byte = "8 word"

datatype ajp_error =
  AJP_EOVERFLOW | AJP_ETOSMALL | AJP_EBAD_SIGNATURE | AJP_ETOBIG | AJP_ENO_HEADER | AJP_EBAD_HEADER | AJP_EBAD_MESSAGE | AJP_EGENERAL
  | AJP_TIMEUP

record ajp_msg =
  buf :: "byte list"
  header_len :: nat
  msg_len :: nat
  pos :: nat
  server_side :: bool
  max_size :: nat

type_synonym 'v ajp_result = "((ajp_error + 'v) \<times> ajp_msg) option"

definition AJP_HEADER_LEN :: nat where "AJP_HEADER_LEN = 4"

definition get_byte :: "ajp_msg \<Rightarrow> nat \<Rightarrow> byte option" where
  "get_byte m i = (if i < length (buf m) then Some (buf m ! i) else None)"

definition put_bytes :: "nat \<Rightarrow> byte list \<Rightarrow> ajp_msg \<Rightarrow> ajp_msg option" where
  "put_bytes i bs m =
    (if i + length bs \<le> length (buf m)
     then Some (m\<lparr>buf := take i (buf m) @ bs @ drop (i + length bs) (buf m)\<rparr>) else None)"

definition ok :: "'v \<Rightarrow> ajp_msg \<Rightarrow> 'v ajp_result" where
  "ok v m = Some (Inr v, m)"

definition fail :: "ajp_error \<Rightarrow> ajp_msg \<Rightarrow> 'v ajp_result" where
  "fail e m = Some (Inl e, m)"

definition ajp_msg_create :: "byte list \<Rightarrow> nat \<Rightarrow> ajp_msg" where
  "ajp_msg_create garbage n =
    \<lparr>buf = take n (garbage @ replicate n 0), header_len = AJP_HEADER_LEN, msg_len = 0, pos = 0, server_side = False, max_size = n\<rparr>"

definition ajp_msg_reset :: "ajp_msg \<Rightarrow> ajp_msg" where
  "ajp_msg_reset m = m\<lparr>msg_len := AJP_HEADER_LEN, pos := AJP_HEADER_LEN\<rparr>"

definition ajp_msg_reuse :: "ajp_msg \<Rightarrow> ajp_msg" where
  "ajp_msg_reuse m =
    ajp_msg_reset \<lparr>buf = buf m, header_len = AJP_HEADER_LEN, msg_len = 0, pos = 0, server_side = False, max_size = max_size m\<rparr>"

text \<open>\<open>(apr_byte_t)((value >> n) & 0xFF)\<close> of a 16 or 32 bit value.\<close>

definition be16 :: "16 word \<Rightarrow> byte list" where
  "be16 w = [ucast (drop_bit 8 w AND 0xFF), ucast (w AND 0xFF)]"

definition be32 :: "32 word \<Rightarrow> byte list" where
  "be32 w = [ucast (drop_bit 24 w AND 0xFF), ucast (drop_bit 16 w AND 0xFF), ucast (drop_bit 8 w AND 0xFF), ucast (w AND 0xFF)]"

definition ajp_msg_end :: "ajp_msg \<Rightarrow> ajp_msg option" where
  "ajp_msg_end m =
    (let len = word_of_nat (msg_len m) - word_of_nat AJP_HEADER_LEN :: 64 word in
     put_bytes 0 (if server_side m then [0x41, 0x42] else [0x12, 0x34]) m \<bind>
     put_bytes 2 [ucast (drop_bit 8 len AND 0xFF), ucast (len AND 0xFF)])"

section \<open>Appending\<close>

definition ajp_msg_append_uint32 :: "32 word \<Rightarrow> ajp_msg \<Rightarrow> unit ajp_result" where
  "ajp_msg_append_uint32 w m =
    (if msg_len m + 4 > max_size m then fail AJP_EOVERFLOW m
     else put_bytes (msg_len m) (be32 w) m \<bind> (\<lambda>m. ok () (m\<lparr>msg_len := msg_len m + 4\<rparr>)))"

definition ajp_msg_append_uint16 :: "16 word \<Rightarrow> ajp_msg \<Rightarrow> unit ajp_result" where
  "ajp_msg_append_uint16 w m =
    (if msg_len m + 2 > max_size m then fail AJP_EOVERFLOW m
     else put_bytes (msg_len m) (be16 w) m \<bind> (\<lambda>m. ok () (m\<lparr>msg_len := msg_len m + 2\<rparr>)))"

definition ajp_msg_append_uint8 :: "byte \<Rightarrow> ajp_msg \<Rightarrow> unit ajp_result" where
  "ajp_msg_append_uint8 w m =
    (if msg_len m + 1 > max_size m then fail AJP_EOVERFLOW m
     else put_bytes (msg_len m) [w] m \<bind> (\<lambda>m. ok () (m\<lparr>msg_len := msg_len m + 1\<rparr>)))"

text \<open>A string is its bytes before the NUL; \<open>None\<close> is the null pointer. The length is cut to 16 bits, and an error of the inner append is ignored.\<close>

definition ajp_msg_append_string :: "byte list option \<Rightarrow> ajp_msg \<Rightarrow> unit ajp_result" where
  "ajp_msg_append_string v m =
    (case v of
       None \<Rightarrow> ajp_msg_append_uint16 0xFFFF m
     | Some s \<Rightarrow>
         if msg_len m + length s + 3 > max_size m then fail AJP_EOVERFLOW m
         else ajp_msg_append_uint16 (word_of_nat (length s)) m \<bind> (\<lambda>(_, m).
           put_bytes (msg_len m) (s @ [0]) m \<bind> (\<lambda>m. ok () (m\<lparr>msg_len := msg_len m + length s + 1\<rparr>))))"

definition ajp_msg_append_bytes :: "byte list \<Rightarrow> ajp_msg \<Rightarrow> unit ajp_result" where
  "ajp_msg_append_bytes bs m =
    (if bs = [] then ok () m
     else if msg_len m + length bs > max_size m then fail AJP_EOVERFLOW m
     else put_bytes (msg_len m) bs m \<bind> (\<lambda>m. ok () (m\<lparr>msg_len := msg_len m + length bs\<rparr>)))"

section \<open>Reading\<close>

definition ajp_msg_get_uint32 :: "ajp_msg \<Rightarrow> 32 word ajp_result" where
  "ajp_msg_get_uint32 m =
    (if pos m + 3 > msg_len m then fail AJP_EOVERFLOW m
     else do {
       a \<leftarrow> get_byte m (pos m); b \<leftarrow> get_byte m (pos m + 1); c \<leftarrow> get_byte m (pos m + 2); d \<leftarrow> get_byte m (pos m + 3);
       ok (push_bit 24 (ucast a) OR push_bit 16 (ucast b) OR push_bit 8 (ucast c) OR ucast d) (m\<lparr>pos := pos m + 4\<rparr>) })"

definition ajp_msg_get_uint16 :: "ajp_msg \<Rightarrow> 16 word ajp_result" where
  "ajp_msg_get_uint16 m =
    (if pos m + 1 > msg_len m then fail AJP_EOVERFLOW m
     else do {
       a \<leftarrow> get_byte m (pos m); b \<leftarrow> get_byte m (pos m + 1);
       ok (push_bit 8 (ucast a) + ucast b) (m\<lparr>pos := pos m + 2\<rparr>) })"

definition ajp_msg_peek_uint16 :: "ajp_msg \<Rightarrow> 16 word ajp_result" where
  "ajp_msg_peek_uint16 m =
    (if pos m + 1 > msg_len m then fail AJP_EOVERFLOW m
     else do {
       a \<leftarrow> get_byte m (pos m); b \<leftarrow> get_byte m (pos m + 1);
       ok (push_bit 8 (ucast a) + ucast b) m })"

definition ajp_msg_peek_uint8 :: "ajp_msg \<Rightarrow> byte ajp_result" where
  "ajp_msg_peek_uint8 m =
    (if pos m > msg_len m then fail AJP_EOVERFLOW m else do { a \<leftarrow> get_byte m (pos m); ok a m })"

definition ajp_msg_get_uint8 :: "ajp_msg \<Rightarrow> byte ajp_result" where
  "ajp_msg_get_uint8 m =
    (if pos m > msg_len m then fail AJP_EOVERFLOW m else do { a \<leftarrow> get_byte m (pos m); ok a (m\<lparr>pos := pos m + 1\<rparr>) })"

text \<open>The value is a pointer into the buffer. The length has been read even when the string does not fit.\<close>

definition ajp_msg_get_string :: "ajp_msg \<Rightarrow> nat ajp_result" where
  "ajp_msg_get_string m =
    ajp_msg_get_uint16 m \<bind> (\<lambda>(st, m).
      case st of
        Inl _ \<Rightarrow> fail AJP_EOVERFLOW m
      | Inr sz \<Rightarrow>
          if unat sz + pos m > max_size m then fail AJP_EOVERFLOW m
          else ok (pos m) (m\<lparr>pos := pos m + unat sz + 1\<rparr>))"

definition ajp_msg_get_bytes :: "ajp_msg \<Rightarrow> (nat \<times> nat) ajp_result" where
  "ajp_msg_get_bytes m =
    ajp_msg_get_uint16 m \<bind> (\<lambda>(st, m).
      case st of
        Inl _ \<Rightarrow> fail AJP_EOVERFLOW m
      | Inr sz \<Rightarrow>
          if unat sz + pos m > max_size m then fail AJP_EOVERFLOW m
          else ok (pos m, unat sz) (m\<lparr>pos := pos m + unat sz\<rparr>))"

text \<open>What a user of the pointer reads: the bytes up to a NUL, or outside the buffer if there is none.\<close>

definition c_string_at :: "ajp_msg \<Rightarrow> nat \<Rightarrow> byte list option" where
  "c_string_at m i =
    (if 0 \<in> set (drop i (buf m)) then Some (takeWhile (\<lambda>b. b \<noteq> 0) (drop i (buf m))) else None)"

text \<open>The test is on the size of the source, although the destination is written.\<close>

definition ajp_msg_copy :: "ajp_msg \<Rightarrow> ajp_msg \<Rightarrow> unit ajp_result" where
  "ajp_msg_copy smsg dmsg =
    (if msg_len smsg > max_size smsg then fail AJP_ETOSMALL dmsg
     else if msg_len smsg > length (buf smsg) then None
     else put_bytes 0 (take (msg_len smsg) (buf smsg)) dmsg \<bind> (\<lambda>dmsg.
       ok () (dmsg\<lparr>msg_len := msg_len smsg, pos := pos smsg\<rparr>)))"

definition CMD_AJP13_PING :: byte where "CMD_AJP13_PING = 8"
definition CMD_AJP13_CPING :: byte where "CMD_AJP13_CPING = 10"

definition ajp_msg_serialize_ping :: "ajp_msg \<Rightarrow> unit ajp_result" where
  "ajp_msg_serialize_ping m = ajp_msg_append_uint8 CMD_AJP13_PING (ajp_msg_reset m)"

definition ajp_msg_serialize_cping :: "ajp_msg \<Rightarrow> unit ajp_result" where
  "ajp_msg_serialize_cping m = ajp_msg_append_uint8 CMD_AJP13_CPING (ajp_msg_reset m)"

section \<open>Transport\<close>

definition ajp_msg_check_header :: "ajp_msg \<Rightarrow> nat ajp_result" where
  "ajp_msg_check_header m =
    do {
      h0 \<leftarrow> get_byte m 0; h1 \<leftarrow> get_byte m 1;
      (if \<not> (h0 = 0x41 \<and> h1 = 0x42 \<or> h0 = 0x12 \<and> h1 = 0x34) then fail AJP_EBAD_SIGNATURE m
       else do {
         h2 \<leftarrow> get_byte m 2; h3 \<leftarrow> get_byte m 3;
         let msglen = unat h2 * 256 + unat h3;
         (if msglen > max_size m then fail AJP_ETOBIG m
          else ok msglen (m\<lparr>msg_len := msglen + AJP_HEADER_LEN, pos := AJP_HEADER_LEN\<rparr>)) }) }"

text \<open>What the calls of \<open>apr_socket_recv\<close> yield in turn: bytes (at most as many as asked for; the rest stays for the next call), the end of the
  stream, a call to try again, a timeout or another error. A peer that sends nothing more is the end.\<close>

datatype recv = Bytes "byte list" | Eof | Again | Timeout | Broken

datatype read_error = End_Of_Stream | Timed | Other

text \<open>\<open>ilink_read\<close>: \<open>rdlen\<close> bytes are already there; each piece is written where it belongs.\<close>

fun ilink_read :: "recv list \<Rightarrow> nat \<Rightarrow> nat \<Rightarrow> nat \<Rightarrow> ajp_msg \<Rightarrow> ((read_error + unit) \<times> recv list \<times> ajp_msg) option" where
  "ilink_read s off len rdlen m =
    (if rdlen \<ge> len then Some (Inr (), s, m)
     else case s of
         [] \<Rightarrow> Some (Inl End_Of_Stream, [], m)
       | Eof # s \<Rightarrow> Some (Inl End_Of_Stream, s, m)
       | Timeout # s \<Rightarrow> Some (Inl Timed, s, m)
       | Broken # s \<Rightarrow> Some (Inl Other, s, m)
       | Again # s \<Rightarrow> ilink_read s off len rdlen m
       | Bytes bs # s \<Rightarrow>
           if length bs > len - rdlen then
             put_bytes (off + rdlen) (take (len - rdlen) bs) m \<bind> (\<lambda>m. Some (Inr (), Bytes (drop (len - rdlen) bs) # s, m))
           else put_bytes (off + rdlen) bs m \<bind> ilink_read s off len (rdlen + length bs))"

declare ilink_read.simps [simp del]

definition ajp_ilink_receive :: "recv list \<Rightarrow> ajp_msg \<Rightarrow> ((ajp_error + unit) \<times> recv list \<times> ajp_msg) option" where
  "ajp_ilink_receive s m =
    (let hlen = header_len m in
     ilink_read s 0 hlen 0 m \<bind> (\<lambda>(st, s, m).
       case st of
         Inl e \<Rightarrow> Some (Inl (if e = Timed then AJP_TIMEUP else AJP_ENO_HEADER), s, m)
       | Inr _ \<Rightarrow>
           ajp_msg_check_header m \<bind> (\<lambda>(st, m).
             case st of
               Inl _ \<Rightarrow> Some (Inl AJP_EBAD_HEADER, s, m)
             | Inr blen \<Rightarrow>
                 ilink_read s hlen blen 0 m \<bind> (\<lambda>(st, s, m).
                   case st of
                     Inl _ \<Rightarrow> Some (Inl AJP_EBAD_MESSAGE, s, m)
                   | Inr _ \<Rightarrow> Some (Inr (), s, m)))))"

text \<open>\<open>ajp_ilink_send\<close>: the bytes that leave on a socket that accepts them all, in whichever pieces.\<close>

definition ajp_ilink_send :: "ajp_msg \<Rightarrow> (byte list \<times> ajp_msg) option" where
  "ajp_ilink_send m =
    ajp_msg_end m \<bind> (\<lambda>m. if msg_len m \<le> length (buf m) then Some (take (msg_len m) (buf m), m) else None)"

section \<open>Buffers that are filled from the front\<close>

text \<open>\<open>if (f(msg) || g(msg) || ...) return e\<close>, and statements one after the other.\<close>

fun appends :: "ajp_error \<Rightarrow> ('m \<Rightarrow> ((ajp_error + unit) \<times> 'm) option) list \<Rightarrow> 'm \<Rightarrow> ((ajp_error + unit) \<times> 'm) option" where
  "appends e [] m = Some (Inr (), m)"
| "appends e (f # fs) m = f m \<bind> (\<lambda>(st, m). case st of Inl _ \<Rightarrow> Some (Inl e, m) | Inr _ \<Rightarrow> appends e fs m)"

definition and_then ::
  "('m \<Rightarrow> ((ajp_error + unit) \<times> 'm) option) \<Rightarrow> ('m \<Rightarrow> ((ajp_error + unit) \<times> 'm) option) \<Rightarrow> 'm \<Rightarrow> ((ajp_error + unit) \<times> 'm) option" where
  "and_then f g m = f m \<bind> (\<lambda>(st, m). case st of Inl e \<Rightarrow> Some (Inl e, m) | Inr _ \<Rightarrow> g m)"

text \<open>What a client of a buffer needs: bytes that fit are added at the end, and bytes that do not fit are refused.\<close>

locale packet_buffer =
  fixes inv :: "'m \<Rightarrow> bool"
    and content :: "'m \<Rightarrow> 'b list"
    and room :: "'m \<Rightarrow> nat"
    and put :: "'b list \<Rightarrow> 'm \<Rightarrow> ((ajp_error + unit) \<times> 'm) option"
  assumes put_fits: "inv m \<Longrightarrow> length (content m) + length bs \<le> room m \<Longrightarrow>
      \<exists>m'. put bs m = Some (Inr (), m') \<and> inv m' \<and> room m' = room m \<and> content m' = content m @ bs"
    and put_full: "inv m \<Longrightarrow> \<not> length (content m) + length bs \<le> room m \<Longrightarrow> \<exists>e. put bs m = Some (Inl e, m)"
begin

text \<open>A writer of some bytes: it returns, keeps the invariant, and fails exactly if the bytes do not fit.\<close>

definition writes :: "('m \<Rightarrow> ((ajp_error + unit) \<times> 'm) option) \<Rightarrow> 'b list \<Rightarrow> bool" where
  "writes f bs \<longleftrightarrow> (\<forall>m. inv m \<longrightarrow>
    (\<exists>st m'. f m = Some (st, m') \<and> inv m' \<and> room m' = room m \<and>
      (if length (content m) + length bs \<le> room m then st = Inr () \<and> content m' = content m @ bs else \<exists>e. st = Inl e)))"

lemma writesD:
  assumes "writes f bs" "inv m"
  obtains st m' where "f m = Some (st, m')" "inv m'" "room m' = room m"
    "if length (content m) + length bs \<le> room m then st = Inr () \<and> content m' = content m @ bs else \<exists>e. st = Inl e"
  using assms unfolding writes_def by blast

lemma writes_put: "writes (put bs) bs"
  unfolding writes_def
proof (intro allI impI)
  fix m assume "inv m"
  then show "\<exists>st m'. put bs m = Some (st, m') \<and> inv m' \<and> room m' = room m \<and>
      (if length (content m) + length bs \<le> room m then st = Inr () \<and> content m' = content m @ bs else \<exists>e. st = Inl e)"
    using put_fits [of m bs] put_full [of m bs] by (cases "length (content m) + length bs \<le> room m") auto
qed

lemma writes_Nil: "writes (\<lambda>m. Some (Inr (), m)) []" if "\<And>m. inv m \<Longrightarrow> length (content m) \<le> room m"
  using that by (simp add: writes_def)

lemma writes_chain:
  assumes "writes f a" "writes g b"
  shows "writes (\<lambda>m. f m \<bind> (\<lambda>(st, m). case st of Inl e \<Rightarrow> Some (Inl (h e), m) | Inr _ \<Rightarrow> g m)) (a @ b)"
  unfolding writes_def
proof (intro allI impI)
  fix m assume m: "inv m"
  obtain st m1 where f: "f m = Some (st, m1)" "inv m1" "room m1 = room m"
    "if length (content m) + length a \<le> room m then st = Inr () \<and> content m1 = content m @ a else \<exists>e. st = Inl e"
    using writesD [OF assms(1) m] .
  obtain st2 m2 where g: "g m1 = Some (st2, m2)" "inv m2" "room m2 = room m1"
    "if length (content m1) + length b \<le> room m1 then st2 = Inr () \<and> content m2 = content m1 @ b else \<exists>e. st2 = Inl e"
    using writesD [OF assms(2) f(2)] .
  show "\<exists>st m'. f m \<bind> (\<lambda>(st, m). case st of Inl e \<Rightarrow> Some (Inl (h e), m) | Inr _ \<Rightarrow> g m) = Some (st, m') \<and>
      inv m' \<and> room m' = room m \<and>
      (if length (content m) + length (a @ b) \<le> room m then st = Inr () \<and> content m' = content m @ a @ b else \<exists>e. st = Inl e)"
    using f g by (cases "length (content m) + length a \<le> room m") (auto simp: algebra_simps)
qed

lemma writes_then: "writes f a \<Longrightarrow> writes g b \<Longrightarrow> writes (and_then f g) (a @ b)"
  using writes_chain [of f a g b "\<lambda>e. e"] by (simp add: and_then_def [abs_def])

lemma writes_appends:
  assumes "\<And>m. inv m \<Longrightarrow> length (content m) \<le> room m"
  shows "list_all2 writes fs bss \<Longrightarrow> writes (appends e fs) (concat bss)"
proof (induction rule: list_all2_induct)
  case Nil
  have "appends e [] = (\<lambda>m. Some (Inr (), m))" by (simp add: fun_eq_iff)
  then show ?case using writes_Nil assms by simp
next
  case (Cons f fs b bss)
  have "appends e (f # fs) = (\<lambda>m. f m \<bind> (\<lambda>(st, m). case st of Inl _ \<Rightarrow> Some (Inl e, m) | Inr _ \<Rightarrow> appends e fs m))"
    by (simp add: fun_eq_iff)
  then show ?case using writes_chain [OF Cons(1,3), of "\<lambda>_. e"] by simp
qed

end

section \<open>Messages as buffers\<close>

definition msg_ok :: "ajp_msg \<Rightarrow> bool" where
  "msg_ok m \<longleftrightarrow> length (buf m) = max_size m \<and> msg_len m \<le> max_size m \<and> header_len m = AJP_HEADER_LEN"

definition msg_content :: "ajp_msg \<Rightarrow> byte list" where
  "msg_content m = take (msg_len m) (buf m)"

lemma content_length: "msg_ok m \<Longrightarrow> length (msg_content m) = msg_len m"
  by (simp add: msg_ok_def msg_content_def)

lemma msg_create_ok: "msg_ok (ajp_msg_create garbage n)"
  by (simp add: msg_ok_def ajp_msg_create_def)

lemma msg_reset_ok: "msg_ok m \<Longrightarrow> 4 \<le> max_size m \<Longrightarrow> msg_ok (ajp_msg_reset m)"
  by (simp add: msg_ok_def ajp_msg_reset_def AJP_HEADER_LEN_def)

lemma put_at_end:
  assumes "msg_ok m" "msg_len m + length bs \<le> max_size m" "n = length bs"
  shows "\<exists>m'. put_bytes (msg_len m) bs m = Some m' \<and> msg_len m' = msg_len m \<and> msg_ok (m'\<lparr>msg_len := msg_len m + n\<rparr>) \<and>
    max_size m' = max_size m \<and> msg_content (m'\<lparr>msg_len := msg_len m + n\<rparr>) = msg_content m @ bs"
  using assms by (auto simp: put_bytes_def msg_ok_def msg_content_def)

lemma append_bytes_fits:
  assumes "msg_ok m" "length (msg_content m) + length bs \<le> max_size m"
  shows "\<exists>m'. ajp_msg_append_bytes bs m = Some (Inr (), m') \<and> msg_ok m' \<and> max_size m' = max_size m \<and> msg_content m' = msg_content m @ bs"
proof (cases "bs = []")
  case False
  obtain m' where "put_bytes (msg_len m) bs m = Some m'" "msg_len m' = msg_len m" "msg_ok (m'\<lparr>msg_len := msg_len m + length bs\<rparr>)"
    "max_size m' = max_size m" "msg_content (m'\<lparr>msg_len := msg_len m + length bs\<rparr>) = msg_content m @ bs"
    using put_at_end [OF assms(1), of bs "length bs"] assms(2) content_length [OF assms(1)] by auto
  then show ?thesis using False assms(2) content_length [OF assms(1)] by (simp add: ajp_msg_append_bytes_def ok_def)
qed (use assms(1) in \<open>simp add: ajp_msg_append_bytes_def ok_def\<close>)

lemma append_bytes_full:
  assumes "msg_ok m" "\<not> length (msg_content m) + length bs \<le> max_size m"
  shows "ajp_msg_append_bytes bs m = Some (Inl AJP_EOVERFLOW, m)"
  using assms content_length [OF assms(1)] by (auto simp: ajp_msg_append_bytes_def fail_def msg_ok_def)

interpretation ajp: packet_buffer msg_ok msg_content max_size ajp_msg_append_bytes
  by unfold_locales (use append_bytes_fits append_bytes_full in blast)+

lemma append_uints:
  "ajp_msg_append_uint8 b = ajp_msg_append_bytes [b]"
  "ajp_msg_append_uint16 w = ajp_msg_append_bytes (be16 w)"
  "ajp_msg_append_uint32 v = ajp_msg_append_bytes (be32 v)"
  by (simp_all add: fun_eq_iff ajp_msg_append_uint8_def ajp_msg_append_uint16_def ajp_msg_append_uint32_def
    ajp_msg_append_bytes_def be16_def be32_def eval_nat_numeral)

definition string_bytes :: "byte list option \<Rightarrow> byte list" where
  "string_bytes v = (case v of None \<Rightarrow> [0xFF, 0xFF] | Some s \<Rightarrow> be16 (word_of_nat (length s)) @ s @ [0])"

lemma append_string_Some:
  assumes "msg_ok m"
  shows "ajp_msg_append_string (Some s) m = ajp_msg_append_bytes (string_bytes (Some s)) m"
  using assms
  by (auto simp: ajp_msg_append_string_def ajp_msg_append_uint16_def ajp_msg_append_bytes_def string_bytes_def be16_def put_bytes_def
    ok_def fail_def msg_ok_def eval_nat_numeral add.commute)

lemma ajp_writes:
  "ajp.writes (ajp_msg_append_uint8 b) [b]" "ajp.writes (ajp_msg_append_uint16 w) (be16 w)"
  "ajp.writes (ajp_msg_append_uint32 v) (be32 v)" "ajp.writes (ajp_msg_append_string t) (string_bytes t)"
proof -
  show "ajp.writes (ajp_msg_append_uint8 b) [b]" "ajp.writes (ajp_msg_append_uint16 w) (be16 w)"
    "ajp.writes (ajp_msg_append_uint32 v) (be32 v)"
    unfolding append_uints by (rule ajp.writes_put)+
  show "ajp.writes (ajp_msg_append_string t) (string_bytes t)"
  proof (cases t)
    case None
    have "be16 0xFFFF = [0xFF, 0xFF]" by (simp add: be16_def)
    then have "ajp_msg_append_string t = ajp_msg_append_bytes (string_bytes t)"
      using None by (simp add: fun_eq_iff ajp_msg_append_string_def append_uints string_bytes_def)
    then show ?thesis using ajp.writes_put by simp
  next
    case (Some s)
    show ?thesis using ajp.writes_put [of "string_bytes t"] unfolding ajp.writes_def Some using append_string_Some by metis
  qed
qed

section \<open>Reading what was written\<close>

text \<open>The bytes that are still to be read.\<close>

definition unread :: "ajp_msg \<Rightarrow> byte list" where
  "unread m = drop (pos m) (msg_content m)"

lemma be16_inverse:
  "be16 w = [a, b] \<Longrightarrow> push_bit 8 (ucast a) + ucast b = w"
  "be16 w = [a, b] \<Longrightarrow> unat a * 256 + unat b = unat w"
proof -
  assume e: "be16 w = [a, b]"
  have m: "unat (v AND 0xFF) = unat v mod 256" for v :: "16 word"
  proof -
    have "v AND 0xFF = take_bit 8 v" by (simp add: take_bit_eq_mask mask_eq_exp_minus_1)
    then have "unat (v AND 0xFF) = take_bit 8 (unat v)" by (simp only: unsigned_take_bit_eq)
    then show ?thesis by (simp add: take_bit_eq_mod)
  qed
  have c: "unat (ucast v :: byte) = unat v mod 256" for v :: "16 word"
    by (simp add: unsigned_ucast_eq take_bit_eq_mod)
  have a: "unat a = unat w div 256"
  proof -
    have "unat (drop_bit 8 w) = take_bit 8 (drop_bit 8 (unat w))" by (simp add: unsigned_drop_bit_eq drop_bit_take_bit)
    also have "\<dots> = unat w div 256"
      using unsigned_less [of w, where 'a = nat] by (simp add: take_bit_eq_mod drop_bit_eq_div)
    finally have d: "unat (drop_bit 8 w) = unat w div 256" .
    have "unat w div 256 < 256" using unsigned_less [of w, where 'a = nat] by simp
    then have "unat w div 256 mod 256 = unat w div 256" by (rule mod_less)
    moreover have "a = ucast (drop_bit 8 w AND 0xFF)" using e by (simp add: be16_def)
    ultimately show ?thesis by (simp add: c m d)
  qed
  have b: "unat b = unat w mod 256" using e by (auto simp: be16_def c m)
  show v: "unat a * 256 + unat b = unat w" by (simp only: a b div_mult_mod_eq)
  have u: "ucast c = (word_of_nat (unat c) :: 16 word)" for c :: byte by simp
  have "push_bit 8 (ucast a) + ucast b = (word_of_nat (unat a * 256 + unat b) :: 16 word)"
    by (simp add: push_bit_eq_mult)
  then show "push_bit 8 (ucast a) + ucast b = w" unfolding v by simp
qed

lemma unread_byte:
  assumes "msg_ok m" "unread m = b # r"
  shows "pos m < msg_len m" "get_byte m (pos m) = Some b" "unread (m\<lparr>pos := pos m + 1\<rparr>) = r"
proof -
  have l: "pos m < msg_len m" using assms content_length [OF assms(1)] by (metis drop_all list.discI not_le unread_def)
  then show "pos m < msg_len m" .
  have n: "msg_content m ! pos m = b" using assms(2) l content_length [OF assms(1)]
    by (metis Cons_nth_drop_Suc list.inject unread_def)
  then show "get_byte m (pos m) = Some b" using l assms(1) by (auto simp: get_byte_def msg_content_def msg_ok_def)
  show "unread (m\<lparr>pos := pos m + 1\<rparr>) = r"
    using assms(2) by (simp add: unread_def msg_content_def) (metis drop_Suc tl_drop list.sel(3))
qed

lemma msg_ok_pos [simp]: "msg_ok (m\<lparr>pos := p\<rparr>) = msg_ok m" "msg_len (m\<lparr>pos := p\<rparr>) = msg_len m" "get_byte (m\<lparr>pos := p\<rparr>) i = get_byte m i"
  by (simp_all add: msg_ok_def get_byte_def)

lemma unread_two:
  assumes "msg_ok m" "unread m = a # b # r"
  shows "pos m + 1 < msg_len m" "get_byte m (pos m) = Some a" "get_byte m (pos m + 1) = Some b" "unread (m\<lparr>pos := pos m + 2\<rparr>) = r"
  using unread_byte [OF assms] unread_byte [of "m\<lparr>pos := pos m + 1\<rparr>" b r] assms(1) by (simp_all add: numeral_2_eq_2)

lemma get_uint8_written:
  assumes "msg_ok m" "unread m = b # r"
  shows "ajp_msg_get_uint8 m = ok b (m\<lparr>pos := pos m + 1\<rparr>)" "ajp_msg_peek_uint8 m = ok b m" "unread (m\<lparr>pos := pos m + 1\<rparr>) = r"
  using unread_byte [OF assms] by (simp_all add: ajp_msg_get_uint8_def ajp_msg_peek_uint8_def)

lemma be16_two: "\<exists>a b. be16 w = [a, b]"
  by (simp add: be16_def)

lemma get_uint16_written:
  assumes "msg_ok m" "unread m = be16 w @ r"
  shows "ajp_msg_get_uint16 m = ok w (m\<lparr>pos := pos m + 2\<rparr>)" "ajp_msg_peek_uint16 m = ok w m" "unread (m\<lparr>pos := pos m + 2\<rparr>) = r"
proof -
  obtain a b where w: "be16 w = [a, b]" using be16_two by blast
  note u = unread_two [OF assms(1), of a b r, unfolded assms(2), unfolded w, simplified]
  show "ajp_msg_get_uint16 m = ok w (m\<lparr>pos := pos m + 2\<rparr>)" "ajp_msg_peek_uint16 m = ok w m" "unread (m\<lparr>pos := pos m + 2\<rparr>) = r"
    using u be16_inverse(1) [OF w] by (simp_all add: ajp_msg_get_uint16_def ajp_msg_peek_uint16_def)
qed

lemma unread_within:
  assumes "msg_ok m" "unread m = xs @ r" "xs \<noteq> []"
  shows "pos m + length xs \<le> msg_len m" "take (length xs) (drop (pos m) (buf m)) = xs" "unread (m\<lparr>pos := pos m + length xs\<rparr>) = r"
proof -
  have "length (unread m) = msg_len m - pos m" using content_length [OF assms(1)] by (simp add: unread_def)
  then have "length xs + length r = msg_len m - pos m" "0 < length xs" using assms(2,3) by auto
  then show l: "pos m + length xs \<le> msg_len m" by linarith
  have "take (length xs) (drop (pos m) (msg_content m)) = xs" using assms(2) by (simp add: unread_def)
  moreover have "take (length xs) (drop (pos m) (msg_content m)) = take (length xs) (drop (pos m) (buf m))"
    using l by (simp add: msg_content_def drop_take min_def)
  ultimately show "take (length xs) (drop (pos m) (buf m)) = xs" by simp
  show "unread (m\<lparr>pos := pos m + length xs\<rparr>) = r"
    using assms(2) unfolding unread_def msg_content_def by simp (metis add.commute append_eq_conv_conj drop_drop)
qed

lemma get_string_written:
  assumes "msg_ok m" "unread m = string_bytes (Some s) @ r" "length s < 65536" "0 \<notin> set s"
  shows "\<exists>i. ajp_msg_get_string m = ok i (m\<lparr>pos := pos m + length s + 3\<rparr>) \<and> c_string_at m i = Some s \<and>
    unread (m\<lparr>pos := pos m + length s + 3\<rparr>) = r"
proof -
  define m2 where "m2 = m\<lparr>pos := pos m + 2\<rparr>"
  have g: "ajp_msg_get_uint16 m = ok (word_of_nat (length s)) m2" "unread m2 = (s @ [0]) @ r"
    using get_uint16_written [OF assms(1), of "word_of_nat (length s)" "s @ 0 # r"] assms(2)
    by (simp_all add: string_bytes_def m2_def)
  have n: "unat (word_of_nat (length s) :: 16 word) = length s"
    using assms(3) by (simp add: unat_of_nat)
  have m2: "msg_ok m2" using assms(1) by (simp add: m2_def)
  note w = unread_within [OF m2 g(2)]
  have "length s + pos m2 \<le> max_size m2" using w(1) m2 by (simp add: msg_ok_def)
  then have "ajp_msg_get_string m = ok (pos m2) (m\<lparr>pos := pos m + length s + 3\<rparr>)"
    unfolding ajp_msg_get_string_def g(1) ok_def by (simp add: n) (simp add: m2_def eval_nat_numeral ok_def fail_def add.commute)
  moreover have "c_string_at m (pos m2) = Some s"
  proof -
    have "drop (pos m2) (buf m2) = s @ 0 # drop (length s + 1) (drop (pos m2) (buf m2))"
      using w(2) by (metis append_take_drop_id append.assoc append_Cons append_Nil length_append_singleton Suc_eq_plus1 list.discI append_is_Nil_conv)
    then have d: "drop (pos m2) (buf m) = s @ 0 # drop (length s + 1) (drop (pos m2) (buf m2))" by (simp add: m2_def)
    show ?thesis using assms(4) unfolding c_string_at_def d by (simp add: takeWhile_tail) (metis (no_types, lifting) takeWhile_eq_all_conv)
  qed
  moreover have "unread (m\<lparr>pos := pos m + length s + 3\<rparr>) = r" using w(3) by (simp add: m2_def eval_nat_numeral)
  ultimately show ?thesis by blast
qed

section \<open>Receiving\<close>

text \<open>A socket that delivers bytes, in any pieces and with any calls to try again, and what it delivers.\<close>

definition steady :: "recv list \<Rightarrow> bool" where
  "steady s \<longleftrightarrow> list_all (\<lambda>x. case x of Bytes _ \<Rightarrow> True | Again \<Rightarrow> True | _ \<Rightarrow> False) s"

definition wire :: "recv list \<Rightarrow> byte list" where
  "wire s = concat (map (\<lambda>x. case x of Bytes bs \<Rightarrow> bs | _ \<Rightarrow> []) s)"

lemma wire_simps [simp]:
  "wire [] = []" "wire (Bytes bs # s) = bs @ wire s" "wire (Again # s) = wire s"
  "steady []" "steady (Bytes bs # s) = steady s" "steady (Again # s) = steady s"
  "\<not> steady (Eof # s)" "\<not> steady (Timeout # s)" "\<not> steady (Broken # s)"
  by (simp_all add: wire_def steady_def)

lemma ilink_read_fits:
  assumes "steady s" "rdlen \<le> len" "len - rdlen \<le> length (wire s)" "off + len \<le> length (buf m)"
  shows "\<exists>s'. ilink_read s off len rdlen m =
      Some (Inr (), s', m\<lparr>buf := take (off + rdlen) (buf m) @ take (len - rdlen) (wire s) @ drop (off + len) (buf m)\<rparr>) \<and>
    steady s' \<and> wire s' = drop (len - rdlen) (wire s)"
  using assms
proof (induction s arbitrary: rdlen m)
  case Nil
  then show ?case by (simp add: ilink_read.simps)
next
  case (Cons x s)
  show ?case
  proof (cases "rdlen = len")
    case True
    then show ?thesis using Cons.prems by (simp add: ilink_read.simps)
  next
    case False
    then have lt: "rdlen < len" using Cons.prems(2) by simp
    show ?thesis
    proof (cases x)
      case (Bytes bs)
      show ?thesis
      proof (cases "length bs > len - rdlen")
        case True
        then show ?thesis using Cons.prems lt Bytes
          by (intro exI [of _ "Bytes (drop (len - rdlen) bs) # s"]) (simp add: ilink_read.simps [of "_ # s"] put_bytes_def)
      next
        case False
        let ?m = "m\<lparr>buf := take (off + rdlen) (buf m) @ bs @ drop (off + rdlen + length bs) (buf m)\<rparr>"
        have a: "steady s" "rdlen + length bs \<le> len" "len - (rdlen + length bs) \<le> length (wire s)" "off + len \<le> length (buf ?m)"
          using Cons.prems False Bytes lt by auto
        obtain s' where "ilink_read s off len (rdlen + length bs) ?m =
            Some (Inr (), s', ?m\<lparr>buf := take (off + (rdlen + length bs)) (buf ?m) @ take (len - (rdlen + length bs)) (wire s) @
              drop (off + len) (buf ?m)\<rparr>)" "steady s'" "wire s' = drop (len - (rdlen + length bs)) (wire s)"
          using Cons.IH [OF a] by blast
        moreover have "put_bytes (off + rdlen) bs m = Some ?m" using Cons.prems(4) lt False by (simp add: put_bytes_def)
        ultimately show ?thesis using Cons.prems lt False Bytes
          by (intro exI [of _ s']) (simp add: ilink_read.simps [of "_ # s"] algebra_simps)
      qed
    next
      case Again
      then show ?thesis using Cons lt by (simp add: ilink_read.simps [of "_ # s"])
    qed (use Cons.prems(1) in simp_all)
  qed
qed

lemma ilink_read_outside:
  assumes "steady s" "len - rdlen \<le> length (wire s)" "length (buf m) < off + len" "off + rdlen \<le> length (buf m)"
  shows "ilink_read s off len rdlen m = None"
  using assms
proof (induction s arbitrary: rdlen m)
  case (Cons x s)
  have lt: "rdlen < len" using Cons.prems(3,4) by simp
  show ?case
  proof (cases x)
    case (Bytes bs)
    show ?thesis
    proof (cases "length bs > len - rdlen")
      case True
      then show ?thesis using Cons.prems lt Bytes by (simp add: ilink_read.simps [of "_ # s"] put_bytes_def)
    next
      case False
      show ?thesis
      proof (cases "off + rdlen + length bs \<le> length (buf m)")
        case True
        then show ?thesis using Cons.IH [of "rdlen + length bs"] Cons.prems lt Bytes False
          by (simp add: ilink_read.simps [of "_ # s"] put_bytes_def algebra_simps)
      next
        case out: False
        then show ?thesis using lt Bytes False by (simp add: ilink_read.simps [of "_ # s"] put_bytes_def)
      qed
    qed
  next
    case Again
    then show ?thesis using Cons lt by (simp add: ilink_read.simps [of "_ # s"])
  qed (use Cons.prems(1) in simp_all)
qed (simp add: ilink_read.simps)

lemma be16_length [simp]: "length (be16 w) = 2"
  by (simp add: be16_def)

definition ajp_signature :: "byte list \<Rightarrow> bool" where
  "ajp_signature sig \<longleftrightarrow> sig = [0x41, 0x42] \<or> sig = [0x12, 0x34]"

lemma check_header_read:
  assumes "take 4 (buf m) = sig @ be16 n" "ajp_signature sig"
  shows "ajp_msg_check_header m =
    (if unat n > max_size m then fail AJP_ETOBIG m else ok (unat n) (m\<lparr>msg_len := unat n + 4, pos := 4\<rparr>))"
proof -
  obtain a b where w: "be16 n = [a, b]" using be16_two by blast
  obtain x y where s: "sig = [x, y]" using assms(2) by (auto simp: ajp_signature_def)
  have b: "buf m = [x, y, a, b] @ drop 4 (buf m)" using assms(1) s w by (metis append_Cons append_Nil append_take_drop_id)
  have g: "get_byte m 0 = Some x" "get_byte m (Suc 0) = Some y" "get_byte m 2 = Some a" "get_byte m 3 = Some b"
    by (simp add: get_byte_def, subst b, simp add: numeral_2_eq_2 numeral_3_eq_3, subst b, simp add: numeral_2_eq_2 numeral_3_eq_3)+
  show ?thesis
    using assms(2) s be16_inverse(2) [OF w] by (auto simp: ajp_msg_check_header_def g ajp_signature_def Let_def AJP_HEADER_LEN_def)
qed

lemma receive_exact:
  assumes "msg_ok m" and "4 \<le> max_size m" and "steady s" and "wire s = sig @ be16 n @ body @ rest"
    and "ajp_signature sig" and "length body = unat n"
  shows "case ajp_ilink_receive s m of
      None \<Rightarrow> unat n \<le> max_size m \<and> max_size m < unat n + 4
    | Some (Inl e, s', m') \<Rightarrow> max_size m < unat n \<and> e = AJP_EBAD_HEADER
    | Some (Inr _, s', m') \<Rightarrow> unat n + 4 \<le> max_size m \<and> msg_ok m' \<and> max_size m' = max_size m \<and> unread m' = body \<and> wire s' = rest"
proof -
  have hl: "header_len m = 4" and bl: "length (buf m) = max_size m" using assms(1) by (simp_all add: msg_ok_def AJP_HEADER_LEN_def)
  have sl: "length sig = 2" using assms(5) by (auto simp: ajp_signature_def)
  define m1 where "m1 = m\<lparr>buf := (sig @ be16 n) @ drop 4 (buf m)\<rparr>"
  obtain s1 where r1: "ilink_read s 0 4 0 m = Some (Inr (), s1, m1)" "steady s1" "wire s1 = body @ rest"
    using ilink_read_fits [OF assms(3), of 0 4 0 m] assms(2,4) bl sl by (auto simp: m1_def)
  have m1: "length (buf m1) = max_size m" "max_size m1 = max_size m" "header_len m1 = 4" "take 4 (buf m1) = sig @ be16 n"
    using assms(2) bl hl sl by (simp_all add: m1_def)
  define m2 where "m2 = m1\<lparr>msg_len := unat n + 4, pos := 4\<rparr>"
  show ?thesis
  proof (cases "unat n > max_size m")
    case True
    then have "ajp_msg_check_header m1 = fail AJP_ETOBIG m1" using check_header_read [OF m1(4) assms(5)] m1(2) by simp
    then show ?thesis using True by (simp add: ajp_ilink_receive_def hl r1 fail_def)
  next
    case small: False
    then have ch: "ajp_msg_check_header m1 = Some (Inr (unat n), m2)"
      using check_header_read [OF m1(4) assms(5)] m1(2) by (simp add: m2_def ok_def)
    have m2: "length (buf m2) = max_size m" "buf m2 = buf m1" by (simp_all add: m2_def m1)
    show ?thesis
    proof (cases "unat n + 4 \<le> max_size m")
      case True
      define m3 where "m3 = m2\<lparr>buf := take 4 (buf m2) @ body @ drop (4 + unat n) (buf m2)\<rparr>"
      obtain s2 where r2: "ilink_read s1 4 (unat n) 0 m2 = Some (Inr (), s2, m3)" "wire s2 = rest"
        using ilink_read_fits [OF r1(2), of 0 "unat n" 4 m2] r1(3) assms(6) True m2(1) by (auto simp: m3_def)
      have "msg_ok m3" "max_size m3 = max_size m" "unread m3 = body"
        using True m2(1) assms(6) m1 sl by (simp_all add: m3_def m2_def msg_ok_def AJP_HEADER_LEN_def unread_def msg_content_def)
      then show ?thesis using True r2 by (simp add: ajp_ilink_receive_def hl r1 ch)
    next
      case False
      have "ilink_read s1 4 (unat n) 0 m2 = None"
        using ilink_read_outside [OF r1(2), of "unat n" 0 m2 4] r1(3) assms(2,6) False m2(1) by simp
      then show ?thesis using False small by (simp add: ajp_ilink_receive_def hl r1 ch)
    qed
  qed
qed

lemma receive_fits:
  assumes "msg_ok m" and "4 \<le> max_size m" and "steady s" and "wire s = sig @ be16 n @ body @ rest"
    and "ajp_signature sig" and "length body = unat n" and "unat n + 4 \<le> max_size m"
  shows "\<exists>s' m'. ajp_ilink_receive s m = Some (Inr (), s', m') \<and> msg_ok m' \<and> unread m' = body \<and> wire s' = rest"
proof -
  note r = receive_exact [OF assms(1-6)]
  obtain st s' m' where e: "ajp_ilink_receive s m = Some (st, s', m')"
    using r assms(7) by (cases "ajp_ilink_receive s m") auto
  obtain x where "st = Inr x" using r e assms(7) by (cases st) auto
  then show ?thesis using r e by (cases x) auto
qed


lemma example_receive:
  "ajp_ilink_receive [Bytes [0x41, 0x42, 0], Again, Bytes [3, 7, 8, 9]] (ajp_msg_create [] 6) = None"
  "case ajp_ilink_receive [Bytes [0x41, 0x42, 0], Again, Bytes [3, 7, 8, 9]] (ajp_msg_create [] 7) of
     Some (Inr _, s, m) \<Rightarrow> unread m = [7, 8, 9] | _ \<Rightarrow> False"
  by code_simp+


text \<open>
  C40: The tests before reading are one byte short. On a well-formed message whose position is not past its end, the getters read
  outside the buffer exactly when one byte is missing at its very end: the tests accept a value of which all but the
  last byte lie within the message.\<close>

theorem ajp_get_overread:
  assumes "msg_ok m" and "pos m \<le> msg_len m"
  shows "(ajp_msg_get_uint8 m = None \<longleftrightarrow> pos m = max_size m) \<and>
    (ajp_msg_get_uint16 m = None \<longleftrightarrow> pos m + 1 = max_size m \<and> msg_len m = max_size m) \<and>
    (ajp_msg_get_uint32 m = None \<longleftrightarrow> pos m + 3 = max_size m \<and> msg_len m = max_size m)"
  using assms
  by (auto simp: ajp_msg_get_uint8_def ajp_msg_get_uint16_def ajp_msg_get_uint32_def msg_ok_def get_byte_def ok_def fail_def
    split: if_splits)

theorem ajp_get_overread_witness:
  "ajp_msg_get_uint16 \<lparr>buf = [1, 2, 3, 4, 5], header_len = 4, msg_len = 5, pos = 4, server_side = False, max_size = 5\<rparr> = None"
  using ajp_get_overread [of "\<lparr>buf = [1, 2, 3, 4, 5], header_len = 4, msg_len = 5, pos = 4, server_side = False, max_size = 5\<rparr>"]
  by (simp add: msg_ok_def AJP_HEADER_LEN_def)

end
