(* ===== verification/Ajp_Header.thy ===== *)
theory Ajp_Header
  imports Ajp_Msg Read_Request Byterange
begin

text \<open>
  Requests and responses as AJP messages: \<^verbatim>\<open>modules/proxy/ajp_header.c\<close>. \<open>ajp_marshal_into_msgb\<close> writes a request into a
  message, the \<open>ajp_parse\<close> functions and \<open>ajp_unmarshal_response\<close> read what a servlet container answers. The SSL variables, the maps of reverse proxying
  for cookies and locations and the tables of APR are arguments; log messages are not modelled.
\<close>

section \<open>Codes\<close>

definition response_trans_headers :: "string list" where
  "response_trans_headers = [''Content-Type'', ''Content-Language'', ''Content-Length'', ''Date'', ''Last-Modified'', ''Location'',
     ''Set-Cookie'', ''Set-Cookie2'', ''Servlet-Engine'', ''Status'', ''WWW-Authenticate'']"

definition long_res_header_for_sc :: "16 word \<Rightarrow> string option" where
  "long_res_header_for_sc sc =
    (let sc = unat sc mod 256 in if sc \<le> 11 \<and> sc > 0 then Some (response_trans_headers ! (sc - 1)) else None)"

text \<open>The name in capitals, and the switch on its first letter; \<open>None\<close> is \<open>UNKNOWN_METHOD\<close>.\<close>

definition sc_for_req_header :: "string \<Rightarrow> 16 word option" where
  "sc_for_req_header header_name =
    (let len = length header_name in
     if len < 4 \<or> len > 15 then None
     else
       let header = map c_toupper header_name; p = tl header; c = hd header in
       if c = CHR ''A'' then
         (if take 5 p = ''CCEPT'' then
            (if at header 6 = NUL then Some 0xA001
             else if at header 6 = CHR ''-'' then
               (let p = drop 6 p in
                if p = ''CHARSET'' then Some 0xA002
                else if p = ''ENCODING'' then Some 0xA003
                else if p = ''LANGUAGE'' then Some 0xA004
                else None)
             else None)
          else if p = ''UTHORIZATION'' then Some 0xA005
          else None)
       else if c = CHR ''C'' then
         (if p = ''OOKIE2'' then Some 0xA00A
          else if p = ''OOKIE'' then Some 0xA009
          else if p = ''ONNECTION'' then Some 0xA006
          else if p = ''ONTENT-TYPE'' then Some 0xA007
          else if p = ''ONTENT-LENGTH'' then Some 0xA008
          else None)
       else if c = CHR ''H'' then (if p = ''OST'' then Some 0xA00B else None)
       else if c = CHR ''P'' then (if p = ''RAGMA'' then Some 0xA00C else None)
       else if c = CHR ''R'' then (if p = ''EFERER'' then Some 0xA00D else None)
       else if c = CHR ''U'' then (if p = ''SER-AGENT'' then Some 0xA00E else None)
       else None)"

definition sc_for_req_method_table :: "byte list" where
  "sc_for_req_method_table = [2, 5, 4, 6, 0, 1, 7, 0, 8, 9, 10, 11, 12, 13, 14, 17, 19, 20, 18, 23, 24, 16, 22, 27, 26, 25, 0]"

definition sc_for_req_method_by_id :: "'a request_scheme \<Rightarrow> byte option" where
  "sc_for_req_method_by_id r =
    (if method_number r < 0 \<or> method_number r > M_INVALID then None
     else if header_only r then Some 3
     else if sc_for_req_method_table ! nat (method_number r) \<noteq> 0 then Some (sc_for_req_method_table ! nat (method_number r))
     else None)"

definition SC_M_JK_STORED :: byte where "SC_M_JK_STORED = 0xFF"
definition SC_A_REMOTE_USER :: byte where "SC_A_REMOTE_USER = 3"
definition SC_A_AUTH_TYPE :: byte where "SC_A_AUTH_TYPE = 4"
definition SC_A_QUERY_STRING :: byte where "SC_A_QUERY_STRING = 5"
definition SC_A_JVM_ROUTE :: byte where "SC_A_JVM_ROUTE = 6"
definition SC_A_SSL_CERT :: byte where "SC_A_SSL_CERT = 7"
definition SC_A_SSL_CIPHER :: byte where "SC_A_SSL_CIPHER = 8"
definition SC_A_SSL_SESSION :: byte where "SC_A_SSL_SESSION = 9"
definition SC_A_REQ_ATTRIBUTE :: byte where "SC_A_REQ_ATTRIBUTE = 10"
definition SC_A_SSL_KEY_SIZE :: byte where "SC_A_SSL_KEY_SIZE = 11"
definition SC_A_STORED_METHOD :: byte where "SC_A_STORED_METHOD = 13"
definition SC_A_ARE_DONE :: byte where "SC_A_ARE_DONE = 0xFF"
definition CMD_AJP13_FORWARD_REQUEST :: byte where "CMD_AJP13_FORWARD_REQUEST = 2"
definition CMD_AJP13_SEND_BODY_CHUNK :: byte where "CMD_AJP13_SEND_BODY_CHUNK = 3"
definition CMD_AJP13_SEND_HEADERS :: byte where "CMD_AJP13_SEND_HEADERS = 4"
definition CMD_AJP13_END_RESPONSE :: byte where "CMD_AJP13_END_RESPONSE = 5"

section \<open>Writing a request\<close>

record 't forward_request = "'t vhost_request" +
  useragent_ip :: string
  useragent_port :: nat
  useragent_host :: "string option"
  canonical_server_name :: string
  is_https :: bool
  remote_user :: "string option"
  auth_type :: "string option"
  notes_table :: 't
  process_env :: 't
  local_port :: nat
  local_ip :: string

definition bytes_of :: "string \<Rightarrow> byte list" where
  "bytes_of = map of_char"

definition append_str :: "string option \<Rightarrow> ajp_msg \<Rightarrow> unit ajp_result" where
  "append_str v = ajp_msg_append_string (map_option bytes_of v)"

text \<open>\<open>atoi\<close> of the C library.\<close>

definition c_atoi :: "string \<Rightarrow> int" where
  "c_atoi s =
    (let s = dropWhile c_isspace s; neg = (peek s = CHR ''-''); s = (if peek s = CHR ''-'' \<or> peek s = CHR ''+'' then tl s else s);
         n = foldl (\<lambda>n c. n * 10 + (int (ord c) - 48)) 0 (takeWhile c_isdigit s)
     in if neg then - n else n)"

fun marshal_headers :: "(string \<times> string) list \<Rightarrow> ajp_msg \<Rightarrow> unit ajp_result" where
  "marshal_headers [] = ok ()"
| "marshal_headers ((key, val) # es) =
    and_then
      (appends AJP_EOVERFLOW
        [case sc_for_req_header key of Some sc \<Rightarrow> ajp_msg_append_uint16 sc | None \<Rightarrow> append_str (Some key),
         append_str (Some val)])
      (marshal_headers es)"

definition marshal_attr :: "byte \<Rightarrow> string option \<Rightarrow> ajp_msg \<Rightarrow> unit ajp_result" where
  "marshal_attr code v =
    (case v of None \<Rightarrow> ok () | Some s \<Rightarrow> appends AJP_EOVERFLOW [ajp_msg_append_uint8 code, append_str (Some s)])"

definition marshal_named :: "string \<Rightarrow> string \<Rightarrow> ajp_msg \<Rightarrow> unit ajp_result" where
  "marshal_named key val =
    appends AJP_EOVERFLOW [ajp_msg_append_uint8 SC_A_REQ_ATTRIBUTE, append_str (Some key), append_str (Some val)]"

fun marshal_env :: "(string \<times> string) list \<Rightarrow> ajp_msg \<Rightarrow> unit ajp_result" where
  "marshal_env [] = ok ()"
| "marshal_env ((key, val) # es) =
    (if take 4 key = ''AJP_'' then and_then (marshal_named (drop 4 key) val) (marshal_env es) else marshal_env es)"

text \<open>A variable of the SSL module counts when it is set and not empty, and only on a connection with TLS.\<close>

definition ssl_attr :: "(string \<Rightarrow> string option) \<Rightarrow> bool \<Rightarrow> string \<Rightarrow> string option" where
  "ssl_attr ssl_val is_ssl name =
    (if is_ssl then (case ssl_val name of Some v \<Rightarrow> if v \<noteq> [] then Some v else None | None \<Rightarrow> None) else None)"

definition ajp_marshal_into_msgb ::
  "'t table_ops \<Rightarrow> (string \<Rightarrow> string option) \<Rightarrow> 't forward_request \<Rightarrow> apr_uri \<Rightarrow> ajp_msg \<Rightarrow> unit ajp_result" where
  "ajp_marshal_into_msgb T ssl_val r u m =
    (let method' = (case sc_for_req_method_by_id r of None \<Rightarrow> SC_M_JK_STORED | Some c \<Rightarrow> c);
         elts = apr_table_elts T (headers_in r)
     in and_then
         (appends AJP_EGENERAL
           [ajp_msg_append_uint8 CMD_AJP13_FORWARD_REQUEST, ajp_msg_append_uint8 method', append_str (Some (protocol r)),
            append_str (path u), append_str (Some (useragent_ip r)), append_str (useragent_host r),
            append_str (Some (canonical_server_name r)), ajp_msg_append_uint16 (word_of_nat (local_port r)),
            ajp_msg_append_uint8 (if is_https r then 1 else 0), ajp_msg_append_uint16 (word_of_nat (length elts))])
       (and_then (marshal_headers elts)
       (and_then (marshal_attr SC_A_REMOTE_USER (remote_user r))
       (and_then (marshal_attr SC_A_AUTH_TYPE (auth_type r))
       (and_then (marshal_attr SC_A_QUERY_STRING (query u))
       (and_then (marshal_attr SC_A_JVM_ROUTE (apr_table_get T (notes_table r) ''session-route''))
       (and_then (marshal_attr SC_A_SSL_CERT (ssl_attr ssl_val (is_https r) ''SSL_CLIENT_CERT''))
       (and_then (marshal_attr SC_A_SSL_CIPHER (ssl_attr ssl_val (is_https r) ''SSL_CIPHER''))
       (and_then (marshal_attr SC_A_SSL_SESSION (ssl_attr ssl_val (is_https r) ''SSL_SESSION_ID''))
       (and_then (case ssl_attr ssl_val (is_https r) ''SSL_CIPHER_USEKEYSIZE'' of
           None \<Rightarrow> ok ()
         | Some v \<Rightarrow> appends AJP_EGENERAL
             [ajp_msg_append_uint8 SC_A_SSL_KEY_SIZE, ajp_msg_append_uint16 (word_of_int (c_atoi v))])
       (and_then (if method' = SC_M_JK_STORED then marshal_attr SC_A_STORED_METHOD (Some (meth r)) else ok ())
       (and_then (case ssl_attr ssl_val (is_https r) ''SSL_PROTOCOL'' of
           None \<Rightarrow> ok () | Some v \<Rightarrow> marshal_named ''AJP_SSL_PROTOCOL'' v)
       (and_then (marshal_named ''AJP_REMOTE_PORT'' (dec (int (useragent_port r))))
       (and_then (marshal_named ''AJP_LOCAL_ADDR'' (local_ip r))
       (and_then (marshal_env (apr_table_elts T (process_env r)))
         (appends AJP_EOVERFLOW [ajp_msg_append_uint8 SC_A_ARE_DONE])))))))))))))))
       (ajp_msg_reset m))"

text \<open>\<open>ajp_send_header\<close> as far as it fills the packet: the bytes for the socket.\<close>

definition ajp_send_header ::
  "'t table_ops \<Rightarrow> (string \<Rightarrow> string option) \<Rightarrow> byte list \<Rightarrow> nat \<Rightarrow> 't forward_request \<Rightarrow> apr_uri \<Rightarrow> (ajp_error + byte list) option" where
  "ajp_send_header T ssl_val garbage buffsize r u =
    ajp_marshal_into_msgb T ssl_val r u (ajp_msg_create garbage buffsize) \<bind> (\<lambda>(st, m).
      case st of Inl e \<Rightarrow> Some (Inl e) | Inr _ \<Rightarrow> map_option (\<lambda>(packet, m). Inr packet) (ajp_ilink_send m))"

section \<open>Reading a response\<close>

text \<open>What the functions set in the request; \<open>headers_out\<close> can become a null pointer.\<close>

record 't ajp_response =
  resp_status :: nat
  status_line :: "string option"
  resp_headers :: "'t option"
  content_type :: "string option"

record reverse_maps =
  ap_proxy_cookie_reverse_map :: "string \<Rightarrow> string"
  ap_proxy_location_reverse_map :: "string \<Rightarrow> string"

definition string_of :: "byte list \<Rightarrow> string" where
  "string_of = map (\<lambda>b. char_of (unat b))"

text \<open>A string that the code uses at once: the pointer and the bytes it points to.\<close>

definition get_str :: "ajp_msg \<Rightarrow> string ajp_result" where
  "get_str m =
    ajp_msg_get_string m \<bind> (\<lambda>(st, m).
      case st of Inl e \<Rightarrow> fail e m | Inr i \<Rightarrow> c_string_at m i \<bind> (\<lambda>s. ok (string_of s) m))"

definition header_name :: "ajp_msg \<Rightarrow> string ajp_result" where
  "header_name m =
    ajp_msg_peek_uint16 m \<bind> (\<lambda>(st, m).
      case st of
        Inl e \<Rightarrow> fail e m
      | Inr name \<Rightarrow>
          if unat name div 256 = 0xA0 then
            ajp_msg_get_uint16 m \<bind> (\<lambda>(_, m).
              case long_res_header_for_sc name of None \<Rightarrow> fail AJP_EBAD_HEADER m | Some s \<Rightarrow> ok s m)
          else get_str m)"

definition map_value :: "reverse_maps \<Rightarrow> string \<Rightarrow> string \<Rightarrow> string" where
  "map_value R name value =
    (if strcaseeq name ''Set-Cookie'' then ap_proxy_cookie_reverse_map R value
     else if strcaseeq name ''Location'' \<or> strcaseeq name ''Content-Location'' \<or> strcaseeq name ''URI'' \<or>
       strcaseeq name ''Destination'' then ap_proxy_location_reverse_map R value
     else value)"

definition add_header :: "'t table_ops \<Rightarrow> reverse_maps \<Rightarrow> string \<Rightarrow> string \<Rightarrow> 't ajp_response \<Rightarrow> 't ajp_response" where
  "add_header T R name value r =
    (let value = map_value R name value;
         r = r\<lparr>resp_headers := map_option (\<lambda>t. apr_table_addn T t name value) (resp_headers r)\<rparr>
     in if strcaseeq name ''Content-Type'' then r\<lparr>content_type := Some value\<rparr> else r)"

primrec unmarshal_headers ::
  "nat \<Rightarrow> 't table_ops \<Rightarrow> reverse_maps \<Rightarrow> ajp_msg \<Rightarrow> 't ajp_response \<Rightarrow> ((ajp_error + unit) \<times> ajp_msg \<times> 't ajp_response) option" where
  "unmarshal_headers 0 T R m r = Some (Inr (), m, r)"
| "unmarshal_headers (Suc n) T R m r =
    header_name m \<bind> (\<lambda>(st, m).
      case st of
        Inl e \<Rightarrow> Some (Inl e, m, r)
      | Inr name \<Rightarrow>
          get_str m \<bind> (\<lambda>(st, m).
            case st of
              Inl e \<Rightarrow> Some (Inl e, m, r)
            | Inr value \<Rightarrow> unmarshal_headers n T R m (add_header T R name value r)))"

definition saved_cookies :: "'t table_ops \<Rightarrow> 't \<Rightarrow> 't option \<Rightarrow> 't" where
  "saved_cookies T fresh old =
    foldl (\<lambda>t e. apr_table_addn T t (fst e) (snd e)) fresh
      (case old of None \<Rightarrow> [] | Some t \<Rightarrow> filter (\<lambda>e. strcaseeq (fst e) ''Set-Cookie'') (apr_table_elts T t))"

definition ajp_unmarshal_response ::
  "'t table_ops \<Rightarrow> 't \<Rightarrow> reverse_maps \<Rightarrow> ajp_msg \<Rightarrow> 't ajp_response \<Rightarrow> ((ajp_error + unit) \<times> ajp_msg \<times> 't ajp_response) option" where
  "ajp_unmarshal_response T fresh R m r =
    ajp_msg_get_uint16 m \<bind> (\<lambda>(st, m).
      case st of
        Inl e \<Rightarrow> Some (Inl e, m, r)
      | Inr st \<Rightarrow>
          get_str m \<bind> (\<lambda>(line, m).
            let r = r\<lparr>resp_status := unat st,
                status_line := (case line of Inl _ \<Rightarrow> None | Inr s \<Rightarrow> Some (dec (int (unat st)) @ '' '' @ s))\<rparr>
            in ajp_msg_get_uint16 m \<bind> (\<lambda>(n, m).
              case n of
                Inl _ \<Rightarrow> Some (Inr (), m, r\<lparr>resp_headers := None\<rparr>)
              | Inr n \<Rightarrow> unmarshal_headers (unat n) T R m (r\<lparr>resp_headers := Some (saved_cookies T fresh (resp_headers r))\<rparr>))))"

text \<open>\<open>ajp_read_header\<close> receives the next message into the old buffer or a new one of a given size.\<close>

definition ajp_read_header :: "recv list \<Rightarrow> byte list \<Rightarrow> nat \<Rightarrow> ajp_msg option \<Rightarrow> ((ajp_error + unit) \<times> recv list \<times> ajp_msg) option" where
  "ajp_read_header s garbage buffsize msg =
    (let m = ajp_msg_reset (case msg of Some m \<Rightarrow> ajp_msg_reuse m | None \<Rightarrow> ajp_msg_create garbage buffsize) in
     ajp_ilink_receive s m \<bind> (\<lambda>(st, s, m).
       case st of
         Inl e \<Rightarrow> Some (Inl e, s, m)
       | Inr _ \<Rightarrow>
           ajp_msg_peek_uint8 m \<bind> (\<lambda>(st, m). case st of Inl e \<Rightarrow> Some (Inl e, s, m) | Inr _ \<Rightarrow> Some (Inr (), s, m))))"

definition ajp_parse_type :: "ajp_msg \<Rightarrow> byte ajp_result" where
  "ajp_parse_type m = ajp_msg_peek_uint8 m"

definition ajp_parse_header ::
  "'t table_ops \<Rightarrow> 't \<Rightarrow> reverse_maps \<Rightarrow> ajp_msg \<Rightarrow> 't ajp_response \<Rightarrow> ((ajp_error + unit) \<times> ajp_msg \<times> 't ajp_response) option" where
  "ajp_parse_header T fresh R m r =
    ajp_msg_get_uint8 m \<bind> (\<lambda>(st, m).
      case st of
        Inl e \<Rightarrow> Some (Inl e, m, r)
      | Inr result \<Rightarrow>
          if result \<noteq> CMD_AJP13_SEND_HEADERS then Some (Inl AJP_EBAD_HEADER, m, r)
          else ajp_unmarshal_response T fresh R m r)"

text \<open>The length of the data and the pointer to them; \<open>expected_len\<close> has 16 bits.\<close>

definition ajp_parse_data :: "ajp_msg \<Rightarrow> (16 word \<times> nat) ajp_result" where
  "ajp_parse_data m =
    ajp_msg_get_uint8 m \<bind> (\<lambda>(st, m).
      case st of
        Inl e \<Rightarrow> fail e m
      | Inr result \<Rightarrow>
          if result \<noteq> CMD_AJP13_SEND_BODY_CHUNK then fail AJP_EBAD_HEADER m
          else ajp_msg_get_uint16 m \<bind> (\<lambda>(st, m).
            case st of
              Inl e \<Rightarrow> fail e m
            | Inr len \<Rightarrow>
                if len \<noteq> word_of_nat (msg_len m) - 8 then fail AJP_EBAD_HEADER m
                else ok (len, pos m) m))"

definition ajp_parse_reuse :: "ajp_msg \<Rightarrow> byte ajp_result" where
  "ajp_parse_reuse m =
    ajp_msg_get_uint8 m \<bind> (\<lambda>(st, m).
      case st of
        Inl e \<Rightarrow> fail e m
      | Inr result \<Rightarrow> if result \<noteq> CMD_AJP13_END_RESPONSE then fail AJP_EBAD_HEADER m else ajp_msg_get_uint8 m)"

text \<open>The room that the caller may fill with data, and what is sent then.\<close>

definition ajp_alloc_data_msg :: "byte list \<Rightarrow> nat \<Rightarrow> nat \<times> nat \<times> ajp_msg" where
  "ajp_alloc_data_msg garbage len = (6, len - 6, ajp_msg_reset (ajp_msg_create garbage len))"

definition ajp_send_data_msg :: "nat \<Rightarrow> ajp_msg \<Rightarrow> (byte list \<times> ajp_msg) option" where
  "ajp_send_data_msg len m =
    put_bytes 4 (be16 (word_of_nat len)) m \<bind> (\<lambda>m. ajp_ilink_send (m\<lparr>msg_len := msg_len m + len + 2\<rparr>))"

section \<open>The messages as data\<close>

text \<open>A forwarded request by the grammar in the comment above \<open>ajp_marshal_into_msgb\<close>: a header name is a code or a string; an attribute is a
  code with a string, a name with a string, or the size of a key.\<close>

datatype forward_attr = Attr byte string | Named string string | Key_Size "16 word"

record forwarded =
  fw_method :: byte
  fw_strings :: "string option list"
  fw_port :: "16 word"
  fw_ssl :: byte
  fw_headers :: "((16 word + string) \<times> string) list"
  fw_attrs :: "forward_attr list"

definition encode_str :: "string option \<Rightarrow> byte list" where
  "encode_str v = string_bytes (map_option bytes_of v)"

definition encode_header :: "(16 word + string) \<times> string \<Rightarrow> byte list" where
  "encode_header h = (case fst h of Inl c \<Rightarrow> be16 c | Inr s \<Rightarrow> encode_str (Some s)) @ encode_str (Some (snd h))"

fun encode_attr :: "forward_attr \<Rightarrow> byte list" where
  "encode_attr (Attr c s) = [c] @ encode_str (Some s)"
| "encode_attr (Named k v) = [SC_A_REQ_ATTRIBUTE] @ encode_str (Some k) @ encode_str (Some v)"
| "encode_attr (Key_Size n) = [SC_A_SSL_KEY_SIZE] @ be16 n"

definition encode_forward :: "forwarded \<Rightarrow> byte list" where
  "encode_forward f = [CMD_AJP13_FORWARD_REQUEST, fw_method f] @ concat (map encode_str (fw_strings f)) @ be16 (fw_port f) @ [fw_ssl f] @
    be16 (word_of_nat (length (fw_headers f))) @ concat (map encode_header (fw_headers f)) @
    concat (map encode_attr (fw_attrs f)) @ [SC_A_ARE_DONE]"

text \<open>What a request means.\<close>

definition name_of :: "string \<Rightarrow> 16 word + string" where
  "name_of key = (case sc_for_req_header key of Some sc \<Rightarrow> Inl sc | None \<Rightarrow> Inr key)"

definition attr_of :: "byte \<Rightarrow> string option \<Rightarrow> forward_attr list" where
  "attr_of code v = (case v of None \<Rightarrow> [] | Some s \<Rightarrow> [Attr code s])"

definition env_attrs :: "(string \<times> string) list \<Rightarrow> forward_attr list" where
  "env_attrs es = map (\<lambda>e. Named (drop 4 (fst e)) (snd e)) (filter (\<lambda>e. take 4 (fst e) = ''AJP_'') es)"

definition method_code :: "'a request_scheme \<Rightarrow> byte" where
  "method_code r = (case sc_for_req_method_by_id r of None \<Rightarrow> SC_M_JK_STORED | Some c \<Rightarrow> c)"

definition forward_of :: "'t table_ops \<Rightarrow> (string \<Rightarrow> string option) \<Rightarrow> 't forward_request \<Rightarrow> apr_uri \<Rightarrow> forwarded" where
  "forward_of T ssl_val r u =
    (let ssl = ssl_attr ssl_val (is_https r) in
     \<lparr>fw_method = method_code r,
      fw_strings = [Some (protocol r), path u, Some (useragent_ip r), useragent_host r, Some (canonical_server_name r)],
      fw_port = word_of_nat (local_port r), fw_ssl = (if is_https r then 1 else 0),
      fw_headers = map (\<lambda>e. (name_of (fst e), snd e)) (apr_table_elts T (headers_in r)),
      fw_attrs =
        attr_of SC_A_REMOTE_USER (remote_user r) @ attr_of SC_A_AUTH_TYPE (auth_type r) @ attr_of SC_A_QUERY_STRING (query u) @
        attr_of SC_A_JVM_ROUTE (apr_table_get T (notes_table r) ''session-route'') @
        attr_of SC_A_SSL_CERT (ssl ''SSL_CLIENT_CERT'') @ attr_of SC_A_SSL_CIPHER (ssl ''SSL_CIPHER'') @
        attr_of SC_A_SSL_SESSION (ssl ''SSL_SESSION_ID'') @
        (case ssl ''SSL_CIPHER_USEKEYSIZE'' of None \<Rightarrow> [] | Some v \<Rightarrow> [Key_Size (word_of_int (c_atoi v))]) @
        (if method_code r = SC_M_JK_STORED then [Attr SC_A_STORED_METHOD (meth r)] else []) @
        (case ssl ''SSL_PROTOCOL'' of None \<Rightarrow> [] | Some v \<Rightarrow> [Named ''AJP_SSL_PROTOCOL'' v]) @
        [Named ''AJP_REMOTE_PORT'' (dec (int (useragent_port r))), Named ''AJP_LOCAL_ADDR'' (local_ip r)] @
        env_attrs (apr_table_elts T (process_env r))\<rparr>)"

section \<open>Marshalling writes the encoding\<close>

lemma content_room: "msg_ok m \<Longrightarrow> length (msg_content m) \<le> max_size m"
  by (simp add: content_length msg_ok_def)

lemma writes_ok: "ajp.writes (ok ()) []"
  using ajp.writes_Nil [OF content_room] by (simp add: ok_def [abs_def])

lemma writes_str: "ajp.writes (append_str v) (encode_str v)"
  by (simp add: append_str_def encode_str_def ajp_writes)

lemmas writes_all = ajp.writes_appends [OF content_room]

lemma writes_headers:
  "ajp.writes (marshal_headers es) (concat (map (\<lambda>e. encode_header (name_of (fst e), snd e)) es))"
proof (induction es rule: marshal_headers.induct)
  case (2 key val es)
  have "ajp.writes (appends AJP_EOVERFLOW
      [case sc_for_req_header key of Some sc \<Rightarrow> ajp_msg_append_uint16 sc | None \<Rightarrow> append_str (Some key), append_str (Some val)])
      (concat [case name_of key of Inl c \<Rightarrow> be16 c | Inr s \<Rightarrow> encode_str (Some s), encode_str (Some val)])"
    by (rule writes_all) (auto simp: name_of_def ajp_writes writes_str split: option.split)
  from ajp.writes_then [OF this 2] show ?case by (simp add: encode_header_def)
qed (simp add: writes_ok)

lemma writes_attr: "ajp.writes (marshal_attr code v) (concat (map encode_attr (attr_of code v)))"
proof (cases v)
  case (Some s)
  have "ajp.writes (appends AJP_EOVERFLOW [ajp_msg_append_uint8 code, append_str (Some s)]) (concat [[code], encode_str (Some s)])"
    by (rule writes_all) (auto simp: ajp_writes writes_str)
  then show ?thesis using Some by (simp add: marshal_attr_def attr_of_def)
qed (simp add: marshal_attr_def attr_of_def writes_ok)

lemma writes_named: "ajp.writes (marshal_named k v) (encode_attr (Named k v))"
proof -
  have "ajp.writes (marshal_named k v) (concat [[SC_A_REQ_ATTRIBUTE], encode_str (Some k), encode_str (Some v)])"
    unfolding marshal_named_def by (rule writes_all) (auto simp: ajp_writes writes_str)
  then show ?thesis by simp
qed

lemma writes_env: "ajp.writes (marshal_env es) (concat (map encode_attr (env_attrs es)))"
proof (induction es rule: marshal_env.induct)
  case (2 key val es)
  then show ?case using ajp.writes_then [OF writes_named [of "drop 4 key" val]]
    by (auto simp: env_attrs_def)
qed (simp add: writes_ok env_attrs_def)

lemma writes_marshal:
  "\<exists>f. ajp_marshal_into_msgb T ssl_val r u = f \<circ> ajp_msg_reset \<and> ajp.writes f (encode_forward (forward_of T ssl_val r u))"
proof -
  let ?elts = "apr_table_elts T (headers_in r)" and ?ssl = "ssl_attr ssl_val (is_https r)"
  let ?start = "appends AJP_EGENERAL
     [ajp_msg_append_uint8 CMD_AJP13_FORWARD_REQUEST, ajp_msg_append_uint8 (method_code r), append_str (Some (protocol r)),
      append_str (path u), append_str (Some (useragent_ip r)), append_str (useragent_host r),
      append_str (Some (canonical_server_name r)), ajp_msg_append_uint16 (word_of_nat (local_port r)),
      ajp_msg_append_uint8 (if is_https r then 1 else 0), ajp_msg_append_uint16 (word_of_nat (length ?elts))]"
  let ?key = "case ?ssl ''SSL_CIPHER_USEKEYSIZE'' of None \<Rightarrow> ok ()
     | Some v \<Rightarrow> appends AJP_EGENERAL [ajp_msg_append_uint8 SC_A_SSL_KEY_SIZE, ajp_msg_append_uint16 (word_of_int (c_atoi v))]"
  let ?meth = "if method_code r = SC_M_JK_STORED then marshal_attr SC_A_STORED_METHOD (Some (meth r)) else ok ()"
  let ?prot = "case ?ssl ''SSL_PROTOCOL'' of None \<Rightarrow> ok () | Some v \<Rightarrow> marshal_named ''AJP_SSL_PROTOCOL'' v"
  have start: "ajp.writes ?start (concat [[CMD_AJP13_FORWARD_REQUEST], [method_code r], encode_str (Some (protocol r)),
      encode_str (path u), encode_str (Some (useragent_ip r)), encode_str (useragent_host r),
      encode_str (Some (canonical_server_name r)), be16 (word_of_nat (local_port r)), [if is_https r then 1 else 0],
      be16 (word_of_nat (length ?elts))])"
    by (rule writes_all) (auto simp: ajp_writes writes_str)
  have key: "ajp.writes ?key (concat (map encode_attr (case ?ssl ''SSL_CIPHER_USEKEYSIZE'' of None \<Rightarrow> [] | Some v \<Rightarrow> [Key_Size (word_of_int (c_atoi v))])))"
  proof (cases "?ssl ''SSL_CIPHER_USEKEYSIZE''")
    case (Some v)
    have "ajp.writes (appends AJP_EGENERAL [ajp_msg_append_uint8 SC_A_SSL_KEY_SIZE, ajp_msg_append_uint16 (word_of_int (c_atoi v))])
        (concat [[SC_A_SSL_KEY_SIZE], be16 (word_of_int (c_atoi v))])"
      by (rule writes_all) (auto simp: ajp_writes)
    then show ?thesis using Some by simp
  qed (simp add: writes_ok)
  have meth: "ajp.writes ?meth (concat (map encode_attr (if method_code r = SC_M_JK_STORED then [Attr SC_A_STORED_METHOD (meth r)] else [])))"
    using writes_attr [of SC_A_STORED_METHOD "Some (meth r)"] writes_ok by (simp add: attr_of_def)
  have prot: "ajp.writes ?prot (concat (map encode_attr (case ?ssl ''SSL_PROTOCOL'' of None \<Rightarrow> [] | Some v \<Rightarrow> [Named ''AJP_SSL_PROTOCOL'' v])))"
    using writes_ok writes_named [of "''AJP_SSL_PROTOCOL''"] by (cases "?ssl ''SSL_PROTOCOL''") simp_all
  have fin: "ajp.writes (appends AJP_EOVERFLOW [ajp_msg_append_uint8 SC_A_ARE_DONE]) (concat [[SC_A_ARE_DONE]])"
    by (rule writes_all) (auto simp: ajp_writes)
  note w = ajp.writes_then [OF start ajp.writes_then [OF writes_headers [of ?elts]
      ajp.writes_then [OF writes_attr [of SC_A_REMOTE_USER "remote_user r"]
      ajp.writes_then [OF writes_attr [of SC_A_AUTH_TYPE "auth_type r"]
      ajp.writes_then [OF writes_attr [of SC_A_QUERY_STRING "query u"]
      ajp.writes_then [OF writes_attr [of SC_A_JVM_ROUTE "apr_table_get T (notes_table r) ''session-route''"]
      ajp.writes_then [OF writes_attr [of SC_A_SSL_CERT "?ssl ''SSL_CLIENT_CERT''"]
      ajp.writes_then [OF writes_attr [of SC_A_SSL_CIPHER "?ssl ''SSL_CIPHER''"]
      ajp.writes_then [OF writes_attr [of SC_A_SSL_SESSION "?ssl ''SSL_SESSION_ID''"]
      ajp.writes_then [OF key ajp.writes_then [OF meth ajp.writes_then [OF prot
      ajp.writes_then [OF writes_named [of "''AJP_REMOTE_PORT''" "dec (int (useragent_port r))"]
      ajp.writes_then [OF writes_named [of "''AJP_LOCAL_ADDR''" "local_ip r"]
      ajp.writes_then [OF writes_env [of "apr_table_elts T (process_env r)"] fin]]]]]]]]]]]]]]]
  show ?thesis
    using w
    by (intro exI conjI) (auto simp: fun_eq_iff ajp_marshal_into_msgb_def method_code_def Let_def encode_forward_def forward_of_def comp_def)
qed

section \<open>Decoding\<close>

text \<open>How the other side reads the bytes; \<open>None\<close> when they do not follow the grammar. The fuel of \<open>take_attrs\<close> is the number of bytes.\<close>

fun take_u16 :: "byte list \<Rightarrow> (16 word \<times> byte list) option" where
  "take_u16 (a # b # bs) = Some (push_bit 8 (ucast a) + ucast b, bs)"
| "take_u16 _ = None"

definition take_str :: "byte list \<Rightarrow> (string option \<times> byte list) option" where
  "take_str bs = do {
     (n, bs) \<leftarrow> take_u16 bs;
     (if n = 0xFFFF then Some (None, bs)
      else if unat n < length bs \<and> bs ! unat n = 0 then Some (Some (string_of (take (unat n) bs)), drop (unat n + 1) bs)
      else None) }"

definition take_text :: "byte list \<Rightarrow> (string \<times> byte list) option" where
  "take_text bs = do { (s, bs) \<leftarrow> take_str bs; (case s of None \<Rightarrow> None | Some s \<Rightarrow> Some (s, bs)) }"

definition take_name :: "byte list \<Rightarrow> ((16 word + string) \<times> byte list) option" where
  "take_name bs = do {
     (n, rest) \<leftarrow> take_u16 bs;
     (if unat n div 256 = 0xA0 then Some (Inl n, rest) else map_option (\<lambda>(s, bs). (Inr s, bs)) (take_text bs)) }"

primrec take_headers :: "nat \<Rightarrow> byte list \<Rightarrow> (((16 word + string) \<times> string) list \<times> byte list) option" where
  "take_headers 0 bs = Some ([], bs)"
| "take_headers (Suc n) bs = do {
     (k, bs) \<leftarrow> take_name bs; (v, bs) \<leftarrow> take_text bs; (hs, bs) \<leftarrow> take_headers n bs; Some ((k, v) # hs, bs) }"

primrec take_strs :: "nat \<Rightarrow> byte list \<Rightarrow> (string option list \<times> byte list) option" where
  "take_strs 0 bs = Some ([], bs)"
| "take_strs (Suc n) bs = do { (s, bs) \<leftarrow> take_str bs; (ss, bs) \<leftarrow> take_strs n bs; Some (s # ss, bs) }"

primrec take_attrs :: "nat \<Rightarrow> byte list \<Rightarrow> forward_attr list option" where
  "take_attrs 0 bs = None"
| "take_attrs (Suc n) bs =
    (case bs of
       [] \<Rightarrow> None
     | c # bs \<Rightarrow>
         if c = SC_A_ARE_DONE then (if bs = [] then Some [] else None)
         else if c = SC_A_REQ_ATTRIBUTE then do {
           (k, bs) \<leftarrow> take_text bs; (v, bs) \<leftarrow> take_text bs; map_option ((#) (Named k v)) (take_attrs n bs) }
         else if c = SC_A_SSL_KEY_SIZE then do { (k, bs) \<leftarrow> take_u16 bs; map_option ((#) (Key_Size k)) (take_attrs n bs) }
         else do { (v, bs) \<leftarrow> take_text bs; map_option ((#) (Attr c v)) (take_attrs n bs) })"

definition decode_forward :: "byte list \<Rightarrow> forwarded option" where
  "decode_forward bs =
    (case bs of
       c # mth # bs \<Rightarrow>
         if c \<noteq> CMD_AJP13_FORWARD_REQUEST then None
         else do {
           (ss, bs) \<leftarrow> take_strs 5 bs;
           (port, bs) \<leftarrow> take_u16 bs;
           (case bs of
              [] \<Rightarrow> None
            | ssl # bs \<Rightarrow> do {
                (n, bs) \<leftarrow> take_u16 bs;
                (hs, bs) \<leftarrow> take_headers (unat n) bs;
                attrs \<leftarrow> take_attrs (length bs) bs;
                Some \<lparr>fw_method = mth, fw_strings = ss, fw_port = port, fw_ssl = ssl, fw_headers = hs, fw_attrs = attrs\<rparr> }) }
     | _ \<Rightarrow> None)"

text \<open>Strings whose length cannot be taken for the code of a header name.\<close>

definition clean :: "string \<Rightarrow> bool" where
  "clean s \<longleftrightarrow> cstring s \<and> length s < 0xA000"

lemma take_u16_be16: "take_u16 (be16 n @ bs) = Some (n, bs)"
proof -
  obtain a b where "be16 n = [a, b]" using be16_two by blast
  then show ?thesis using be16_inverse(1) by simp
qed

lemma byte_char: "char_of (unat (of_char c :: byte)) = c"
proof -
  have "(of_char c :: byte) = word_of_nat (ord c)" by (rule of_nat_of_char [symmetric])
  then have "unat (of_char c :: byte) = ord c mod 256" by (simp only: unat_of_nat) simp
  then have "unat (of_char c :: byte) = ord c" by simp
  then show ?thesis by simp
qed

lemma string_of_bytes [simp]: "string_of (bytes_of s) = s"
  by (simp add: string_of_def bytes_of_def byte_char comp_def)

lemma bytes_of_length [simp]: "length (bytes_of s) = length s"
  by (simp add: bytes_of_def)

lemma unat_length16: "length s < 0xA000 \<Longrightarrow> unat (word_of_nat (length s) :: 16 word) = length s"
  by (simp add: unat_of_nat)

lemma take_str_Some:
  assumes "clean s"
  shows "take_str (encode_str (Some s) @ bs) = Some (Some s, bs)"
proof -
  have l: "length s < 0xA000" using assms by (simp add: clean_def)
  then have "(word_of_nat (length s) :: 16 word) \<noteq> 0xFFFF" using unat_length16 by force
  then show ?thesis
    using unat_length16 [OF l] by (simp add: take_str_def encode_str_def string_bytes_def take_u16_be16 nth_append)
qed

lemma take_str_encoded: "(\<And>s. v = Some s \<Longrightarrow> clean s) \<Longrightarrow> take_str (encode_str v @ bs) = Some (v, bs)"
proof (cases v)
  case None
  have "take_u16 (0xFF # 0xFF # bs) = Some (0xFFFF, bs)" by simp
  then show ?thesis using None by (simp add: take_str_def encode_str_def string_bytes_def)
qed (simp add: take_str_Some)

lemma take_text_encoded: "clean s \<Longrightarrow> take_text (encode_str (Some s) @ bs) = Some (s, bs)"
  by (simp add: take_text_def take_str_Some)

lemma take_strs_encoded:
  "list_all (\<lambda>v. case v of None \<Rightarrow> True | Some s \<Rightarrow> clean s) vs \<Longrightarrow>
   take_strs (length vs) (concat (map encode_str vs) @ bs) = Some (vs, bs)"
proof (induction vs)
  case (Cons v vs)
  have "take_str (encode_str v @ x) = Some (v, x)" for x
    by (rule take_str_encoded) (use Cons.prems in auto)
  then show ?case using Cons by simp
qed simp

definition name_ok :: "16 word + string \<Rightarrow> bool" where
  "name_ok k = (case k of Inl c \<Rightarrow> unat c div 256 = 0xA0 | Inr s \<Rightarrow> clean s)"

lemma take_name_encoded:
  assumes "name_ok k"
  shows "take_name ((case k of Inl c \<Rightarrow> be16 c | Inr s \<Rightarrow> encode_str (Some s)) @ bs) = Some (k, bs)"
proof (cases k)
  case (Inl c)
  then show ?thesis using assms by (simp add: take_name_def take_u16_be16 name_ok_def)
next
  case (Inr s)
  then have c: "clean s" using assms by (simp add: name_ok_def)
  then have "length s < 0xA000" by (simp add: clean_def)
  then have "unat (word_of_nat (length s) :: 16 word) div 256 \<noteq> 0xA0" using unat_length16 [of s] by simp
  moreover have "take_u16 (encode_str (Some s) @ bs) = Some (word_of_nat (length s), bytes_of s @ [0] @ bs)"
    by (simp add: encode_str_def string_bytes_def take_u16_be16)
  ultimately show ?thesis using take_text_encoded [OF c, of bs] Inr by (simp add: take_name_def)
qed

lemma take_headers_encoded:
  "list_all (\<lambda>h. name_ok (fst h) \<and> clean (snd h)) hs \<Longrightarrow>
   take_headers (length hs) (concat (map encode_header hs) @ bs) = Some (hs, bs)"
  by (induction hs) (auto simp: encode_header_def take_name_encoded take_text_encoded)

fun attr_ok :: "forward_attr \<Rightarrow> bool" where
  "attr_ok (Attr c s) \<longleftrightarrow> c \<notin> {SC_A_ARE_DONE, SC_A_REQ_ATTRIBUTE, SC_A_SSL_KEY_SIZE} \<and> clean s"
| "attr_ok (Named k v) \<longleftrightarrow> clean k \<and> clean v"
| "attr_ok (Key_Size n) \<longleftrightarrow> True"

lemma attr_codes: "SC_A_REQ_ATTRIBUTE \<noteq> SC_A_ARE_DONE" "SC_A_SSL_KEY_SIZE \<noteq> SC_A_ARE_DONE" "SC_A_SSL_KEY_SIZE \<noteq> SC_A_REQ_ATTRIBUTE"
  by (simp_all add: SC_A_REQ_ATTRIBUTE_def SC_A_ARE_DONE_def SC_A_SSL_KEY_SIZE_def)

lemma take_attrs_encoded:
  "list_all attr_ok as \<Longrightarrow> length as < n \<Longrightarrow> take_attrs n (concat (map encode_attr as) @ [SC_A_ARE_DONE]) = Some as"
proof (induction as arbitrary: n)
  case Nil
  then show ?case by (cases n) simp_all
next
  case (Cons a as)
  then obtain k where k: "n = Suc k" "length as < k" by (cases n) auto
  note IH = Cons.IH [OF _ k(2)]
  show ?case using Cons.prems(1) k(1) IH attr_codes
    by (cases a) (simp_all add: take_text_encoded take_u16_be16)
qed

lemma encode_attrs_length: "length as \<le> length (concat (map encode_attr as))"
proof (induction as)
  case (Cons a as)
  have "1 \<le> length (encode_attr a)" by (cases a) simp_all
  then show ?case using Cons by simp
qed simp

definition forwarded_ok :: "forwarded \<Rightarrow> bool" where
  "forwarded_ok f \<longleftrightarrow> length (fw_strings f) = 5 \<and> list_all (\<lambda>v. case v of None \<Rightarrow> True | Some s \<Rightarrow> clean s) (fw_strings f) \<and>
    length (fw_headers f) < 65536 \<and> list_all (\<lambda>h. name_ok (fst h) \<and> clean (snd h)) (fw_headers f) \<and> list_all attr_ok (fw_attrs f)"

lemma decode_encode:
  assumes "forwarded_ok f"
  shows "decode_forward (encode_forward f) = Some f"
proof -
  have n: "unat (word_of_nat (length (fw_headers f)) :: 16 word) = length (fw_headers f)"
    using assms by (simp add: forwarded_ok_def unat_of_nat)
  have s: "take_strs 5 (concat (map encode_str (fw_strings f)) @ bs) = Some (fw_strings f, bs)" for bs
    using take_strs_encoded [of "fw_strings f" bs] assms by (simp add: forwarded_ok_def)
  have h: "take_headers (length (fw_headers f)) (concat (map encode_header (fw_headers f)) @ bs) = Some (fw_headers f, bs)" for bs
    using take_headers_encoded assms by (simp add: forwarded_ok_def)
  let ?as = "concat (map encode_attr (fw_attrs f)) @ [SC_A_ARE_DONE]"
  have a: "take_attrs (length ?as) ?as = Some (fw_attrs f)"
    using take_attrs_encoded [of "fw_attrs f" "length ?as"] encode_attrs_length [of "fw_attrs f"] assms by (simp add: forwarded_ok_def)
  show ?thesis
    unfolding decode_forward_def encode_forward_def append_Cons append_Nil list.case
    by (simp only: append_assoc s Option.bind_lunit prod.case take_u16_be16 append_Cons append_Nil list.case n h a refl not_True_eq_False if_False
      simp_thms) simp
qed

section \<open>What travels\<close>

text \<open>All the strings of a request; the SSL variables are those that are forwarded.\<close>

definition forwarded_texts :: "'t table_ops \<Rightarrow> (string \<Rightarrow> string option) \<Rightarrow> 't forward_request \<Rightarrow> apr_uri \<Rightarrow> string list" where
  "forwarded_texts T ssl_val r u =
    [protocol r, useragent_ip r, canonical_server_name r, local_ip r, meth r] @
    List.map_filter (\<lambda>v. v)
      ([path u, useragent_host r, remote_user r, auth_type r, query u, apr_table_get T (notes_table r) ''session-route''] @
       map (ssl_attr ssl_val (is_https r)) [''SSL_CLIENT_CERT'', ''SSL_CIPHER'', ''SSL_SESSION_ID'', ''SSL_PROTOCOL'']) @
    concat (map (\<lambda>e. [fst e, snd e]) (apr_table_elts T (headers_in r) @ apr_table_elts T (process_env r)))"

definition forward_clean :: "'t table_ops \<Rightarrow> (string \<Rightarrow> string option) \<Rightarrow> 't forward_request \<Rightarrow> apr_uri \<Rightarrow> bool" where
  "forward_clean T ssl_val r u \<longleftrightarrow> list_all clean (forwarded_texts T ssl_val r u) \<and>
    length (apr_table_elts T (headers_in r)) < 65536 \<and> useragent_port r < 65536"

lemma sc_for_req_header_code: "sc_for_req_header key = Some sc \<Longrightarrow> unat sc div 256 = 0xA0"
  by (auto simp: sc_for_req_header_def Let_def split: if_splits)

lemma dec_digits_clean: "list_all c_isdigit (dec_digits n) \<and> length (dec_digits n) \<le> n + 1"
proof (induction n rule: dec_digits.induct)
  case (1 n)
  have d: "c_isdigit (char_of (k + 48))" if "k < 10" for k :: nat using that by (simp add: c_isdigit_def)
  show ?case
  proof (cases "n < 10")
    case True
    then show ?thesis using d by (simp add: dec_digits.simps [of n])
  next
    case False
    then show ?thesis using 1 d [of "n mod 10"] by (subst (1 2) dec_digits.simps) auto
  qed
qed

lemma dec_digits_length: "n < 10 ^ k \<Longrightarrow> 0 < k \<Longrightarrow> length (dec_digits n) \<le> k"
proof (induction k arbitrary: n)
  case (Suc k)
  show ?case
  proof (cases "n < 10")
    case True
    then show ?thesis by (simp add: dec_digits.simps [of n])
  next
    case False
    then have "k \<noteq> 0" "n div 10 < 10 ^ k" using Suc.prems by (cases k; simp)+
    then show ?thesis using Suc.IH [of "n div 10"] False by (simp add: dec_digits.simps [of n])
  qed
qed simp

lemma clean_port: "n < 65536 \<Longrightarrow> clean (dec (int n))"
proof -
  assume "n < 65536"
  then have "length (dec_digits n) \<le> 5" using dec_digits_length [of n 5] by simp
  moreover have "cstring (dec_digits n)"
    using dec_digits_clean [of n] by (auto simp: cstring_def list_all_iff c_isdigit_def)
  ultimately show ?thesis by (simp add: clean_def dec_def)
qed

lemma clean_names: "clean ''AJP_SSL_PROTOCOL''" "clean ''AJP_REMOTE_PORT''" "clean ''AJP_LOCAL_ADDR''"
  by (simp_all add: clean_def cstring_def)

lemma clean_drop: "clean s \<Longrightarrow> clean (drop n s)"
  by (auto simp: clean_def cstring_def dest: in_set_dropD)

lemma attr_of_ok:
  "(\<And>s. v = Some s \<Longrightarrow> clean s) \<Longrightarrow> c \<in> {3, 4, 5, 6, 7, 8, 9, 13} \<Longrightarrow> list_all attr_ok (attr_of c v)"
  by (cases v) (auto simp: attr_of_def SC_A_ARE_DONE_def SC_A_REQ_ATTRIBUTE_def SC_A_SSL_KEY_SIZE_def)

lemma map_filter_id: "v \<in> set vs \<Longrightarrow> v = Some s \<Longrightarrow> s \<in> set (List.map_filter (\<lambda>v. v) vs)"
  by (force simp: List.map_filter_def)

lemma forward_clean_ok:
  assumes "forward_clean T ssl_val r u"
  shows "forwarded_ok (forward_of T ssl_val r u)"
proof -
  let ?ssl = "ssl_attr ssl_val (is_https r)"
  have c: "clean s" if "s \<in> set (forwarded_texts T ssl_val r u)" for s
    using assms that by (auto simp: forward_clean_def list_all_iff)
  have o: "clean s" if "v = Some s" "v \<in> set ([path u, useragent_host r, remote_user r, auth_type r, query u,
      apr_table_get T (notes_table r) ''session-route''] @
       map ?ssl [''SSL_CLIENT_CERT'', ''SSL_CIPHER'', ''SSL_SESSION_ID'', ''SSL_PROTOCOL''])" for v s
    by (rule c) (use map_filter_id [OF that(2,1)] in \<open>simp add: forwarded_texts_def\<close>)
  have f: "clean (protocol r)" "clean (useragent_ip r)" "clean (canonical_server_name r)" "clean (local_ip r)" "clean (meth r)"
    by (rule c, simp add: forwarded_texts_def)+
  have h: "name_ok (name_of (fst e)) \<and> clean (snd e)" if "e \<in> set (apr_table_elts T (headers_in r))" for e
  proof -
    have "clean (fst e)" "clean (snd e)" by (rule c, use that in \<open>force simp: forwarded_texts_def\<close>)+
    then show ?thesis using sc_for_req_header_code by (auto simp: name_of_def name_ok_def split: option.split)
  qed
  have e: "list_all attr_ok (env_attrs (apr_table_elts T (process_env r)))"
  proof -
    have "clean (fst e) \<and> clean (snd e)" if "e \<in> set (apr_table_elts T (process_env r))" for e
      by (intro conjI; rule c; use that in \<open>force simp: forwarded_texts_def\<close>)
    then show ?thesis by (auto simp: env_attrs_def list_all_iff clean_drop)
  qed
  have a: "list_all attr_ok (attr_of SC_A_REMOTE_USER (remote_user r))" "list_all attr_ok (attr_of SC_A_AUTH_TYPE (auth_type r))"
    "list_all attr_ok (attr_of SC_A_QUERY_STRING (query u))"
    "list_all attr_ok (attr_of SC_A_JVM_ROUTE (apr_table_get T (notes_table r) ''session-route''))"
    "list_all attr_ok (attr_of SC_A_SSL_CERT (?ssl ''SSL_CLIENT_CERT''))" "list_all attr_ok (attr_of SC_A_SSL_CIPHER (?ssl ''SSL_CIPHER''))"
    "list_all attr_ok (attr_of SC_A_SSL_SESSION (?ssl ''SSL_SESSION_ID''))"
    by (rule attr_of_ok, rule o, assumption, simp, simp add: SC_A_REMOTE_USER_def SC_A_AUTH_TYPE_def SC_A_QUERY_STRING_def SC_A_JVM_ROUTE_def
      SC_A_SSL_CERT_def SC_A_SSL_CIPHER_def SC_A_SSL_SESSION_def)+
  have "attr_ok (Attr SC_A_STORED_METHOD (meth r))"
    using f(5) by (simp add: SC_A_STORED_METHOD_def SC_A_ARE_DONE_def SC_A_REQ_ATTRIBUTE_def SC_A_SSL_KEY_SIZE_def)
  moreover have "list_all attr_ok (case ?ssl ''SSL_PROTOCOL'' of None \<Rightarrow> [] | Some v \<Rightarrow> [Named ''AJP_SSL_PROTOCOL'' v])"
    using o [of "?ssl ''SSL_PROTOCOL''"] clean_names by (simp split: option.split)
  moreover have "clean (dec (int (useragent_port r)))" using assms clean_port by (simp add: forward_clean_def)
  moreover have "(case v of None \<Rightarrow> True | Some s \<Rightarrow> clean s)" if "v \<in> {path u, useragent_host r}" for v
    using o [of v] that by (auto split: option.split)
  ultimately show ?thesis
    using f h e a clean_names assms
    by (auto simp: forwarded_ok_def forward_of_def Let_def list_all_iff forward_clean_def split: option.split)
qed

lemma send_content:
  assumes "msg_ok m" and "4 \<le> msg_len m"
  shows "\<exists>sig m'. ajp_ilink_send m = Some (sig @ be16 (word_of_nat (msg_len m - 4)) @ drop 4 (msg_content m), m') \<and> ajp_signature sig"
proof -
  define sig :: "byte list" where "sig = (if server_side m then [0x41, 0x42] else [0x12, 0x34])"
  have s: "ajp_signature sig" "length sig = 2" by (auto simp: sig_def ajp_signature_def)
  define len :: "64 word" where "len = word_of_nat (msg_len m) - word_of_nat AJP_HEADER_LEN"
  have lw: "len = word_of_nat (msg_len m - 4)" using assms(2) by (simp add: len_def AJP_HEADER_LEN_def of_nat_diff)
  have b: "[ucast (drop_bit 8 len AND 0xFF), ucast (len AND 0xFF)] = be16 (word_of_nat (msg_len m - 4))"
    unfolding be16_def lw
    by (auto intro!: bit_word_eqI simp: bit_simps)
  define m' where "m' = m\<lparr>buf := sig @ be16 (word_of_nat (msg_len m - 4)) @ drop 4 (buf m)\<rparr>"
  have l: "4 \<le> length (buf m)" "msg_len m \<le> length (buf m)" using assms by (simp_all add: msg_ok_def)
  have "ajp_msg_end m = Some m'"
    unfolding ajp_msg_end_def Let_def len_def [symmetric] sig_def [symmetric] b
    using l s by (auto simp: put_bytes_def m'_def eval_nat_numeral)
  moreover have "take (msg_len m) (buf m') = sig @ be16 (word_of_nat (msg_len m - 4)) @ drop 4 (msg_content m)"
    using assms(2) s by (simp add: m'_def msg_content_def drop_take)
  ultimately show ?thesis using s l by (auto simp: ajp_ilink_send_def m'_def)
qed


section \<open>What a container answers\<close>

text \<open>A response by the grammar in the comment above \<open>ajp_unmarshal_response\<close>, and what its headers mean.\<close>

definition encode_response :: "16 word \<Rightarrow> string \<Rightarrow> ((16 word + string) \<times> string) list \<Rightarrow> byte list" where
  "encode_response code text hs = [CMD_AJP13_SEND_HEADERS] @ be16 code @ encode_str (Some text) @
    be16 (word_of_nat (length hs)) @ concat (map encode_header hs)"

definition res_name :: "16 word + string \<Rightarrow> string" where
  "res_name k = (case k of Inl c \<Rightarrow> the (long_res_header_for_sc c) | Inr s \<Rightarrow> s)"

definition res_header_ok :: "(16 word + string) \<times> string \<Rightarrow> bool" where
  "res_header_ok h \<longleftrightarrow> name_ok (fst h) \<and> clean (snd h) \<and> (\<forall>c. fst h = Inl c \<longrightarrow> long_res_header_for_sc c \<noteq> None)"

definition res_header :: "reverse_maps \<Rightarrow> (16 word + string) \<times> string \<Rightarrow> string \<times> string" where
  "res_header R h = (res_name (fst h), map_value R (res_name (fst h)) (snd h))"

definition response_ok :: "string \<Rightarrow> ((16 word + string) \<times> string) list \<Rightarrow> bool" where
  "response_ok text hs \<longleftrightarrow> clean text \<and> list_all res_header_ok hs \<and> length hs < 65536"

lemma char_of_zero: "char_of (0 :: nat) = NUL"
  by code_simp

lemma bytes_of_no_zero:
  assumes "cstring s"
  shows "0 \<notin> set (bytes_of s)"
proof
  assume "0 \<in> set (bytes_of s)"
  then obtain c where c: "c \<in> set s" "(of_char c :: byte) = 0" unfolding bytes_of_def by (metis imageE set_map)
  have "char_of (unat (0 :: byte)) = c" using byte_char [of c] unfolding c(2) .
  then have "c = NUL" using char_of_zero by simp
  then show False using c(1) assms by (simp add: cstring_def)
qed

lemma get_str_written:
  assumes "msg_ok m" "unread m = encode_str (Some s) @ r" "clean s"
  shows "\<exists>m'. get_str m = ok s m' \<and> msg_ok m' \<and> unread m' = r"
proof -
  have z: "0 \<notin> set (bytes_of s)" "length (bytes_of s) < 65536"
    using bytes_of_no_zero assms(3) by (simp_all add: clean_def)
  have u: "unread m = string_bytes (Some (bytes_of s)) @ r" using assms(2) by (simp add: encode_str_def)
  obtain i where i: "ajp_msg_get_string m = ok i (m\<lparr>pos := pos m + length (bytes_of s) + 3\<rparr>)" "c_string_at m i = Some (bytes_of s)"
    "unread (m\<lparr>pos := pos m + length (bytes_of s) + 3\<rparr>) = r"
    using get_string_written [OF assms(1) u z(2,1)] by blast
  have "c_string_at (m\<lparr>pos := p\<rparr>) i = c_string_at m i" for p by (simp add: c_string_at_def)
  then have "get_str m = ok s (m\<lparr>pos := pos m + length (bytes_of s) + 3\<rparr>)"
    using i(1,2) by (simp add: get_str_def ok_def)
  then show ?thesis using i(3) assms(1) by auto
qed

lemma header_name_written:
  assumes "msg_ok m" "unread m = (case k of Inl c \<Rightarrow> be16 c | Inr s \<Rightarrow> encode_str (Some s)) @ r" "name_ok k"
    and "\<And>c. k = Inl c \<Longrightarrow> long_res_header_for_sc c \<noteq> None"
  shows "\<exists>m'. header_name m = ok (res_name k) m' \<and> msg_ok m' \<and> unread m' = r"
proof (cases k)
  case (Inl c)
  note g = get_uint16_written [OF assms(1), of c r]
  obtain s where "long_res_header_for_sc c = Some s" using assms(4) Inl by blast
  then show ?thesis
    using g assms Inl by (intro exI [of _ "m\<lparr>pos := pos m + 2\<rparr>"]) (simp add: header_name_def ok_def name_ok_def res_name_def)
next
  case (Inr s)
  then have c: "clean s" using assms(3) by (simp add: name_ok_def)
  then have "length s < 0xA000" by (simp add: clean_def)
  then have n: "unat (word_of_nat (length s) :: 16 word) div 256 \<noteq> 0xA0" using unat_length16 [of s] by simp
  have u: "unread m = encode_str (Some s) @ r" using assms(2) Inr by simp
  then have "unread m = be16 (word_of_nat (length s)) @ bytes_of s @ [0] @ r" by (simp add: encode_str_def string_bytes_def)
  from get_uint16_written(2) [OF assms(1) this] n
  have "header_name m = get_str m" by (simp add: header_name_def ok_def)
  then show ?thesis using get_str_written [OF assms(1) u c] Inr by (simp add: res_name_def)
qed

definition content_type_of :: "string option \<Rightarrow> (string \<times> string) list \<Rightarrow> string option" where
  "content_type_of old hs = (case values_of ''Content-Type'' hs of [] \<Rightarrow> old | vs \<Rightarrow> Some (last vs))"

lemma content_type_Cons:
  "content_type_of old ((k, v) # hs) = content_type_of (if strcaseeq k ''Content-Type'' then Some v else old) hs"
  by (auto simp: content_type_of_def split: list.split)

lemma unmarshal_headers_written:
  assumes "table_laws T" "list_all res_header_ok hs" "msg_ok m" "unread m = concat (map encode_header hs) @ rest" "resp_headers r = Some t"
  shows "\<exists>m' t'. unmarshal_headers (length hs) T R m r =
      Some (Inr (), m', r\<lparr>resp_headers := Some t', content_type := content_type_of (content_type r) (map (res_header R) hs)\<rparr>) \<and>
    apr_table_elts T t' = apr_table_elts T t @ map (res_header R) hs \<and> msg_ok m' \<and> unread m' = rest"
  using assms(2-)
proof (induction hs arbitrary: m r t)
  case Nil
  have "content_type_of old [] = old" for old by (simp add: content_type_of_def)
  moreover have "r\<lparr>resp_headers := Some t, content_type := content_type r\<rparr> = r" using Nil by (cases r) simp
  ultimately show ?case using Nil by (intro exI [of _ m] exI [of _ t]) simp
next
  case (Cons h hs)
  obtain k v where h: "h = (k, v)" by (cases h)
  have "res_header_ok (k, v)" "list_all res_header_ok hs" using Cons.prems(1) by (simp_all add: h)
  then have ok': "name_ok k" "clean v" "\<And>c. k = Inl c \<Longrightarrow> long_res_header_for_sc c \<noteq> None" "list_all res_header_ok hs"
    by (simp_all add: res_header_ok_def)
  have u: "unread m = (case k of Inl c \<Rightarrow> be16 c | Inr s \<Rightarrow> encode_str (Some s)) @ encode_str (Some v) @ concat (map encode_header hs) @ rest"
    using Cons.prems(3) by (simp add: h encode_header_def [of "(k, v)"])
  obtain m1 where m1: "header_name m = ok (res_name k) m1" "msg_ok m1" "unread m1 = encode_str (Some v) @ concat (map encode_header hs) @ rest"
    using header_name_written [OF Cons.prems(2) u ok'(1,3)] by blast
  obtain m2 where m2: "get_str m1 = ok v m2" "msg_ok m2" "unread m2 = concat (map encode_header hs) @ rest"
    using get_str_written [OF m1(2,3) ok'(2)] by blast
  let ?v = "map_value R (res_name k) v"
  define t1 where "t1 = apr_table_addn T t (res_name k) ?v"
  define r1 where "r1 = add_header T R (res_name k) v r"
  have r1: "resp_headers r1 = Some t1"
    "r1\<lparr>resp_headers := x, content_type := y\<rparr> = r\<lparr>resp_headers := x, content_type := y\<rparr>"
    "content_type r1 = (if strcaseeq (res_name k) ''Content-Type'' then Some ?v else content_type r)" for x y
    using Cons.prems(4) by (simp_all add: r1_def add_header_def Let_def t1_def)
  obtain m' t' where e: "unmarshal_headers (length hs) T R m2 r1 =
      Some (Inr (), m', r1\<lparr>resp_headers := Some t', content_type := content_type_of (content_type r1) (map (res_header R) hs)\<rparr>)"
    "apr_table_elts T t' = apr_table_elts T t1 @ map (res_header R) hs" "msg_ok m'" "unread m' = rest"
    using Cons.IH [OF ok'(4) m2(2,3) r1(1)] by blast
  have "unmarshal_headers (length (h # hs)) T R m r = unmarshal_headers (length hs) T R m2 r1"
    using m1(1) m2(1) by (simp add: ok_def r1_def)
  then show ?case
    using e table_addn [OF assms(1)] by (intro exI [of _ m'] exI [of _ t'])
      (simp add: r1(2) r1(3) h res_header_def [of R "(k, v)"] content_type_Cons t1_def)
qed

lemma saved_cookies_elts:
  assumes "table_laws T"
  shows "apr_table_elts T (saved_cookies T fresh old) = apr_table_elts T fresh @
    (case old of None \<Rightarrow> [] | Some t \<Rightarrow> filter (\<lambda>e. strcaseeq (fst e) ''Set-Cookie'') (apr_table_elts T t))"
proof -
  have "apr_table_elts T (foldl (\<lambda>t e. apr_table_addn T t (fst e) (snd e)) t es) = apr_table_elts T t @ es" for t es
    by (induction es arbitrary: t) (simp_all add: table_addn [OF assms])
  then show ?thesis by (simp add: saved_cookies_def)
qed

lemma parse_header_written:
  assumes "table_laws T" "apr_table_elts T fresh = []" "msg_ok m" "response_ok text hs" "unread m = encode_response code text hs"
  shows "\<exists>m' t'. ajp_parse_header T fresh R m r = Some (Inr (), m',
      r\<lparr>resp_status := unat code, status_line := Some (dec (int (unat code)) @ '' '' @ text), resp_headers := Some t',
        content_type := content_type_of (content_type r) (map (res_header R) hs)\<rparr>) \<and>
    apr_table_elts T t' = (case resp_headers r of None \<Rightarrow> [] | Some t \<Rightarrow> filter (\<lambda>e. strcaseeq (fst e) ''Set-Cookie'') (apr_table_elts T t)) @
      map (res_header R) hs"
proof -
  note u = assms(5) [unfolded encode_response_def]
  define m1 where "m1 = m\<lparr>pos := pos m + 1\<rparr>"
  have m1: "ajp_msg_get_uint8 m = ok CMD_AJP13_SEND_HEADERS m1" "msg_ok m1"
    "unread m1 = be16 code @ encode_str (Some text) @ be16 (word_of_nat (length hs)) @ concat (map encode_header hs)"
    using get_uint8_written [OF assms(3), of CMD_AJP13_SEND_HEADERS] u assms(3) by (simp_all add: m1_def)
  define m2 where "m2 = m1\<lparr>pos := pos m1 + 2\<rparr>"
  have m2: "ajp_msg_get_uint16 m1 = ok code m2" "msg_ok m2"
    "unread m2 = encode_str (Some text) @ be16 (word_of_nat (length hs)) @ concat (map encode_header hs)"
    using get_uint16_written [OF m1(2,3)] m1(2) by (simp_all add: m2_def)
  obtain m3 where m3: "get_str m2 = ok text m3" "msg_ok m3" "unread m3 = be16 (word_of_nat (length hs)) @ concat (map encode_header hs)"
    using get_str_written [OF m2(2,3)] assms(4) by (auto simp: response_ok_def)
  define m4 where "m4 = m3\<lparr>pos := pos m3 + 2\<rparr>"
  have m4: "ajp_msg_get_uint16 m3 = ok (word_of_nat (length hs)) m4" "msg_ok m4" "unread m4 = concat (map encode_header hs) @ []"
    using get_uint16_written [OF m3(2,3)] m3(2) by (simp_all add: m4_def)
  have n: "unat (word_of_nat (length hs) :: 16 word) = length hs" using assms(4) by (simp add: response_ok_def unat_of_nat)
  define r1 where "r1 = r\<lparr>resp_status := unat code, status_line := Some (dec (int (unat code)) @ '' '' @ text),
      resp_headers := Some (saved_cookies T fresh (resp_headers r))\<rparr>"
  have "list_all res_header_ok hs" "resp_headers r1 = Some (saved_cookies T fresh (resp_headers r))" using assms(4) by (simp_all add: response_ok_def r1_def)
  from unmarshal_headers_written [OF assms(1) this(1) m4(2,3) this(2), of R]
  obtain m' t' where e: "unmarshal_headers (length hs) T R m4 r1 =
      Some (Inr (), m', r1\<lparr>resp_headers := Some t', content_type := content_type_of (content_type r1) (map (res_header R) hs)\<rparr>)"
    "apr_table_elts T t' = apr_table_elts T (saved_cookies T fresh (resp_headers r)) @ map (res_header R) hs" by blast
  have "ajp_parse_header T fresh R m r = unmarshal_headers (length hs) T R m4 r1"
    using m1(1) m2(1) m3(1) m4(1) by (simp add: ajp_parse_header_def ajp_unmarshal_response_def ok_def Let_def n r1_def)
  then show ?thesis using e saved_cookies_elts [OF assms(1), of fresh "resp_headers r"] assms(2)
    by (intro exI [of _ m'] exI [of _ t']) (simp add: r1_def)
qed


definition plain_maps :: reverse_maps where
  "plain_maps = \<lparr>ap_proxy_cookie_reverse_map = (\<lambda>v. v), ap_proxy_location_reverse_map = (\<lambda>v. ''/app'' @ v)\<rparr>"

definition example_headers_sent :: "((16 word + string) \<times> string) list" where
  "example_headers_sent = [(Inl 0xA006, ''/x''), (Inr ''A'', ''b'')]"

lemma example_sent:
  "encode_response 302 ''Found'' example_headers_sent =
    [4, 1, 46, 0, 5, 70, 111, 117, 110, 100, 0, 0, 2, 0xA0, 6, 0, 2, 47, 120, 0, 0, 1, 65, 0, 0, 1, 98, 0]"
  by code_simp

lemma example_res_ok: "response_ok ''Found'' example_headers_sent"
  by (simp add: response_ok_def res_header_ok_def example_headers_sent_def clean_def name_ok_def long_res_header_for_sc_def)

lemma example_res_headers: "map (res_header plain_maps) example_headers_sent = [(''Location'', ''/app/x''), (''A'', ''b'')]"
  by (simp add: example_headers_sent_def res_header_def res_name_def long_res_header_for_sc_def response_trans_headers_def
    map_value_def plain_maps_def strcaseeq_def str_lower_def c_tolower_def c_isupper_def)


definition example_forward :: "(string \<times> string) list forward_request" where
  "example_forward = vhost_request.extend (request.extend example_line_request (vhost_request.fields [(''Host'', ''h''), (''X'', ''y'')] (base_server example_conn) 80 None))
     (forward_request.fields ''::1'' 9 None ''n'' False (Some ''u'') None [] [(''AJP_k'', ''v''), (''PATH'', ''p'')] 80 ''::1'')"

lemma example_forward_fields [simp]:
  "meth example_forward = ''GET''" "method_number example_forward = 0" "header_only example_forward = False"
  "protocol example_forward = ''HTTP/1.1''" "headers_in example_forward = [(''Host'', ''h''), (''X'', ''y'')]"
  "useragent_ip example_forward = ''::1''" "useragent_port example_forward = 9" "useragent_host example_forward = None"
  "canonical_server_name example_forward = ''n''" "is_https example_forward = False" "remote_user example_forward = Some ''u''"
  "auth_type example_forward = None" "notes_table example_forward = []"
  "process_env example_forward = [(''AJP_k'', ''v''), (''PATH'', ''p'')]" "local_port example_forward = 80" "local_ip example_forward = ''::1''"
  by (simp_all add: example_forward_def example_line_request_def request.defs vhost_request.defs forward_request.defs)

definition example_sent_forward :: forwarded where
  "example_sent_forward = \<lparr>fw_method = 2, fw_strings = [Some ''HTTP/1.1'', Some ''/'', Some ''::1'', None, Some ''n''], fw_port = 80, fw_ssl = 0,
     fw_headers = [(Inl 0xA00B, ''h''), (Inr ''X'', ''y'')],
     fw_attrs = [Attr 3 ''u'', Named ''AJP_REMOTE_PORT'' ''9'', Named ''AJP_LOCAL_ADDR'' ''::1'', Named ''k'' ''v'']\<rparr>"

lemma example_header_codes: "sc_for_req_header ''Host'' = Some 0xA00B" "sc_for_req_header ''X'' = None"
  by code_simp+

lemma example_port: "dec 9 = ''9''"
  by code_simp

lemma example_forward_of:
  "forward_of list_tables (\<lambda>_. None) example_forward (no_uri\<lparr>path := Some ''/''\<rparr>) = example_sent_forward"
  by (simp add: forward_of_def Let_def example_sent_forward_def method_code_def sc_for_req_method_by_id_def sc_for_req_method_table_def
    SC_M_JK_STORED_def list_tables_def name_of_def example_header_codes attr_of_def ssl_attr_def env_attrs_def no_uri_def example_port SC_A_REMOTE_USER_def)


end
