(* ===== verification/Spec2Isabelle.thy ===== *)
theory Spec2Isabelle
  imports Prelude Ring Str_Match Escape Paths Words Field_Lists Chunked Byterange Fd_Queue Worker_Mpm Socache Request_Line
    Balancers Regsub Translate Authz Header_Fields Vhost Read_Request
    Responses Ajp_Header
begin

text \<open>
  Verification of the Apache HTTP Server 2.4.25, the C program under \<^verbatim>\<open>src/RESEAU/httpd-2.4.25\<close>.
  All paths below are relative to that directory. The rest of the repository (course material in
  other languages and documents) holds no C code of its own and is not modelled.

  The program and its parts.
  A child process of the server accepts connections and hands them from a listener thread to worker
  threads through a bounded queue. A worker reads lines from the connection through a stack of input filters,
  takes the request line apart, collects the header fields in a table, chooses a virtual
  host and checks the combination of fields. The request is then processed: its path is decoded and
  cleaned, translated to a file by aliases and the document root, and the access rules are evaluated. While the
  response is sent, filters delimit bodies, evaluate preconditions and cut out byte ranges; a proxied request
  goes to a worker that a load balancing method picks, and may travel in the packets of AJP. Modules share small
  objects (TLS sessions, authentication results) in a cache in shared memory. Each theory
  models one of these parts, in the order and with the names of the code.

  Foundations.
  \<^item> \<open>Prelude\<close>: C strings are lists of characters without NUL; \<open>peek\<close> reads the first byte or the
    terminator. Character classes, case folding, the C library's string functions and the
    status codes that the parts share.
  \<^item> \<open>Ring\<close>: cyclic buffers, shared by the connection queues and the shared-memory cache.
  \<^item> \<open>Test_Char\<close>: the character table of \<^verbatim>\<open>server/gen_test_char.c\<close>, computed by the code's own conditions.
  \<^item> \<open>Tables\<close>: what the program relies on of the tables of APR, as a predicate of laws with a
    reference instance. APR itself is not in the repository.

  Strings and header fields (\<^verbatim>\<open>server/util.c\<close>).
  \<^item> \<open>Str_Match\<close>: \<open>ap_strcmp_match\<close> and \<open>ap_strcasecmp_match\<close>, equivalent to a relational
    reading of wildcards, although the star loop gives up early.
  \<^item> \<open>Escape\<close>: every escaping and unescaping function, with the buffer each one allocates: results
    fit, contain no character of the forbidden class, and decode to the original. The one
    overflow found (\<open>ap_escape_quotes\<close>) is a theorem.
  \<^item> \<open>Paths\<close>: \<open>ap_getparents\<close> in its four passes refines a stack machine on segments; prefixes,
    joined paths and alias matching.
  \<^item> \<open>Words\<close>: splitting at stops and the quoted words of the configuration language, with a
    round trip and a bound for the loop that reads a whole line.
  \<^item> \<open>Field_Lists\<close> and \<open>Tokens\<close>: lists of items and tokens in header fields, with the
    memory that the scanners touch; two theorems state where they miss or overrun.
  \<^item> \<open>Regsub\<close>: substitution of regular expression matches; both passes agree, so that the buffer is exact, and
    the sum of sizes cannot wrap at 64 bits.

  From bytes to a request (\<^verbatim>\<open>server/protocol.c\<close>, \<^verbatim>\<open>server/vhost.c\<close>, \<^verbatim>\<open>modules/http/http_protocol.c\<close>).
  \<^item> \<open>Methods\<close>: the generated lookup of method names and the registry of further methods refine one
    finite map; method lists are a mask and a list that represent a set.
  \<^item> \<open>Request_Line\<close>: \<open>read_request_line\<close> with its deferred errors; what passes the strict mode is
    exactly the grammar of the standard.
  \<^item> \<open>Header_Fields\<close>: \<open>ap_rgetline_core\<close> over brigades of buckets and \<open>ap_get_mime_headers_core\<close>. Lines never exceed
    the limit, and the way the bytes are cut into buckets does not matter; a strictly read section
    has only token names and values without control characters, however the lines are folded;
    a printed section is read back.
  \<^item> \<open>Vhost\<close>: the compiled hash of addresses, the checks of host names and the selection by name. The chosen
    server is the first one in the documented order; a name that passes has no slash, no NUL and no
    two dots in a row. Hash chains are lists over \<open>ipaddr_chain\<close> records.
  \<^item> \<open>Read_Request\<close>: \<open>ap_read_request\<close> composes these three. A request that is served has a body
    with at most one delimiter, so that it ends at one place for every reader.

  From a request to a response.
  \<^item> \<open>Translate\<close> (\<^verbatim>\<open>server/request.c\<close>, \<^verbatim>\<open>modules/mappers/mod_alias.c\<close>, \<^verbatim>\<open>server/core.c\<close>): decoding, dot
    segments, aliases and the document root, composed to \<open>process_uri\<close>.
  \<^item> \<open>Authz\<close> (\<^verbatim>\<open>modules/aaa/mod_authz_core.c\<close>): the tree of authorization sections, built from
    directives, checked and merged as at startup, and evaluated; the evaluation is equivalent to the
    documented meaning of the containers for every provider.
  \<^item> \<open>Entity_Tags\<close> (\<^verbatim>\<open>modules/http/http_etag.c\<close>) and \<open>Responses\<close> (\<^verbatim>\<open>modules/http/http_protocol.c\<close>): the tags of the
    versions of a file, conditional requests, and persistent connections. The chain of conditions is equivalent to a direct
    reading, and a connection stays open only after a response whose end is known.
  \<^item> \<open>Chunked\<close> (\<^verbatim>\<open>modules/http/http_filters.c\<close>, \<^verbatim>\<open>modules/http/chunk_filter.c\<close>): the parser of chunk
    sizes with its overflow test, the choice of the body's delimiter, reading a body, and the output filter;
    what the output filter writes, the input filter reads back.
  \<^item> \<open>Byterange\<close> (\<^verbatim>\<open>modules/http/byterange_filter.c\<close>): parsing \<open>Range\<close>, and sending exactly the
    bytes it asks for.
  \<^item> \<open>Balancers\<close> (\<^verbatim>\<open>modules/proxy/balancers\<close>): the search over sets of workers and three finders, with
    optimality of the choice and fairness by requests.
  \<^item> \<open>Ajp_Msg\<close> (\<^verbatim>\<open>modules/proxy/ajp_msg.c\<close>): the packets of AJP as a buffer with a position and a length;
    what is appended is read back. Two theorems say exactly when receiving writes, and reading looks, past the end of the buffer.
  \<^item> \<open>Ajp_Header\<close> (\<^verbatim>\<open>modules/proxy/ajp_header.c\<close>): requests and responses in these packets. What is sent
    is what a reader of the grammar receives, and the head of a response is understood.

  Concurrency and shared state.
  \<^item> \<open>Fd_Queue\<close> (\<^verbatim>\<open>server/mpm/worker/fdqueue.c\<close>, \<^verbatim>\<open>server/mpm/event/fdqueue.c\<close>): both rings are
    interpreted as the same bounded queue locale.
  \<^item> \<open>Worker_Mpm\<close> (\<^verbatim>\<open>server/mpm/worker/worker.c\<close>): listener and workers as a step relation on atomic
    actions; by rule induction the queue never overruns and no wake-up is lost.
  \<^item> \<open>Shmcb\<close> and \<open>Socache\<close> (\<^verbatim>\<open>modules/cache/mod_socache_shmcb.c\<close>): the segment with its index
    queue and cyclic data, and the contract of \<^verbatim>\<open>include/ap_socache.h\<close>. Each operation refines
    one on a list of entries, and a whole history never returns data that was not stored last
    under the key.

  Interfaces.
  Each locale is interpreted on the model's own definitions: bounded queues (both rings), wildcard matchers (with
  and without case), escape codes (five escapes), word splitters (both of the configuration language), the object cache (shmcb), load balancing methods
  (three finders), and packet buffers (the messages of AJP). The laws of tables are a predicate that association lists satisfy.

  How the code is represented.
  A struct is a record with the fields the operations use, an enum or a tagged union a datatype.
  A returned error is a value: an option, a status number or a sum. \<open>size_t\<close>, \<open>apr_off_t\<close> and masks are
  words where wrapping is possible (chunk sizes, sizes of substitutions, status bits of workers, method
  masks, positions of the cache), and \<open>int\<close> or \<open>nat\<close> where the lemmas show the bound. A read
  outside a buffer is \<open>None\<close> or a separate theorem. Recursion replaces loops. Loops whose
  end is not structural are \<open>function\<close>s with a measure. The loops that read from the network or search
  until something happens (\<open>fill_line\<close>, \<open>mime_loop\<close>, \<open>lb_search\<close>) are \<open>partial_function\<close>s,
  and the theorems about them state that they return. Fuel is used three times: reading
  a body takes the number of bytes on the wire, since each turn consumes one; forced expiry takes the
  number of used index entries, since each turn frees one; and the blank lines before a request line are
  limited to ten by the code itself. A division by zero of the code (a cache argument too small for one
  subcache) is \<open>None\<close>.

  What is a parameter.
  Code outside the repository is an argument: the tables, the URI and date parsers and the clock of APR, the
  comparison of socket addresses, the offsets of PCRE matches, hooks of other modules, and the filters below the
  reader of lines. Hypotheses about them are the documented ones, and each witness instantiates them
  by concrete functions.

  Not modelled.
  The configuration reader and the expression evaluator; process start, logs, listening and the
  scoreboard (interfaces of the operating system); core network filters; the event, prefork, Windows, NetWare and OS/2
  process models beyond the shared queue; URL rewriting; content negotiation; WebDAV; server-side includes and
  other content filters; the other authentication modules; proxy protocols other than the packets above and connection
  pools; HTTP/2, TLS, LDAP and Lua, which bind to libraries that are not in the repository; content generators; the
  small modules for logs, metadata, sessions and databases; support programs. Of the modelled parts,
  the text of log messages, pools and the lifetime of memory, and timeouts of sockets are left out. Builds
  for EBCDIC and for systems with other path separators are not considered.
\<close>

section \<open>From the path of a request to a file\<close>


definition merge_paths :: outside where
  "merge_paths = \<lparr>apr_filepath_merge = (\<lambda>root a secure. (APR_SUCCESS, Some (if peek a = CHR ''/'' then a else root @ ''/'' @ a))),
     apr_uri_parts = (\<lambda>s. (s, None, None)), ap_construct_url = (\<lambda>s. ''http://localhost'' @ s)\<rparr>"

definition icons_conf :: translate_conf where
  "icons_conf = \<lparr>allow_encoded_slashes = False, decode_encoded_slashes = False, server_root = ''/srv'',
     document_root = ''/srv/htdocs'', server_path = None,
     alias_server = \<lparr>aliases = [\<lparr>real = Some ''/srv/icons/'', fake = ''/icons/'', alias_handler = None, regexp = None, redir_status = 0\<rparr>],
       redirects = []\<rparr>,
     alias_dir = \<lparr>alias_expr = None, dir_handler = None, redirect_set = False, redirect_expr = None, redirect_status = 0\<rparr>\<rparr>"

definition request_for :: "string \<Rightarrow> translated" where
  "request_for u = request.extend (fresh_request\<lparr>uri := u, parsed_uri := no_uri\<lparr>path := Some u\<rparr>\<rparr>)
     (translated.fields False None None None None None None None)"


end
